(* ===== verification/Prelude.thy ===== *)
theory Prelude
  imports Main "HOL-Library.Sublist" "HOL-Library.Word"
begin

text \<open>
  Shared vocabulary of the development: the fact collections the component theories fill,
  the values with which a Rust computation can end, and the generic facts about lists,
  substring search and maps that more than one component uses.
\<close>

section \<open>Fact collections\<close>

named_theorems byte_simps \<open>definitions of the byte classes of the Rust standard library\<close>
named_theorems web_defs \<open>definitions of the web worker's guards and handlers\<close>
named_theorems spi_simps \<open>unfolding rules of the session monad\<close>
named_theorems json_simps \<open>accessors of JSON values\<close>

section \<open>Outcomes of a Rust computation\<close>

text \<open>
  A Rust function returns, or it panics and unwinds its thread. \<open>Result<T, String>\<close> is the
  sum type \<open>string + 'a\<close> (\<open>Inl\<close> the error) and \<open>Option<T>\<close> is \<open>'a option\<close>; \<open>outcome\<close> is
  used where the source has an operation that can panic.
\<close>

datatype 'a outcome = Done 'a | Panic

primrec bind_outcome :: "'a outcome \<Rightarrow> ('a \<Rightarrow> 'b outcome) \<Rightarrow> 'b outcome" where
  "bind_outcome (Done x) f = f x"
| "bind_outcome Panic f = Panic"

primrec map_outcomes :: "('a \<Rightarrow> 'b outcome) \<Rightarrow> 'a list \<Rightarrow> 'b list outcome" where
  "map_outcomes f [] = Done []"
| "map_outcomes f (x # xs) =
     bind_outcome (f x) (\<lambda>y. bind_outcome (map_outcomes f xs) (\<lambda>ys. Done (y # ys)))"

type_synonym 'a result = "string + 'a"

lemma bind_outcome_eq_Done [simp]:
  "bind_outcome m f = Done y \<longleftrightarrow> (\<exists>x. m = Done x \<and> f x = Done y)"
  by (cases m) auto

lemma bind_outcome_eq_Panic:
  "bind_outcome m f = Panic \<longleftrightarrow> m = Panic \<or> (\<exists>x. m = Done x \<and> f x = Panic)"
  by (cases m) auto

lemma map_outcomes_Done:
  "(\<And>x. x \<in> set xs \<Longrightarrow> f x = Done (g x)) \<Longrightarrow> map_outcomes f xs = Done (map g xs)"
  by (induction xs) auto

lemma map_outcomes_no_panic:
  "(\<And>x. x \<in> set xs \<Longrightarrow> f x \<noteq> Panic) \<Longrightarrow> map_outcomes f xs \<noteq> Panic"
  by (induction xs) (auto simp: bind_outcome_eq_Panic)

lemma map_outcomes_set:
  "map_outcomes f xs = Done ys \<Longrightarrow> x \<in> set xs \<Longrightarrow> \<exists>y \<in> set ys. f x = Done y"
  by (induction xs arbitrary: ys) auto

text \<open>
  Code that reads and changes a state and can fail: \<open>try_bind\<close> is the \<open>?\<close> operator, the state
  changes made before an error stay.
\<close>

type_synonym ('s, 'a) io = "'s \<Rightarrow> 'a result \<times> 's"

definition try_bind :: "('s, 'a) io \<Rightarrow> ('a \<Rightarrow> ('s, 'b) io) \<Rightarrow> ('s, 'b) io" where
  "try_bind m f s = (case m s of (Inl e, s') \<Rightarrow> (Inl e, s') | (Inr x, s') \<Rightarrow> f x s')"

definition io_ok :: "'a \<Rightarrow> ('s, 'a) io" where
  "io_ok x s = (Inr x, s)"

definition io_err :: "string \<Rightarrow> ('s, 'a) io" where
  "io_err e s = (Inl e, s)"

lemma try_bind_Inr:
  "try_bind m f s = (Inr y, s') \<longleftrightarrow> (\<exists>x s1. m s = (Inr x, s1) \<and> f x s1 = (Inr y, s'))"
  by (auto simp: try_bind_def split: prod.splits sum.splits)

lemma io_simps [simp]:
  "io_ok x s = (r, s') \<longleftrightarrow> r = Inr x \<and> s' = s" "io_err e s = (r, s') \<longleftrightarrow> r = Inl e \<and> s' = s"
  by (auto simp: io_ok_def io_err_def)

section \<open>Substring search\<close>

text \<open>\<open>find_sub p s\<close> is \<open>s.find(p)\<close>: the offset of the first occurrence of \<open>p\<close> in \<open>s\<close>.\<close>

fun find_sub :: "'a list \<Rightarrow> 'a list \<Rightarrow> nat option" where
  "find_sub p [] = (if p = [] then Some 0 else None)"
| "find_sub p (x # xs) =
     (if prefix p (x # xs) then Some 0 else map_option Suc (find_sub p xs))"

lemma find_sub_Some:
  "find_sub p s = Some i \<Longrightarrow> i + length p \<le> length s \<and> take (length p) (drop i s) = p"
proof (induction p s arbitrary: i rule: find_sub.induct)
  case (2 p x xs)
  show ?case
  proof (cases "prefix p (x # xs)")
    case True
    with "2.prems" have "i = 0" by simp
    moreover obtain zs where "x # xs = p @ zs" using True by (auto simp: prefix_def)
    ultimately show ?thesis by (metis add_0 append_eq_conv_conj drop0 length_append le_add1)
  next
    case False
    with "2.prems" obtain j where "find_sub p xs = Some j" "i = Suc j" by auto
    with "2.IH" [OF False] show ?thesis by simp
  qed
qed (auto split: if_splits)

lemma find_sub_Some_split:
  assumes "find_sub p s = Some i"
  shows "s = take i s @ p @ drop (i + length p) s"
proof -
  from find_sub_Some [OF assms] have "drop i s = p @ drop (length p) (drop i s)"
    by (metis append_take_drop_id)
  then show ?thesis
    by (metis append_take_drop_id drop_drop add.commute)
qed

lemma find_sub_None: "find_sub p s = None \<longleftrightarrow> \<not> sublist p s"
  by (induction p s rule: find_sub.induct) (auto simp: sublist_Cons_right)

lemma find_sub_first:
  "find_sub p s = Some i \<Longrightarrow> j < i \<Longrightarrow> \<not> prefix p (drop j s)"
proof (induction p s arbitrary: i j rule: find_sub.induct)
  case (2 p x xs)
  then show ?case
    by (cases j) (auto split: if_splits)
qed (auto split: if_splits)

lemma find_sub_append_None:
  assumes "\<not> sublist p (s @ butlast p)" and "p \<noteq> []"
  shows "find_sub p (s @ p @ t) = Some (length s)"
  using assms(1)
proof (induction s)
  case Nil
  from assms(2) obtain x xs where "p = x # xs" by (cases p) auto
  then show ?case by (cases "p @ t") (auto simp: prefix_def)
next
  case (Cons x xs)
  have "\<not> prefix p (x # xs @ p @ t)"
  proof
    assume "prefix p (x # xs @ p @ t)"
    moreover have "prefix (x # xs @ butlast p) (x # xs @ p @ t)"
      by (simp add: assms(2) prefix_def) (metis append.assoc append_butlast_last_id assms(2))
    moreover have "length p \<le> length (x # xs @ butlast p)"
      by simp
    ultimately have "prefix p (x # xs @ butlast p)"
      by (metis prefix_length_prefix)
    with Cons.prems show False
      by (metis append_Cons prefix_imp_sublist)
  qed
  moreover from Cons.prems have "\<not> sublist p (xs @ butlast p)"
    by (auto simp: sublist_Cons_right)
  ultimately show ?case using Cons.IH by simp
qed

text \<open>Text without the first character of the pattern is skipped.\<close>

lemma find_sub_skip:
  "x \<notin> set l \<Longrightarrow> find_sub (x # p) (l @ t) = map_option ((+) (length l)) (find_sub (x # p) t)"
proof (induction l)
  case Nil
  show ?case by (cases "find_sub (x # p) t") simp_all
next
  case (Cons a l)
  then have "find_sub (x # p) ((a # l) @ t) = map_option Suc (find_sub (x # p) (l @ t))"
    by simp
  also have "\<dots> = map_option ((+) (length (a # l))) (find_sub (x # p) t)"
    using Cons by (cases "find_sub (x # p) t") simp_all
  finally show ?case .
qed

text \<open>A first occurrence stays the first when more text arrives.\<close>

lemma find_sub_append: "find_sub p s = Some i \<Longrightarrow> find_sub p (s @ t) = Some i"
proof (induction p s arbitrary: i rule: find_sub.induct)
  case (2 p x xs)
  show ?case
  proof (cases "prefix p (x # xs)")
    case True
    then have "prefix p (x # xs @ t)" using prefix_prefix [of p "x # xs" t] by simp
    with True "2.prems" show ?thesis by simp
  next
    case False
    with "2.prems" obtain j where j: "find_sub p xs = Some j" "i = Suc j" by auto
    have "\<not> prefix p (x # xs @ t)"
    proof
      assume "prefix p (x # xs @ t)"
      moreover have "length p \<le> length (x # xs)" using find_sub_Some [OF j(1)] by simp
      ultimately have "prefix p (x # xs)" using prefix_length_prefix [of p "x # xs @ t" "x # xs"] by simp
      with False show False by simp
    qed
    with "2.IH" [OF False j(1)] j(2) show ?thesis by simp
  qed
qed (cases t; auto split: if_splits)

text \<open>
  \<open>occurrences p s\<close> lists what follows each occurrence of \<open>p\<close>, in the order in which a loop
  \<open>while let Some(i) = s[idx..].find(p)\<close> that continues right after the match visits them.
\<close>

function occurrences :: "'a list \<Rightarrow> 'a list \<Rightarrow> 'a list list" where
  "occurrences p s =
     (case find_sub p s of
        None \<Rightarrow> []
      | Some i \<Rightarrow> if p = [] then []
                  else drop (i + length p) s # occurrences p (drop (i + length p) s))"
  by pat_completeness auto
termination
proof (relation "measure (\<lambda>(p, s). length s)")
  fix p s :: "'a list" and i
  assume "find_sub p s = Some i" and "p \<noteq> []"
  from find_sub_Some [OF this(1)] this(2)
  show "((p, drop (i + length p) s), p, s) \<in> measure (\<lambda>(p, s). length s)"
    by (cases s) auto
qed simp

declare occurrences.simps [simp del]

text \<open>A pattern no proper suffix of which is also a prefix of it cannot overlap itself.\<close>

definition border_free :: "'a list \<Rightarrow> bool" where
  "border_free p \<longleftrightarrow> (\<forall>k \<in> set [1..<length p]. \<not> prefix (drop k p) p)"

lemma border_free_no_overlap:
  assumes bf: "border_free p" and "0 < k" "k < length p"
    and "s = p @ t" and "prefix p (drop k s)"
  shows False
proof -
  have "prefix (drop k p) (drop k s)" using assms(3,4) by simp
  with assms(5) have "prefix (drop k p) p \<or> prefix p (drop k p)"
    using prefix_same_cases by blast
  moreover have "length (drop k p) < length p" using assms(2,3) by simp
  ultimately have "prefix (drop k p) p"
    by (meson leD prefix_length_le)
  with bf assms(2,3) show False by (auto simp: border_free_def)
qed

lemma occurrences_complete:
  assumes "border_free p" and "p \<noteq> []"
  shows "s = a @ p @ b \<Longrightarrow> b \<in> set (occurrences p s)"
proof (induction "length s" arbitrary: s a rule: less_induct)
  case less
  then have "find_sub p s \<noteq> None" by (auto simp: find_sub_None)
  then obtain i where i: "find_sub p s = Some i" by auto
  let ?r = "drop (i + length p) s"
  from find_sub_Some [OF i] have len: "i + length p \<le> length s" by simp
  have occ: "occurrences p s = ?r # occurrences p ?r"
    by (subst occurrences.simps) (simp add: i assms(2))
  have pre: "prefix p (drop (length a) s)" using less.prems by simp
  with find_sub_first [OF i] have "i \<le> length a" by (meson not_le)
  show ?case
  proof (cases "length a = i")
    case True
    with less.prems occ show ?thesis by simp
  next
    case False
    define k where "k = length a - i"
    have k: "0 < k" "length a = i + k" using False \<open>i \<le> length a\<close> by (auto simp: k_def)
    have "\<not> k < length p"
    proof
      assume "k < length p"
      moreover have "drop i s = p @ ?r"
        using find_sub_Some [OF i] by (metis append_take_drop_id drop_drop add.commute)
      moreover have "prefix p (drop k (drop i s))" using pre k by (simp add: add.commute)
      ultimately show False using border_free_no_overlap [OF assms(1)] k by blast
    qed
    then have "?r = drop (i + length p) a @ p @ b"
      using less.prems k by simp
    moreover have "length ?r < length s" using assms(2) len by (cases s) auto
    ultimately have "b \<in> set (occurrences p ?r)" using less.hyps by blast
    then show ?thesis by (simp add: occ)
  qed
qed

lemma occurrences_sound: "r \<in> set (occurrences p s) \<Longrightarrow> \<exists>a. s = a @ p @ r"
proof (induction p s rule: occurrences.induct)
  case (1 p s)
  from "1.prems" obtain i where i: "find_sub p s = Some i" and "p \<noteq> []"
    by (cases "find_sub p s"; subst (asm) occurrences.simps) (auto split: if_splits)
  let ?r = "drop (i + length p) s"
  have occ: "occurrences p s = ?r # occurrences p ?r"
    by (subst occurrences.simps) (simp add: i \<open>p \<noteq> []\<close>)
  have s: "s = take i s @ p @ ?r" by (rule find_sub_Some_split [OF i])
  show ?case
  proof (cases "r = ?r")
    case True
    with s show ?thesis by blast
  next
    case False
    with "1.prems" occ have "r \<in> set (occurrences p ?r)" by simp
    with "1.IH" [OF i \<open>p \<noteq> []\<close>] obtain a where "?r = a @ p @ r" by blast
    with s have "s = (take i s @ p @ a) @ p @ r" by simp
    then show ?thesis by blast
  qed
qed

section \<open>Lists\<close>

lemma takeWhile_stop:
  "(\<And>x. x \<in> set xs \<Longrightarrow> P x) \<Longrightarrow> \<not> P y \<Longrightarrow> takeWhile P (xs @ y # ys) = xs"
  by (induction xs) auto

lemma dropWhile_stop:
  "(\<And>x. x \<in> set xs \<Longrightarrow> P x) \<Longrightarrow> \<not> P y \<Longrightarrow> dropWhile P (xs @ y # ys) = y # ys"
  by (induction xs) auto

lemma in_map_filter: "x \<in> set xs \<Longrightarrow> f x = Some y \<Longrightarrow> y \<in> set (List.map_filter f xs)"
  by (force simp: List.map_filter_def)

lemma suffix_length_drop: "suffix t s \<Longrightarrow> t = drop (length s - length t) s"
  by (auto simp: suffix_def)

section \<open>Hash maps\<close>

text \<open>
  A \<open>HashMap<K, V>\<close> is a partial function; \<open>retain\<close> keeps the entries that satisfy a predicate.
\<close>

definition retain :: "('k \<Rightarrow> 'v \<Rightarrow> bool) \<Rightarrow> ('k \<rightharpoonup> 'v) \<Rightarrow> ('k \<rightharpoonup> 'v)" where
  "retain P m = (\<lambda>k. case m k of None \<Rightarrow> None | Some v \<Rightarrow> if P k v then Some v else None)"

lemma retain_eq_Some [simp]: "retain P m k = Some v \<longleftrightarrow> m k = Some v \<and> P k v"
  by (auto simp: retain_def split: option.splits)

lemma retain_eq_None [simp]: "retain P m k = None \<longleftrightarrow> (\<forall>v. m k = Some v \<longrightarrow> \<not> P k v)"
  by (auto simp: retain_def split: option.splits)

lemma dom_retain: "dom (retain P m) = {k. \<exists>v. m k = Some v \<and> P k v}"
  by (auto simp: dom_def)

end
