(* ===== verification/Rust_Str.thy ===== *)
theory Rust_Str
  imports Prelude
begin

text \<open>
  The part of Rust's standard library on bytes and strings that the program uses. A
  \<open>&[u8]\<close> is a \<open>string\<close> (a list of 8-bit characters); a \<open>&str\<close> is a \<open>string\<close> that holds valid
  UTF-8 (\<open>utf8_valid\<close>), so \<open>len\<close>, \<open>as_bytes\<close> and slicing are the list operations on its
  bytes, and the operations that read whole characters go through \<open>utf8_chunks\<close>.
\<close>

section \<open>Bytes\<close>

abbreviation u8 :: "char \<Rightarrow> nat" where
  "u8 c \<equiv> of_char c"

abbreviation nl :: char where "nl \<equiv> CHR 0x0A"
abbreviation cr :: char where "cr \<equiv> CHR 0x0D"
abbreviation bslash :: char where "bslash \<equiv> CHR 0x5C"
abbreviation dquote :: char where "dquote \<equiv> CHR 0x22"

definition is_ascii :: "char \<Rightarrow> bool" where
  [byte_simps]: "is_ascii c \<longleftrightarrow> u8 c < 128"

definition is_ascii_digit :: "char \<Rightarrow> bool" where
  [byte_simps]: "is_ascii_digit c \<longleftrightarrow> 48 \<le> u8 c \<and> u8 c \<le> 57"

definition is_ascii_uppercase :: "char \<Rightarrow> bool" where
  [byte_simps]: "is_ascii_uppercase c \<longleftrightarrow> 65 \<le> u8 c \<and> u8 c \<le> 90"

definition is_ascii_lowercase :: "char \<Rightarrow> bool" where
  [byte_simps]: "is_ascii_lowercase c \<longleftrightarrow> 97 \<le> u8 c \<and> u8 c \<le> 122"

definition is_ascii_alphanumeric :: "char \<Rightarrow> bool" where
  [byte_simps]: "is_ascii_alphanumeric c \<longleftrightarrow>
     is_ascii_digit c \<or> is_ascii_uppercase c \<or> is_ascii_lowercase c"

definition is_ascii_hexdigit :: "char \<Rightarrow> bool" where
  [byte_simps]: "is_ascii_hexdigit c \<longleftrightarrow>
     is_ascii_digit c \<or> (65 \<le> u8 c \<and> u8 c \<le> 70) \<or> (97 \<le> u8 c \<and> u8 c \<le> 102)"

definition is_ascii_whitespace :: "char \<Rightarrow> bool" where
  [byte_simps]: "is_ascii_whitespace c \<longleftrightarrow> u8 c \<in> {9, 10, 12, 13, 32}"

text \<open>\<open>u8::to_ascii_lowercase\<close> sets bit 5 of an upper-case letter; the upper-case form clears it.\<close>

fun set_bit5 :: "bool \<Rightarrow> char \<Rightarrow> char" where
  "set_bit5 b (Char b0 b1 b2 b3 b4 b5 b6 b7) = Char b0 b1 b2 b3 b4 b b6 b7"

definition byte_lower :: "char \<Rightarrow> char" where
  [byte_simps]: "byte_lower c = (if is_ascii_uppercase c then set_bit5 True c else c)"

definition byte_upper :: "char \<Rightarrow> char" where
  [byte_simps]: "byte_upper c = (if is_ascii_lowercase c then set_bit5 False c else c)"

definition to_ascii_lowercase :: "string \<Rightarrow> string" where
  "to_ascii_lowercase s = map byte_lower s"

definition to_ascii_uppercase :: "string \<Rightarrow> string" where
  "to_ascii_uppercase s = map byte_upper s"

definition eq_ignore_ascii_case :: "string \<Rightarrow> string \<Rightarrow> bool" where
  "eq_ignore_ascii_case s t \<longleftrightarrow> to_ascii_lowercase s = to_ascii_lowercase t"

lemma u8_bound: "u8 c < 256"
  by simp

lemma byte_lower_not_upper [simp]: "\<not> is_ascii_uppercase (byte_lower c)"
proof (cases c)
  case (Char b0 b1 b2 b3 b4 b5 b6 b7)
  then show ?thesis by (auto simp: byte_simps of_char_def)
qed

lemma byte_lower_idem [simp]: "byte_lower (byte_lower c) = byte_lower c"
  by (simp add: byte_lower_def [of "byte_lower c"])

lemma to_ascii_lowercase_idem [simp]:
  "to_ascii_lowercase (to_ascii_lowercase s) = to_ascii_lowercase s"
  by (simp add: to_ascii_lowercase_def)

lemma eq_ignore_ascii_case_refl [simp]: "eq_ignore_ascii_case s s"
  by (simp add: eq_ignore_ascii_case_def)

lemma eq_ignore_ascii_case_sym: "eq_ignore_ascii_case s t \<longleftrightarrow> eq_ignore_ascii_case t s"
  by (auto simp: eq_ignore_ascii_case_def)

lemma eq_ignore_ascii_case_trans:
  "eq_ignore_ascii_case s t \<Longrightarrow> eq_ignore_ascii_case t r \<Longrightarrow> eq_ignore_ascii_case s r"
  by (simp add: eq_ignore_ascii_case_def)

lemma eq_ignore_lowercase [simp]:
  "eq_ignore_ascii_case (to_ascii_lowercase s) t \<longleftrightarrow> eq_ignore_ascii_case s t"
  by (simp add: eq_ignore_ascii_case_def)

section \<open>UTF-8\<close>

definition is_cont :: "char \<Rightarrow> bool" where
  [byte_simps]: "is_cont c \<longleftrightarrow> 128 \<le> u8 c \<and> u8 c < 192"

definition second_of_3 :: "nat \<Rightarrow> char \<Rightarrow> bool" where
  "second_of_3 n b \<longleftrightarrow>
     (if n = 0xE0 then 0xA0 \<le> u8 b \<and> u8 b \<le> 0xBF
      else if n = 0xED then 0x80 \<le> u8 b \<and> u8 b \<le> 0x9F else is_cont b)"

definition second_of_4 :: "nat \<Rightarrow> char \<Rightarrow> bool" where
  "second_of_4 n b \<longleftrightarrow>
     (if n = 0xF0 then 0x90 \<le> u8 b \<and> u8 b \<le> 0xBF
      else if n = 0xF4 then 0x80 \<le> u8 b \<and> u8 b \<le> 0x8F else is_cont b)"

text \<open>
  \<open>utf8_next s\<close> reads the first chunk of \<open>s\<close> as the standard library's decoder does: whether it
  is a well-formed character, and its length; an ill-formed chunk is the longest prefix of a
  character that can start there, at least one byte.
\<close>

fun utf8_next :: "string \<Rightarrow> bool \<times> nat" where
  "utf8_next [] = (True, 0)"
| "utf8_next (a # s) =
     (if u8 a < 0x80 then (True, 1)
      else if 0xC2 \<le> u8 a \<and> u8 a \<le> 0xDF then
        (case s of b # _ \<Rightarrow> if is_cont b then (True, 2) else (False, 1) | [] \<Rightarrow> (False, 1))
      else if 0xE0 \<le> u8 a \<and> u8 a \<le> 0xEF then
        (case s of
           b # c # _ \<Rightarrow> if second_of_3 (u8 a) b then
                          (if is_cont c then (True, 3) else (False, 2)) else (False, 1)
         | [b] \<Rightarrow> (False, if second_of_3 (u8 a) b then 2 else 1)
         | [] \<Rightarrow> (False, 1))
      else if 0xF0 \<le> u8 a \<and> u8 a \<le> 0xF4 then
        (case s of
           b # c # d # _ \<Rightarrow> if second_of_4 (u8 a) b then
                              (if is_cont c then (if is_cont d then (True, 4) else (False, 3))
                               else (False, 2)) else (False, 1)
         | [b, c] \<Rightarrow> (False, if second_of_4 (u8 a) b then (if is_cont c then 3 else 2) else 1)
         | [b] \<Rightarrow> (False, if second_of_4 (u8 a) b then 2 else 1)
         | [] \<Rightarrow> (False, 1))
      else (False, 1))"

lemma utf8_next_pos: "s \<noteq> [] \<Longrightarrow> 0 < snd (utf8_next s)"
  by (cases s) (auto split: list.splits)

lemma utf8_next_le: "snd (utf8_next s) \<le> length s"
  by (cases s) (auto split: list.splits)

function utf8_chunks :: "string \<Rightarrow> (bool \<times> string) list" where
  "utf8_chunks s =
     (if s = [] then []
      else (fst (utf8_next s), take (snd (utf8_next s)) s) # utf8_chunks (drop (snd (utf8_next s)) s))"
  by pat_completeness auto
termination
  by (relation "measure length") (use utf8_next_pos in auto)

declare utf8_chunks.simps [simp del]

lemma utf8_chunks_Nil [simp]: "utf8_chunks [] = []"
  by (subst utf8_chunks.simps) simp

definition utf8_valid :: "string \<Rightarrow> bool" where
  "utf8_valid s \<longleftrightarrow> list_all fst (utf8_chunks s)"

definition chars :: "string \<Rightarrow> string list" where
  "chars s = map snd (utf8_chunks s)"

definition replacement :: string where
  "replacement = [CHR 0xEF, CHR 0xBF, CHR 0xBD]"

definition from_utf8_lossy :: "string \<Rightarrow> string" where
  "from_utf8_lossy s = concat (map (\<lambda>(ok, c). if ok then c else replacement) (utf8_chunks s))"

lemma concat_chars [simp]: "concat (chars s) = s"
proof (induction s rule: utf8_chunks.induct)
  case (1 s)
  then show ?case
    by (cases "s = []") (simp_all add: chars_def utf8_chunks.simps [of s])
qed

lemma from_utf8_lossy_valid [simp]: "utf8_valid s \<Longrightarrow> from_utf8_lossy s = s"
proof -
  assume "utf8_valid s"
  then have "map (\<lambda>(ok, c). if ok then c else replacement) (utf8_chunks s) = chars s"
    by (auto simp: utf8_valid_def chars_def list_all_iff split_def)
  then show ?thesis by (simp add: from_utf8_lossy_def)
qed

text \<open>A well-formed first chunk is read the same way whatever follows it.\<close>

lemma list_cases3:
  obtains "xs = []" | x where "xs = [x]" | x y where "xs = [x, y]"
  | x y z r where "xs = x # y # z # r"
  by (metis list.exhaust)

lemma utf8_next_append: "fst (utf8_next s) \<Longrightarrow> s \<noteq> [] \<Longrightarrow> utf8_next (s @ t) = utf8_next s"
  by (cases s; cases "tl s" rule: list_cases3) (auto split: if_splits)

lemma utf8_valid_Nil [simp]: "utf8_valid []"
  by (simp add: utf8_valid_def)

lemma utf8_valid_step:
  "s \<noteq> [] \<Longrightarrow> utf8_valid s \<longleftrightarrow> fst (utf8_next s) \<and> utf8_valid (drop (snd (utf8_next s)) s)"
  by (simp add: utf8_valid_def utf8_chunks.simps [of s])

lemma utf8_chunks_append: "utf8_valid s \<Longrightarrow> utf8_chunks (s @ t) = utf8_chunks s @ utf8_chunks t"
proof (induction s rule: utf8_chunks.induct)
  case (1 s)
  show ?case
  proof (cases "s = []")
    case False
    with "1.prems" have ok: "fst (utf8_next s)" and v: "utf8_valid (drop (snd (utf8_next s)) s)"
      by (simp_all add: utf8_valid_step)
    from utf8_next_append [OF ok False] have n: "utf8_next (s @ t) = utf8_next s" .
    show ?thesis
      using False "1.IH" [OF False v] utf8_next_le [of s]
      by (simp add: utf8_chunks.simps [of "s @ t"] utf8_chunks.simps [of s] n)
  qed simp
qed

lemma utf8_valid_append: "utf8_valid s \<Longrightarrow> utf8_valid t \<Longrightarrow> utf8_valid (s @ t)"
  by (simp add: utf8_valid_def utf8_chunks_append [unfolded utf8_valid_def])

lemma utf8_chunks_ascii_Cons [simp]:
  "is_ascii c \<Longrightarrow> utf8_chunks (c # s) = (True, [c]) # utf8_chunks s"
  by (subst utf8_chunks.simps) (simp add: is_ascii_def)

lemma utf8_valid_ascii_Cons [simp]: "is_ascii c \<Longrightarrow> utf8_valid (c # s) \<longleftrightarrow> utf8_valid s"
  by (simp add: utf8_valid_def)

lemma utf8_valid_ascii: "list_all is_ascii s \<Longrightarrow> utf8_valid s"
  by (induction s) auto

text \<open>Cutting a well-formed string before an ASCII byte leaves two well-formed strings.\<close>

lemma utf8_next_stops_at_ascii:
  assumes "fst (utf8_next (a @ c # b))" and "is_ascii c" and "a \<noteq> []"
  shows "snd (utf8_next (a @ c # b)) \<le> length a"
  using assms
  by (cases a; cases "tl a" rule: list_cases3)
    (auto split: if_splits list.splits simp: byte_simps second_of_3_def second_of_4_def)

lemma utf8_next_prefix:
  assumes "fst (utf8_next (a @ t))" and "snd (utf8_next (a @ t)) \<le> length a" and "a \<noteq> []"
  shows "utf8_next a = utf8_next (a @ t)"
  using assms
  by (cases a; cases "tl a" rule: list_cases3) (auto split: if_splits list.splits)

lemma utf8_valid_cut:
  "is_ascii c \<Longrightarrow> utf8_valid (a @ c # b) \<Longrightarrow> utf8_valid a \<and> utf8_valid (c # b)"
proof (induction a rule: utf8_chunks.induct)
  case (1 a)
  show ?case
  proof (cases "a = []")
    case False
    let ?n = "snd (utf8_next (a @ c # b))"
    from "1.prems"(2) have ok: "fst (utf8_next (a @ c # b))"
      and v: "utf8_valid (drop ?n (a @ c # b))"
      by (simp_all add: utf8_valid_step)
    have le: "?n \<le> length a"
      by (rule utf8_next_stops_at_ascii [OF ok "1.prems"(1) False])
    have same: "utf8_next a = utf8_next (a @ c # b)"
      using utf8_next_prefix [OF ok le False] .
    from v le have "utf8_valid (drop ?n a @ c # b)" by simp
    with "1.IH" [OF False, unfolded same] "1.prems"(1)
    have "utf8_valid (drop ?n a) \<and> utf8_valid (c # b)" by simp
    with ok same False show ?thesis by (simp add: utf8_valid_step)
  qed (use "1.prems" in simp)
qed

lemma utf8_valid_cutD:
  assumes "utf8_valid (a @ p @ b)" and "list_all is_ascii p" and "p \<noteq> []"
  shows "utf8_valid a" and "utf8_valid b"
proof -
  obtain c p' where p: "p = c # p'" using assms(3) by (cases p) auto
  with assms have "utf8_valid a \<and> utf8_valid (p @ b)"
    using utf8_valid_cut [of c a "p' @ b"] by simp
  moreover have "list_all is_ascii q \<Longrightarrow> utf8_valid (q @ b) \<Longrightarrow> utf8_valid b" for q
    by (induction q) auto
  ultimately show "utf8_valid a" and "utf8_valid b" using assms(2) by blast+
qed

text \<open>Removing an ASCII character keeps the text well formed.\<close>

lemma utf8_valid_remove_ascii:
  "is_ascii c \<Longrightarrow> utf8_valid s \<Longrightarrow> utf8_valid (filter (\<lambda>x. x \<noteq> c) s)"
proof (induction "length s" arbitrary: s rule: less_induct)
  case less
  show ?case
  proof (cases "c \<in> set s")
    case True
    then obtain a b where s: "s = a @ c # b" "c \<notin> set a" by (metis split_list_first)
    with less.prems utf8_valid_cut [of c a b] have "utf8_valid a" "utf8_valid b" by simp_all
    moreover have "filter (\<lambda>x. x \<noteq> c) s = a @ filter (\<lambda>x. x \<noteq> c) b"
      using s by (simp add: filter_id_conv) (metis filter_True)
    ultimately show ?thesis using less.hyps [of b] less.prems(1) s(1) by (simp add: utf8_valid_append)
  next
    case False
    then have "filter (\<lambda>x. x \<noteq> c) s = s" by (intro filter_True) auto
    with less.prems show ?thesis by simp
  qed
qed

text \<open>\<open>str::is_char_boundary\<close>.\<close>

definition is_char_boundary :: "string \<Rightarrow> nat \<Rightarrow> bool" where
  "is_char_boundary s i \<longleftrightarrow>
     i = 0 \<or> i = length s \<or> (i < length s \<and> \<not> is_cont (s ! i))"

text \<open>The number of bytes of a character, read off its first byte.\<close>

definition utf8_width :: "char \<Rightarrow> nat" where
  "utf8_width c =
     (if u8 c < 0x80 then 1 else if u8 c < 0xE0 then 2 else if u8 c < 0xF0 then 3 else 4)"

lemma utf8_next_width: "fst (utf8_next (a # s)) \<Longrightarrow> snd (utf8_next (a # s)) = utf8_width a"
  by (auto simp: utf8_width_def split: list.splits if_splits)

text \<open>\<open>b as char\<close> pushed onto a \<open>String\<close>: the code point \<open>b\<close>, encoded in UTF-8.\<close>

definition byte_as_char :: "char \<Rightarrow> string" where
  "byte_as_char b =
     (if u8 b < 0x80 then [b] else [char_of (0xC0 + u8 b div 64), char_of (0x80 + u8 b mod 64)])"

lemma byte_as_char_ascii [simp]: "is_ascii b \<Longrightarrow> byte_as_char b = [b]"
  by (simp add: byte_as_char_def is_ascii_def)

section \<open>Splitting and trimming\<close>

fun split_by :: "('a \<Rightarrow> bool) \<Rightarrow> 'a list \<Rightarrow> 'a list list" where
  "split_by P [] = [[]]"
| "split_by P (x # xs) =
     (if P x then [] # split_by P xs
      else (case split_by P xs of [] \<Rightarrow> [[x]] | y # ys \<Rightarrow> (x # y) # ys))"

text \<open>\<open>s.split(c)\<close> for one character, and \<open>s.split_once(c)\<close>.\<close>

definition split_char :: "char \<Rightarrow> string \<Rightarrow> string list" where
  "split_char c s = split_by (\<lambda>x. x = c) s"

definition split_once :: "char \<Rightarrow> string \<Rightarrow> (string \<times> string) option" where
  "split_once c s =
     (case dropWhile (\<lambda>x. x \<noteq> c) s of
        [] \<Rightarrow> None
      | _ # r \<Rightarrow> Some (takeWhile (\<lambda>x. x \<noteq> c) s, r))"

text \<open>\<open>s.split(p)\<close> for a non-empty string pattern.\<close>

function split_str :: "string \<Rightarrow> string \<Rightarrow> string list" where
  "split_str p s =
     (case find_sub p s of
        None \<Rightarrow> [s]
      | Some i \<Rightarrow> if p = [] then [s] else take i s # split_str p (drop (i + length p) s))"
  by pat_completeness auto
termination
proof (relation "measure (\<lambda>(p, s). length s)")
  fix p s :: string and i
  assume "find_sub p s = Some i" and "p \<noteq> []"
  from find_sub_Some [OF this(1)] this(2)
  show "((p, drop (i + length p) s), p, s) \<in> measure (\<lambda>(p, s). length s)"
    by (cases s) auto
qed simp

declare split_str.simps [simp del]

text \<open>\<open>str::lines\<close>: a line ends at \<open>\n\<close> or \<open>\r\n\<close>; the last line needs no terminator.\<close>

definition strip_cr :: "string \<Rightarrow> string" where
  "strip_cr l = (if l \<noteq> [] \<and> last l = cr then butlast l else l)"

fun str_lines :: "string \<Rightarrow> string list" where
  "str_lines s =
     (if s = [] then []
      else case dropWhile (\<lambda>x. x \<noteq> nl) s of
             [] \<Rightarrow> [s]
           | _ # r \<Rightarrow> strip_cr (takeWhile (\<lambda>x. x \<noteq> nl) s) #
                        (if length r < length s then str_lines r else []))"

declare str_lines.simps [simp del]

text \<open>The characters with the Unicode property White_Space, encoded in UTF-8.\<close>

definition is_whitespace :: "string \<Rightarrow> bool" where
  "is_whitespace c \<longleftrightarrow>
     (case map u8 c of
        [a] \<Rightarrow> (9 \<le> a \<and> a \<le> 13) \<or> a = 32
      | [a, b] \<Rightarrow> a = 0xC2 \<and> (b = 0x85 \<or> b = 0xA0)
      | [a, b, d] \<Rightarrow>
          (a = 0xE1 \<and> b = 0x9A \<and> d = 0x80)
          \<or> (a = 0xE2 \<and> b = 0x80 \<and> (d \<le> 0x8A \<or> d = 0xA8 \<or> d = 0xA9 \<or> d = 0xAF))
          \<or> (a = 0xE2 \<and> b = 0x81 \<and> d = 0x9F)
          \<or> (a = 0xE3 \<and> b = 0x80 \<and> d = 0x80)
      | _ \<Rightarrow> False)"

definition trim :: "string \<Rightarrow> string" where
  "trim s = concat (rev (dropWhile is_whitespace (rev (dropWhile is_whitespace (chars s)))))"

definition split_whitespace :: "string \<Rightarrow> string list" where
  "split_whitespace s = filter (\<lambda>w. w \<noteq> []) (map concat (split_by is_whitespace (chars s)))"

function trim_start_matches :: "string \<Rightarrow> string \<Rightarrow> string" where
  "trim_start_matches p s =
     (if p \<noteq> [] \<and> prefix p s then trim_start_matches p (drop (length p) s) else s)"
  by pat_completeness auto
termination
  by (relation "measure (\<lambda>(p, s). length s)") (auto simp: prefix_def)

declare trim_start_matches.simps [simp del]

definition strip_prefix :: "string \<Rightarrow> string \<Rightarrow> string option" where
  "strip_prefix p s = (if prefix p s then Some (drop (length p) s) else None)"

text \<open>\<open>s.replace(p, t)\<close>: every occurrence of \<open>p\<close>, left to right, without overlap.\<close>

definition str_replace :: "string \<Rightarrow> string \<Rightarrow> string \<Rightarrow> string" where
  "str_replace p t s =
     (case split_str p s of [] \<Rightarrow> [] | x # xs \<Rightarrow> x @ concat (map (\<lambda>y. t @ y) xs))"

lemma split_by_not_Nil [simp]: "split_by P s \<noteq> []"
  by (cases s) (auto split: list.splits)

lemma hd_split_by [simp]: "hd (split_by P s) = takeWhile (\<lambda>x. \<not> P x) s"
  by (induction s) (auto split: list.splits)

lemma split_by_none: "(\<And>x. x \<in> set s \<Longrightarrow> \<not> P x) \<Longrightarrow> split_by P s = [s]"
  by (induction s) auto

lemma split_by_append:
  "(\<And>x. x \<in> set s \<Longrightarrow> \<not> P x) \<Longrightarrow> P y \<Longrightarrow> split_by P (s @ y # t) = s # split_by P t"
  by (induction s) auto

lemma split_once_None [simp]: "split_once c s = None \<longleftrightarrow> c \<notin> set s"
proof -
  have "c \<notin> set s \<longleftrightarrow> dropWhile (\<lambda>x. x \<noteq> c) s = []"
    by (auto simp: dropWhile_eq_Nil_conv)
  then show ?thesis
    by (simp add: split_once_def del: dropWhile_eq_Nil_conv split: list.splits)
qed

lemma split_once_append: "c \<notin> set k \<Longrightarrow> split_once c (k @ c # v) = Some (k, v)"
proof -
  assume "c \<notin> set k"
  then have "takeWhile (\<lambda>x. x \<noteq> c) (k @ c # v) = k" and "dropWhile (\<lambda>x. x \<noteq> c) (k @ c # v) = c # v"
    by (auto intro: takeWhile_stop dropWhile_stop)
  then show ?thesis by (simp add: split_once_def)
qed

lemma split_once_Some: "split_once c s = Some (k, v) \<longleftrightarrow> s = k @ c # v \<and> c \<notin> set k"
proof
  assume a: "split_once c s = Some (k, v)"
  then have "c \<in> set s" by (metis option.distinct(1) split_once_None)
  then obtain k' v' where s: "s = k' @ c # v'" "c \<notin> set k'" by (meson split_list_first)
  with split_once_append [OF s(2), of v'] a show "s = k @ c # v \<and> c \<notin> set k" by simp
qed (auto simp: split_once_append)

lemma str_lines_Nil [simp]: "str_lines [] = []"
  by (simp add: str_lines.simps)

lemma str_lines_crlf:
  assumes "nl \<notin> set l"
  shows "str_lines (l @ cr # nl # r) = l # str_lines r"
proof -
  have "takeWhile (\<lambda>x. x \<noteq> nl) ((l @ [cr]) @ nl # r) = l @ [cr]"
    and "dropWhile (\<lambda>x. x \<noteq> nl) ((l @ [cr]) @ nl # r) = nl # r"
    using assms by (intro takeWhile_stop dropWhile_stop; auto)+
  then show ?thesis
    by (subst str_lines.simps) (simp add: strip_cr_def)
qed

lemma chars_ascii: "list_all is_ascii s \<Longrightarrow> chars s = map (\<lambda>c. [c]) s"
  by (induction s) (auto simp: chars_def)

lemma is_whitespace_ascii [simp]:
  "is_whitespace [c] \<longleftrightarrow> (9 \<le> u8 c \<and> u8 c \<le> 13) \<or> u8 c = 32"
  by (simp add: is_whitespace_def)

lemma strip_prefix_Some [simp]: "strip_prefix p s = Some r \<longleftrightarrow> s = p @ r"
  by (auto simp: strip_prefix_def prefix_def)

lemma strip_prefix_None [simp]: "strip_prefix p s = None \<longleftrightarrow> \<not> prefix p s"
  by (simp add: strip_prefix_def)

section \<open>Numbers in text\<close>

definition digit_val :: "char \<Rightarrow> nat option" where
  "digit_val c =
     (if is_ascii_digit c then Some (u8 c - 48)
      else if is_ascii_uppercase c then Some (u8 c - 55)
      else if is_ascii_lowercase c then Some (u8 c - 87) else None)"

fun digits_val :: "nat \<Rightarrow> nat \<Rightarrow> string \<Rightarrow> nat option" where
  "digits_val radix acc [] = Some acc"
| "digits_val radix acc (c # cs) =
     (case digit_val c of
        Some d \<Rightarrow> if d < radix then digits_val radix (acc * radix + d) cs else None
      | None \<Rightarrow> None)"

text \<open>
  \<open>from_str_radix\<close> of an unsigned type with \<open>bound\<close> values: an empty string, a lone sign, a
  character that is no digit and a value out of range are errors; one leading \<open>+\<close> is accepted.
\<close>

definition from_str_radix :: "nat \<Rightarrow> nat \<Rightarrow> string \<Rightarrow> nat option" where
  "from_str_radix radix bound s =
     (let ds = (case s of c # cs \<Rightarrow> if c = CHR ''+'' \<and> cs \<noteq> [] then cs else s | [] \<Rightarrow> s) in
      if ds = [] then None
      else case digits_val radix 0 ds of
             Some n \<Rightarrow> if n < bound then Some n else None
           | None \<Rightarrow> None)"

definition parse_usize :: "string \<Rightarrow> nat option" where
  "parse_usize s = from_str_radix 10 (2 ^ 64) s"

lemma from_str_radix_bound: "from_str_radix radix bound s = Some n \<Longrightarrow> n < bound"
  by (auto simp: from_str_radix_def Let_def split: option.splits if_splits)

definition hex_digit :: "nat \<Rightarrow> char" where
  "hex_digit n = (if n < 10 then char_of (48 + n) else char_of (87 + n))"

text \<open>\<open>{b:02x}\<close> of a byte and \<open>{n:x}\<close> of an unsigned integer.\<close>

definition fmt_02x :: "char \<Rightarrow> string" where
  "fmt_02x b = [hex_digit (u8 b div 16), hex_digit (u8 b mod 16)]"

fun fmt_radix :: "nat \<Rightarrow> nat \<Rightarrow> string" where
  "fmt_radix radix n =
     (if n < radix \<or> radix < 2 then [hex_digit n] else fmt_radix radix (n div radix) @ [hex_digit (n mod radix)])"

declare fmt_radix.simps [simp del]

definition fmt_dec :: "nat \<Rightarrow> string" where
  "fmt_dec n = fmt_radix 10 n"

definition fmt_x :: "nat \<Rightarrow> string" where
  "fmt_x n = fmt_radix 16 n"

lemma u8_hex_digit: "n < 36 \<Longrightarrow> u8 (hex_digit n) = (if n < 10 then 48 + n else 87 + n)"
  by (simp add: hex_digit_def)

lemma digit_val_hex_digit: "n < 16 \<Longrightarrow> digit_val (hex_digit n) = Some n"
  by (auto simp: digit_val_def byte_simps u8_hex_digit)

lemma is_ascii_hexdigit_hex_digit: "n < 16 \<Longrightarrow> is_ascii_hexdigit (hex_digit n)"
  by (auto simp: byte_simps u8_hex_digit)

lemma hex_digit_inj: "m < 16 \<Longrightarrow> n < 16 \<Longrightarrow> hex_digit m = hex_digit n \<longleftrightarrow> m = n"
  by (metis digit_val_hex_digit option.inject)

lemma digits_val_append:
  "digits_val r a (xs @ ys) =
     (case digits_val r a xs of None \<Rightarrow> None | Some b \<Rightarrow> digits_val r b ys)"
  by (induction r a xs rule: digits_val.induct) (auto split: option.splits)

lemma digits_val_fmt_radix:
  "2 \<le> radix \<Longrightarrow> radix \<le> 16 \<Longrightarrow> digits_val radix 0 (fmt_radix radix n) = Some n"
proof (induction radix n rule: fmt_radix.induct)
  case (1 radix n)
  show ?case
  proof (cases "n < radix")
    case True
    with "1.prems" show ?thesis
      by (simp add: fmt_radix.simps [of radix n] digit_val_hex_digit)
  next
    case False
    have m: "n mod radix < radix" using "1.prems" by simp
    then have "digit_val (hex_digit (n mod radix)) = Some (n mod radix)"
      using "1.prems" by (intro digit_val_hex_digit) linarith
    with False m show ?thesis
      using "1.IH" "1.prems" by (simp add: fmt_radix.simps [of radix n] digits_val_append)
  qed
qed

lemma fmt_radix_digits:
  "2 \<le> radix \<Longrightarrow> radix \<le> 16 \<Longrightarrow> c \<in> set (fmt_radix radix n) \<Longrightarrow> \<exists>d < radix. c = hex_digit d"
proof (induction radix n rule: fmt_radix.induct)
  case (1 radix n)
  have m: "n mod radix < radix" using "1.prems" by simp
  show ?case
  proof (cases "n < radix \<or> c = hex_digit (n mod radix)")
    case True
    then show ?thesis
    proof (cases "n < radix")
      case True
      with "1.prems" show ?thesis by (auto simp: fmt_radix.simps [of radix n])
    qed (use m in blast)
  next
    case False
    with "1.prems" have "c \<in> set (fmt_radix radix (n div radix))"
      by (simp add: fmt_radix.simps [of radix n])
    with False "1.IH" "1.prems" show ?thesis by simp
  qed
qed

lemma fmt_radix_not_Nil [simp]: "fmt_radix radix n \<noteq> []"
  by (simp add: fmt_radix.simps [of radix n])

lemma from_str_radix_fmt:
  assumes "2 \<le> radix" "radix \<le> 16" "n < bound"
  shows "from_str_radix radix bound (fmt_radix radix n) = Some n"
proof -
  have "CHR ''+'' \<notin> set (fmt_radix radix n)"
  proof
    assume "CHR ''+'' \<in> set (fmt_radix radix n)"
    with fmt_radix_digits [OF assms(1,2)] assms(2) obtain d where "d < 16" "CHR ''+'' = hex_digit d"
      by (meson less_le_trans)
    then have "u8 (hex_digit d) = u8 (CHR ''+'')" by simp
    with \<open>d < 16\<close> show False by (auto simp: u8_hex_digit split: if_splits)
  qed
  then have "(case fmt_radix radix n of c # cs \<Rightarrow>
      if c = CHR ''+'' \<and> cs \<noteq> [] then cs else fmt_radix radix n | [] \<Rightarrow> fmt_radix radix n)
      = fmt_radix radix n"
    by (auto split: list.splits)
  then show ?thesis
    using assms by (simp add: from_str_radix_def digits_val_fmt_radix)
qed

lemma fmt_02x_parse: "from_str_radix 16 256 (fmt_02x b) = Some (u8 b)"
proof -
  have "u8 b div 16 < 16" using u8_bound [of b] by (intro less_mult_imp_div_less) simp
  moreover have "hex_digit (u8 b div 16) \<noteq> CHR ''+''"
  proof
    assume "hex_digit (u8 b div 16) = CHR ''+''"
    then have "u8 (hex_digit (u8 b div 16)) = 43" by simp
    with \<open>u8 b div 16 < 16\<close> show False by (auto simp: u8_hex_digit split: if_splits)
  qed
  ultimately show ?thesis
    using u8_bound [of b] by (simp add: from_str_radix_def fmt_02x_def digit_val_hex_digit Let_def)
qed

end
