(* ===== verification/Json.thy ===== *)
theory Json
  imports Rust_Str "HOL-Library.Char_ord" "HOL-Library.List_Lexorder"
begin

text \<open>
  The values of \<open>serde_json::Value\<close> and the accessors the program calls on them. An object is
  a \<open>BTreeMap<String, Value>\<close>, so it is an association list kept sorted by key (the byte order
  of strings). Reading and writing JSON text is code of the crate and stays a parameter of the
  definitions that use it.
\<close>

datatype number = PosInt nat | NegInt int | Float "64 word"

datatype json =
    JNull
  | JBool bool
  | JNumber number
  | JString string
  | JArray "json list"
  | JObject "(string \<times> json) list"

fun obj_insert :: "string \<Rightarrow> json \<Rightarrow> (string \<times> json) list \<Rightarrow> (string \<times> json) list" where
  "obj_insert k v [] = [(k, v)]"
| "obj_insert k v ((k', v') # m) =
     (if k = k' then (k, v) # m
      else if k < k' then (k, v) # (k', v') # m
      else (k', v') # obj_insert k v m)"

text \<open>A \<open>json!({...})\<close> literal inserts its entries one after the other.\<close>

definition jobj :: "(string \<times> json) list \<Rightarrow> json" where
  "jobj kvs = JObject (fold (\<lambda>(k, v). obj_insert k v) kvs [])"

fun json_get :: "string \<Rightarrow> json \<Rightarrow> json option" where
  "json_get k (JObject m) = map_of m k"
| "json_get k _ = None"

fun as_str :: "json \<Rightarrow> string option" where
  "as_str (JString s) = Some s"
| "as_str _ = None"

fun as_bool :: "json \<Rightarrow> bool option" where
  "as_bool (JBool b) = Some b"
| "as_bool _ = None"

fun as_array :: "json \<Rightarrow> json list option" where
  "as_array (JArray xs) = Some xs"
| "as_array _ = None"

fun as_object :: "json \<Rightarrow> (string \<times> json) list option" where
  "as_object (JObject m) = Some m"
| "as_object _ = None"

fun as_i64 :: "json \<Rightarrow> int option" where
  "as_i64 (JNumber (PosInt n)) = (if n < 2 ^ 63 then Some (int n) else None)"
| "as_i64 (JNumber (NegInt n)) = Some n"
| "as_i64 _ = None"

definition get_str :: "string \<Rightarrow> json \<Rightarrow> string option" where
  [json_simps]: "get_str k v = Option.bind (json_get k v) as_str"

definition get_bool :: "string \<Rightarrow> json \<Rightarrow> bool option" where
  [json_simps]: "get_bool k v = Option.bind (json_get k v) as_bool"

definition get_array :: "string \<Rightarrow> json \<Rightarrow> json list option" where
  [json_simps]: "get_array k v = Option.bind (json_get k v) as_array"

text \<open>
  \<open>v[key] = x\<close>: indexing for assignment turns \<open>null\<close> into an object, and panics on a value
  that is neither \<open>null\<close> nor an object.
\<close>

fun index_set :: "string \<Rightarrow> json \<Rightarrow> json \<Rightarrow> json outcome" where
  "index_set k x (JObject m) = Done (JObject (obj_insert k x m))"
| "index_set k x JNull = Done (JObject [(k, x)])"
| "index_set k x _ = Panic"

definition opt_json :: "string option \<Rightarrow> json" where
  "opt_json o' = (case o' of None \<Rightarrow> JNull | Some s \<Rightarrow> JString s)"

section \<open>Facts\<close>

definition obj_sorted :: "(string \<times> json) list \<Rightarrow> bool" where
  "obj_sorted m \<longleftrightarrow> sorted_wrt (<) (map fst m)"

lemma keys_obj_insert [simp]: "fst ` set (obj_insert k v m) = insert k (fst ` set m)"
  by (induction k v m rule: obj_insert.induct) auto

lemma obj_sorted_insert: "obj_sorted m \<Longrightarrow> obj_sorted (obj_insert k v m)"
proof (induction k v m rule: obj_insert.induct)
  case (2 k v k' v' m)
  then show ?case
    by (cases "k = k'"; cases "k < k'") (auto simp: obj_sorted_def)
qed (simp add: obj_sorted_def)

lemma map_of_obj_insert:
  "map_of (obj_insert k v m) j = (if j = k then Some v else map_of m j)"
  by (induction m) auto

lemma json_get_insert [simp]:
  "json_get j (JObject (obj_insert k v m)) = (if j = k then Some v else json_get j (JObject m))"
  by (simp add: map_of_obj_insert)

lemma map_of_fold_insert:
  "map_of (fold (\<lambda>(k, v). obj_insert k v) kvs m) j =
     (case map_of (rev kvs) j of Some v \<Rightarrow> Some v | None \<Rightarrow> map_of m j)"
  by (induction kvs arbitrary: m)
    (auto simp: map_of_obj_insert map_add_def split: option.splits)

lemma json_get_jobj: "json_get j (jobj kvs) = map_of (rev kvs) j"
  by (simp add: jobj_def map_of_fold_insert split: option.splits)

lemma json_get_jobj_Cons [simp]:
  "json_get j (jobj (kv # kvs)) =
     (case json_get j (jobj kvs) of Some v \<Rightarrow> Some v | None \<Rightarrow> if j = fst kv then Some (snd kv) else None)"
  by (cases kv) (auto simp: json_get_jobj map_add_def split: option.splits)

lemma json_get_jobj_Nil [simp]: "json_get j (jobj []) = None"
  by (simp add: json_get_jobj)

lemma jobj_sorted: "jobj kvs = JObject m \<Longrightarrow> obj_sorted m"
proof -
  have "obj_sorted m' \<Longrightarrow> obj_sorted (fold (\<lambda>(k, v). obj_insert k v) kvs m')" for m'
    by (induction kvs arbitrary: m') (auto simp: obj_sorted_insert)
  then show "jobj kvs = JObject m \<Longrightarrow> obj_sorted m"
    by (auto simp: jobj_def) (metis obj_sorted_def list.simps(8) sorted_wrt.simps(1))
qed

lemma index_set_get: "index_set k x v = Done w \<Longrightarrow> json_get k w = Some x"
  by (cases v) (auto simp del: json_get.simps, simp_all)

lemma index_set_other:
  "index_set k x (JObject m) = Done w \<Longrightarrow> j \<noteq> k \<Longrightarrow> json_get j w = map_of m j"
  by (auto simp: map_of_obj_insert)

end
