(* ===== verification/Sql_Parser.thy ===== *)
theory Sql_Parser
  imports Json
begin

text \<open>
  \<open>src/sql_parser.rs\<close>: reading the node dump that \<open>nodeToString\<close> makes of PostgreSQL's parse
  tree. The parser itself is PostgreSQL's and its dump is the argument of the definitions
  here. The readers work on the bytes of the dump and decode whole characters where they copy
  them; slicing a string in the middle of a character is a panic, and is modelled as one.
\<close>

section \<open>Reading tokens\<close>

text \<open>The bytes that end a token: \<open>is_ascii_whitespace\<close>, braces and parentheses.\<close>

definition token_delim :: "char \<Rightarrow> bool" where
  "token_delim b \<longleftrightarrow>
     is_ascii_whitespace b \<or> b = CHR ''}'' \<or> b = CHR '')'' \<or> b = CHR ''{'' \<or> b = CHR ''(''"

text \<open>
  The scanning loop of \<open>read_token\<close>: \<open>bs\<close> are the bytes from index \<open>i\<close> on, \<open>out\<close> what has been
  read. A non-ASCII byte is decoded with \<open>s[i..].chars().next()\<close>, which panics when \<open>i\<close> is not
  at a character boundary.
\<close>

function (sequential) read_token_loop :: "string \<Rightarrow> string \<Rightarrow> nat \<Rightarrow> (string \<times> nat) outcome" where
  "read_token_loop [] out i = Done (out, i)"
| "read_token_loop (b # bs) out i =
     (if b = bslash then
        (case bs of
           c # cs \<Rightarrow> read_token_loop cs (out @ byte_as_char c) (i + 2)
         | [] \<Rightarrow> read_token_loop [] out (i + 1))
      else if token_delim b then Done (out, i)
      else if u8 b < 0x80 then read_token_loop bs (out @ [b]) (i + 1)
      else if is_cont b then Panic
      else read_token_loop (drop (utf8_width b - 1) bs)
             (out @ b # take (utf8_width b - 1) bs) (i + utf8_width b))"
  by pat_completeness auto
termination
  by (relation "measure (\<lambda>(bs, out, i). length bs)") auto

definition read_token :: "string \<Rightarrow> (string option \<times> nat) outcome" where
  "read_token s =
     (if prefix ''<>'' s then Done (None, 2)
      else if prefix [dquote, dquote] s then Done (Some [], 2)
      else bind_outcome (read_token_loop s [] 0) (\<lambda>(out, i). Done (Some out, i)))"

section \<open>Node and list bodies\<close>

text \<open>
  The offset of the bracket that closes the one opened just before \<open>bs\<close>; a backslash hides the
  byte after it. \<open>node_body\<close> and \<open>paren_body\<close> are the same loop on different brackets.
\<close>

fun scan_close :: "char \<Rightarrow> char \<Rightarrow> string \<Rightarrow> nat \<Rightarrow> nat \<Rightarrow> nat option" where
  "scan_close op cl [] depth i = None"
| "scan_close op cl (b # bs) depth i =
     (if b = bslash then (case bs of [] \<Rightarrow> None | _ # cs \<Rightarrow> scan_close op cl cs depth (i + 2))
      else if b = op then scan_close op cl bs (depth + 1) (i + 1)
      else if b = cl then (if depth = 0 then Some i else scan_close op cl bs (depth - 1) (i + 1))
      else scan_close op cl bs depth (i + 1))"

definition node_body :: "string \<Rightarrow> string" where
  "node_body s = (case scan_close CHR ''{'' CHR ''}'' s 0 0 of Some i \<Rightarrow> take i s | None \<Rightarrow> s)"

definition paren_body :: "string \<Rightarrow> string" where
  "paren_body s = (case scan_close CHR ''('' CHR '')'' s 0 0 of Some i \<Rightarrow> take i s | None \<Rightarrow> s)"

section \<open>Quoted strings of a list\<close>

text \<open>The inner loop: the text up to the next unescaped quote, and the bytes from there on.\<close>

function (sequential) quoted_inner :: "string \<Rightarrow> string \<Rightarrow> (string \<times> string) outcome" where
  "quoted_inner [] s = Done (s, [])"
| "quoted_inner (b # bs) s =
     (if b = dquote then Done (s, b # bs)
      else if b = bslash \<and> bs \<noteq> [] then quoted_inner (tl bs) (s @ byte_as_char (hd bs))
      else if u8 b < 0x80 then quoted_inner bs (s @ [b])
      else if is_cont b then Panic
      else quoted_inner (drop (utf8_width b - 1) bs) (s @ b # take (utf8_width b - 1) bs))"
  by pat_completeness auto
termination
  by (relation "measure (\<lambda>(bs, s). length bs)") (auto simp: neq_Nil_conv)

lemma quoted_inner_suffix: "quoted_inner bs s = Done (t, r) \<Longrightarrow> suffix r bs"
proof (induction bs s rule: quoted_inner.induct)
  case (2 b bs s)
  show ?case
  proof (cases "b = dquote")
    case False
    then consider (esc) "b = bslash" "bs \<noteq> []" | (plain) "\<not> (b = bslash \<and> bs \<noteq> [])" "u8 b < 0x80"
      | (multi) "\<not> (b = bslash \<and> bs \<noteq> [])" "\<not> u8 b < 0x80" by blast
    then show ?thesis
    proof cases
      case esc
      with "2.IH"(1) [OF False] "2.prems" have "suffix r (tl bs)" by simp
      then show ?thesis by (metis suffix_order.trans suffix_ConsI suffix_tl)
    next
      case plain
      with "2.IH"(2) [OF False] "2.prems" have "suffix r bs" using False by simp
      then show ?thesis by (rule suffix_ConsI)
    next
      case multi
      with "2.prems" False have "\<not> is_cont b" by (auto split: if_splits)
      with "2.IH"(3) [OF False] "2.prems" multi have "suffix r (drop (utf8_width b - 1) bs)"
        using False by simp
      then show ?thesis by (metis suffix_order.trans suffix_ConsI suffix_drop)
    qed
  qed (use "2.prems" in simp)
qed simp

lemma quoted_inner_shorter: "quoted_inner bs s = Done (t, r) \<Longrightarrow> length r \<le> length bs"
  using quoted_inner_suffix suffix_length_le by blast

lemma bind_outcome_cong [fundef_cong]:
  "m = m' \<Longrightarrow> (\<And>x. m' = Done x \<Longrightarrow> f x = f' x) \<Longrightarrow> bind_outcome m f = bind_outcome m' f'"
  by (cases m') auto

function (sequential) quoted_strings :: "string \<Rightarrow> string list outcome" where
  "quoted_strings [] = Done []"
| "quoted_strings (b # bs) =
     (if b \<noteq> dquote then quoted_strings bs
      else bind_outcome (quoted_inner bs []) (\<lambda>(s, r).
             bind_outcome (quoted_strings (drop 1 r)) (\<lambda>ss. Done (s # ss))))"
  by pat_completeness auto
termination
  by (relation "measure length") (auto dest: quoted_inner_shorter)

section \<open>The analysis\<close>

definition field :: "string \<Rightarrow> string \<Rightarrow> string option outcome" where
  "field body name =
     (let needle = '':'' @ name @ '' '' in
      case find_sub needle body of
        None \<Rightarrow> Done None
      | Some p \<Rightarrow> bind_outcome (read_token (drop (p + length needle) body)) (\<lambda>(v, _). Done v))"

definition read_ident :: "string \<Rightarrow> string" where
  "read_ident s = takeWhile (\<lambda>c. is_ascii_alphanumeric c \<or> c = CHR ''_'') s"

text \<open>One definition per loop of \<open>analyze_dump\<close>, each over what follows every match of its tag.\<close>

definition stmt_kind :: "string \<Rightarrow> string option" where
  "stmt_kind rest =
     (let body = node_body rest in
      case find_sub '':stmt {'' body of
        Some q \<Rightarrow> Some (read_ident (drop (q + length '':stmt {'') body))
      | None \<Rightarrow> None)"

definition stmt_kinds :: "string \<Rightarrow> string list" where
  "stmt_kinds dump = List.map_filter stmt_kind (occurrences ''{RAWSTMT'' dump)"

definition range_var :: "string \<Rightarrow> json option outcome" where
  "range_var rest =
     (let body = node_body rest in
      bind_outcome (field body ''relname'') (\<lambda>n.
        case n of
          None \<Rightarrow> Done None
        | Some name \<Rightarrow> bind_outcome (field body ''schemaname'') (\<lambda>s.
            Done (Some (jobj [(''schema'', opt_json s), (''name'', JString name)])))))"

definition relations :: "string \<Rightarrow> json list outcome" where
  "relations dump =
     bind_outcome (map_outcomes range_var (occurrences ''{RANGEVAR '' dump))
       (\<lambda>rs. Done (List.map_filter id rs))"

definition cte_name :: "string \<Rightarrow> json option outcome" where
  "cte_name rest = bind_outcome (read_token rest) (\<lambda>(v, _). Done (map_option JString v))"

definition ctes :: "string \<Rightarrow> json list outcome" where
  "ctes dump =
     bind_outcome (map_outcomes cte_name (occurrences '':ctename '' dump))
       (\<lambda>rs. Done (List.map_filter id rs))"

definition func_call :: "string \<Rightarrow> json option outcome" where
  "func_call rest =
     bind_outcome (quoted_strings (paren_body rest)) (\<lambda>parts.
       Done (case rev parts of
               [] \<Rightarrow> None
             | name # more \<Rightarrow>
                 Some (jobj [(''schema'', opt_json (case more of [] \<Rightarrow> None | s # _ \<Rightarrow> Some s)),
                             (''name'', JString name)])))"

definition called_functions :: "string \<Rightarrow> json list outcome" where
  "called_functions dump =
     bind_outcome (map_outcomes func_call (occurrences '':funcname ('' dump))
       (\<lambda>rs. Done (List.map_filter id rs))"

definition has_into :: "string \<Rightarrow> bool" where
  "has_into dump \<longleftrightarrow> find_sub '':intoClause {'' dump \<noteq> None"

definition has_dml :: "string \<Rightarrow> bool" where
  "has_dml dump \<longleftrightarrow>
     list_ex (\<lambda>tag. find_sub tag dump \<noteq> None)
       [''{INSERTSTMT'', ''{UPDATESTMT'', ''{DELETESTMT'', ''{MERGESTMT'']"

definition analyze_dump :: "string \<Rightarrow> json outcome" where
  "analyze_dump dump =
     (if dump = [] then
        Done (jobj [(''ok'', JBool False), (''error'', JString ''unparseable'')])
      else
        let kinds = stmt_kinds dump in
        bind_outcome (relations dump) (\<lambda>rels.
        bind_outcome (ctes dump) (\<lambda>cs.
        bind_outcome (called_functions dump) (\<lambda>fs.
          Done (jobj
            [(''ok'', JBool True),
             (''statements'', JNumber (PosInt (length kinds))),
             (''kind'', JString (if length kinds = 1 \<and> kinds ! 0 = ''SELECTSTMT''
                                 then ''select'' else ''other'')),
             (''writes'', JBool (has_into dump \<or> has_dml dump)),
             (''relations'', JArray rels),
             (''functions'', JArray fs),
             (''ctes'', JArray cs)])))))"

section \<open>Escaping, and what the readers recover\<close>

text \<open>
  \<open>escapes D e s\<close>: the text \<open>e\<close> spells the string \<open>s\<close> with a backslash before every byte that
  satisfies \<open>D\<close>, and before any other ASCII byte the writer chooses; a character outside ASCII
  is copied as it is. This is what the readers are told of \<open>outToken\<close>: it escapes the
  delimiters, and additionally a leading quote, digit or \<open><\<close>.
\<close>

inductive escapes :: "(char \<Rightarrow> bool) \<Rightarrow> string \<Rightarrow> string \<Rightarrow> bool" for D where
  escapes_Nil: "escapes D [] []"
| escapes_plain: "is_ascii c \<Longrightarrow> c \<noteq> bslash \<Longrightarrow> \<not> D c \<Longrightarrow> escapes D e s \<Longrightarrow> escapes D (c # e) (c # s)"
| escapes_esc: "is_ascii c \<Longrightarrow> escapes D e s \<Longrightarrow> escapes D (bslash # c # e) (c # s)"
| escapes_multi: "utf8_next u = (True, length u) \<Longrightarrow> \<not> is_ascii (hd u) \<Longrightarrow> u \<noteq> [] \<Longrightarrow>
     escapes D e s \<Longrightarrow> escapes D (u @ e) (u @ s)"

lemma multibyte_char:
  assumes "utf8_next u = (True, length u)" and "\<not> is_ascii (hd u)" and "u \<noteq> []"
  obtains a v where "u = a # v" "length v = utf8_width a - 1" "\<not> is_cont a"
    "\<not> u8 a < 0x80" "a \<noteq> bslash" "a \<noteq> dquote" "\<not> token_delim a" "utf8_width a \<noteq> 0"
proof -
  obtain a v where u: "u = a # v" using assms(3) by (cases u) auto
  have "utf8_width a = length u" using utf8_next_width [of a v] assms(1) u by simp
  moreover have "\<not> is_cont a" using assms(1) u by (auto simp: is_cont_def split: if_splits)
  moreover have big: "\<not> u8 a < 0x80" using assms(2) u by (simp add: is_ascii_def)
  moreover have "a \<noteq> bslash" "a \<noteq> dquote" "\<not> token_delim a"
    using big by (auto simp: token_delim_def is_ascii_whitespace_def)
  ultimately show thesis by (intro that [OF u]) (simp_all add: u)
qed

lemma read_token_loop_multi:
  assumes "utf8_next u = (True, length u)" and "\<not> is_ascii (hd u)" and "u \<noteq> []"
  shows "read_token_loop (u @ bs) out i = read_token_loop bs (out @ u) (i + length u)"
proof -
  obtain a v where uv: "u = a # v" "length v = utf8_width a - 1" "\<not> is_cont a"
    "\<not> u8 a < 0x80" "a \<noteq> bslash" "a \<noteq> dquote" "\<not> token_delim a" "utf8_width a \<noteq> 0"
    using assms by (rule multibyte_char)
  then show ?thesis by simp
qed

lemma quoted_inner_multi:
  assumes "utf8_next u = (True, length u)" and "\<not> is_ascii (hd u)" and "u \<noteq> []"
  shows "quoted_inner (u @ bs) s = quoted_inner bs (s @ u)"
proof -
  obtain a v where uv: "u = a # v" "length v = utf8_width a - 1" "\<not> is_cont a"
    "\<not> u8 a < 0x80" "a \<noteq> bslash" "a \<noteq> dquote" "\<not> token_delim a" "utf8_width a \<noteq> 0"
    using assms by (rule multibyte_char)
  then show ?thesis by simp
qed

lemma read_token_loop_escapes:
  assumes "escapes token_delim e s" and "rest = [] \<or> token_delim (hd rest) \<and> hd rest \<noteq> bslash"
  shows "read_token_loop (e @ rest) out i = Done (out @ s, i + length e)"
  using assms(1)
proof (induction arbitrary: out i)
  case escapes_Nil
  show ?case
  proof (cases rest)
    case (Cons r rs)
    with assms(2) have "token_delim r" "r \<noteq> bslash" by simp_all
    with Cons show ?thesis by simp
  qed simp
next
  case (escapes_multi u e s)
  then show ?case by (simp add: read_token_loop_multi)
next
  case (escapes_plain c e s)
  then show ?case by (simp add: is_ascii_def)
next
  case (escapes_esc c e s)
  then show ?case by simp
qed

lemma read_token_escapes:
  assumes "escapes token_delim e s" and "rest = [] \<or> token_delim (hd rest) \<and> hd rest \<noteq> bslash"
    and "\<not> prefix ''<>'' (e @ rest)" and "\<not> prefix [dquote, dquote] (e @ rest)"
  shows "read_token (e @ rest) = Done (Some s, length e)"
  using assms by (simp add: read_token_def read_token_loop_escapes del: append_assoc)

lemma quoted_inner_escapes:
  "escapes (\<lambda>c. c = dquote) e s \<Longrightarrow> quoted_inner (e @ dquote # rest) t = Done (t @ s, dquote # rest)"
proof (induction arbitrary: t rule: escapes.induct)
  case (escapes_multi u e s)
  then show ?case by (simp add: quoted_inner_multi)
next
  case (escapes_plain c e s)
  then show ?case by (simp add: is_ascii_def)
next
  case (escapes_esc c e s)
  then show ?case by simp
qed simp

lemma quoted_strings_skip: "dquote \<notin> set xs \<Longrightarrow> quoted_strings (xs @ bs) = quoted_strings bs"
  by (induction xs) auto

text \<open>A list of \<open>String\<close> nodes as the node dump writes it, given the spellings of the names.\<close>

fun name_list :: "string list \<Rightarrow> string" where
  "name_list [] = []"
| "name_list [e] = dquote # e @ [dquote]"
| "name_list (e # es) = dquote # e @ dquote # '' '' @ name_list es"

lemma quoted_strings_name_list:
  "list_all2 (escapes (\<lambda>c. c = dquote)) es ss \<Longrightarrow> quoted_strings (name_list es) = Done ss"
proof (induction es arbitrary: ss rule: name_list.induct)
  case (2 e)
  then show ?case by (auto simp: list_all2_Cons1 quoted_inner_escapes)
next
  case (3 e e' es)
  then obtain t ts where ss: "ss = t # ts" "escapes (\<lambda>c. c = dquote) e t" "list_all2 (escapes (\<lambda>c. c = dquote)) (e' # es) ts"
    by (auto simp: list_all2_Cons1)
  with "3.IH" [OF ss(3)] show ?case by (simp add: quoted_inner_escapes)
qed simp

section \<open>Brackets\<close>

text \<open>Text in which the brackets \<open>op\<close>, \<open>cl\<close> that no backslash hides are nested properly.\<close>

inductive balanced :: "char \<Rightarrow> char \<Rightarrow> string \<Rightarrow> bool" for op cl where
  balanced_Nil: "balanced op cl []"
| balanced_plain: "c \<noteq> bslash \<Longrightarrow> c \<noteq> op \<Longrightarrow> c \<noteq> cl \<Longrightarrow> balanced op cl s \<Longrightarrow> balanced op cl (c # s)"
| balanced_esc: "balanced op cl s \<Longrightarrow> balanced op cl (bslash # c # s)"
| balanced_nest: "balanced op cl s \<Longrightarrow> balanced op cl t \<Longrightarrow> balanced op cl (op # s @ cl # t)"

locale bracket =
  fixes op cl :: char
  assumes distinct_brackets: "op \<noteq> cl" "op \<noteq> bslash" "cl \<noteq> bslash"
begin

lemma scan_balanced:
  "balanced op cl s \<Longrightarrow> scan_close op cl (s @ rest) d i = scan_close op cl rest d (i + length s)"
proof (induction arbitrary: rest d i rule: balanced.induct)
  case (balanced_nest s t)
  then show ?case using distinct_brackets by (simp add: add.assoc)
qed (use distinct_brackets in auto)

lemma scan_stops: "balanced op cl s \<Longrightarrow> scan_close op cl (s @ cl # rest) 0 0 = Some (length s)"
  using distinct_brackets by (simp add: scan_balanced)

lemma scan_close_split:
  "scan_close op cl s d i = Some j \<Longrightarrow> i \<le> j \<and> j - i < length s \<and> s ! (j - i) = cl"
proof (induction op cl s d i rule: scan_close.induct)
  case (2 op cl b bs d i)
  show ?case
  proof (cases "b = bslash")
    case True
    with 2 obtain c cs where "bs = c # cs" "scan_close op cl cs d (i + 2) = Some j"
      by (auto split: list.splits)
    with 2 True show ?thesis by (auto simp: nth_Cons')
  next
    case False
    with 2 show ?thesis by (auto split: if_splits simp: nth_Cons')
  qed
qed simp

end

interpretation node: bracket "CHR ''{''" "CHR ''}''"
  by unfold_locales simp_all

interpretation paren: bracket "CHR ''(''" "CHR '')''"
  by unfold_locales simp_all


lemma paren_body_balanced: "balanced CHR ''('' CHR '')'' s \<Longrightarrow> paren_body (s @ CHR '')'' # rest) = s"
  by (simp add: paren_body_def paren.scan_stops)

lemma node_body_cut: "node_body s = s \<or> (\<exists>r. s = node_body s @ CHR ''}'' # r)"
proof (cases "scan_close CHR ''{'' CHR ''}'' s 0 0")
  case (Some j)
  with node.scan_close_split [OF Some] have "s = take j s @ CHR ''}'' # drop (Suc j) s"
    by (metis diff_zero id_take_nth_drop)
  with Some show ?thesis by (auto simp: node_body_def)
qed (simp add: node_body_def)

lemma paren_body_cut: "paren_body s = s \<or> (\<exists>r. s = paren_body s @ CHR '')'' # r)"
proof (cases "scan_close CHR ''('' CHR '')'' s 0 0")
  case (Some j)
  with paren.scan_close_split [OF Some] have "s = take j s @ CHR '')'' # drop (Suc j) s"
    by (metis diff_zero id_take_nth_drop)
  with Some show ?thesis by (auto simp: paren_body_def)
qed (simp add: paren_body_def)

section \<open>No reader panics on a dump whose escapes are ASCII\<close>

text \<open>Every backslash that starts an escape is followed by an ASCII byte.\<close>

fun ascii_escapes :: "string \<Rightarrow> bool" where
  "ascii_escapes [] = True"
| "ascii_escapes (b # bs) =
     (if b = bslash then (case bs of [] \<Rightarrow> True | c # cs \<Rightarrow> is_ascii c \<and> ascii_escapes cs)
      else ascii_escapes bs)"

lemma ascii_escapes_prefix: "ascii_escapes (a @ b) \<Longrightarrow> ascii_escapes a"
  by (induction a rule: ascii_escapes.induct) (auto split: list.splits)

lemma ascii_escapes_skip: "bslash \<notin> set p \<Longrightarrow> ascii_escapes (p @ b) = ascii_escapes b"
  by (induction p) auto

lemma ascii_escapes_after:
  "ascii_escapes (a @ p @ b) \<Longrightarrow> bslash \<notin> set p \<Longrightarrow> p \<noteq> [] \<Longrightarrow> ascii_escapes b"
proof (induction a rule: ascii_escapes.induct)
  case 1
  then show ?case by (simp add: ascii_escapes_skip)
next
  case (2 c cs)
  show ?case
  proof (cases "c = bslash \<and> cs = []")
    case True
    with "2.prems" obtain x p' where "p = x # p'" "ascii_escapes (p' @ b)" "bslash \<notin> set p'"
      by (cases p) auto
    then show ?thesis by (simp add: ascii_escapes_skip)
  next
    case False
    with 2 show ?thesis by (cases cs) (auto split: if_splits)
  qed
qed

text \<open>Both conditions a dump has to satisfy, and the parts of it they carry over to.\<close>

definition readable :: "string \<Rightarrow> bool" where
  "readable s \<longleftrightarrow> utf8_valid s \<and> ascii_escapes s"

lemma readable_after:
  "readable (a @ p @ b) \<Longrightarrow> list_all is_ascii p \<Longrightarrow> bslash \<notin> set p \<Longrightarrow> p \<noteq> [] \<Longrightarrow> readable b"
  unfolding readable_def using utf8_valid_cutD(2) ascii_escapes_after by blast

lemma readable_before: "readable (a @ c # b) \<Longrightarrow> is_ascii c \<Longrightarrow> readable a"
  unfolding readable_def using utf8_valid_cut ascii_escapes_prefix by blast

lemma readable_node_body: "readable s \<Longrightarrow> readable (node_body s)"
proof -
  have "is_ascii CHR ''}''" by (simp add: is_ascii_def)
  then show "readable s \<Longrightarrow> readable (node_body s)"
    using node_body_cut [of s] readable_before by metis
qed

lemma readable_paren_body: "readable s \<Longrightarrow> readable (paren_body s)"
proof -
  have "is_ascii CHR '')''" by (simp add: is_ascii_def)
  then show "readable s \<Longrightarrow> readable (paren_body s)"
    using paren_body_cut [of s] readable_before by metis
qed

lemma readable_multi:
  assumes "readable (b # bs)" and "\<not> u8 b < 0x80"
  shows "\<not> is_cont b" and "readable (drop (utf8_width b - 1) bs)"
proof -
  let ?u = "take (utf8_width b) (b # bs)"
  from assms have ok: "fst (utf8_next (b # bs))"
    and v: "utf8_valid (drop (utf8_width b) (b # bs))"
    using utf8_valid_step [of "b # bs"] utf8_next_width [of b bs] by (auto simp: readable_def)
  from ok assms(2) show "\<not> is_cont b" by (auto simp: is_cont_def split: if_splits)
  have w: "utf8_width b \<noteq> 0" by (simp add: utf8_width_def)
  then have d: "drop (utf8_width b) (b # bs) = drop (utf8_width b - 1) bs"
    by (cases "utf8_width b") auto
  have "c \<in> set ?u \<Longrightarrow> \<not> is_ascii c" for c
    using ok assms(2) by (auto simp: utf8_width_def byte_simps second_of_3_def second_of_4_def
        take_Cons' split: list.splits if_splits)
  then have "bslash \<notin> set ?u" by (force simp: is_ascii_def)
  moreover have "b # bs = ?u @ drop (utf8_width b - 1) bs" using d by (metis append_take_drop_id)
  ultimately have "ascii_escapes (drop (utf8_width b - 1) bs)"
    using assms(1) ascii_escapes_skip unfolding readable_def by metis
  with v d show "readable (drop (utf8_width b - 1) bs)" by (simp add: readable_def)
qed

lemma readable_ascii: "readable (b # bs) \<Longrightarrow> u8 b < 0x80 \<Longrightarrow> b \<noteq> bslash \<Longrightarrow> readable bs"
  by (simp add: readable_def is_ascii_def [symmetric])

lemma readable_escape: "readable (bslash # c # cs) \<Longrightarrow> readable cs"
proof -
  have "is_ascii bslash" by (simp add: is_ascii_def)
  then show "readable (bslash # c # cs) \<Longrightarrow> readable cs" by (auto simp: readable_def)
qed

lemma readable_Nil [simp]: "readable []"
  by (simp add: readable_def)

lemma read_token_loop_no_panic: "readable bs \<Longrightarrow> read_token_loop bs out i \<noteq> Panic"
proof (induction bs out i rule: read_token_loop.induct)
  case (2 b bs out i)
  show ?case
  proof (cases "b = bslash")
    case True
    with 2 show ?thesis by (cases bs) (use readable_escape in auto)
  next
    case False
    with 2 readable_ascii [OF "2.prems"] readable_multi [OF "2.prems"] show ?thesis by simp
  qed
qed simp

lemma quoted_inner_no_panic: "readable bs \<Longrightarrow> quoted_inner bs s \<noteq> Panic"
proof (induction bs s rule: quoted_inner.induct)
  case (2 b bs s)
  show ?case
  proof (cases "b = bslash")
    case True
    with 2 show ?thesis by (cases bs) (use readable_escape in auto)
  next
    case False
    with 2 readable_ascii [OF "2.prems"] readable_multi [OF "2.prems"] show ?thesis by simp
  qed
qed simp

lemma quoted_strings_no_panic:
  "readable (a @ bs) \<Longrightarrow> quoted_strings bs \<noteq> Panic"
proof (induction bs arbitrary: a rule: quoted_strings.induct)
  case (2 b bs)
  show ?case
  proof (cases "b = dquote")
    case False
    with "2.IH"(1) [OF _, of "a @ [b]"] "2.prems" show ?thesis by simp
  next
    case True
    have bs: "readable bs"
      using "2.prems" True readable_after [of a "[dquote]" bs] by (simp add: is_ascii_def)
    then obtain s r where q: "quoted_inner bs [] = Done (s, r)"
      using quoted_inner_no_panic [of bs "[]"] by (cases "quoted_inner bs []") auto
    then obtain x where x: "bs = x @ r" using quoted_inner_suffix [OF q] by (auto simp: suffix_def)
    have "readable ((a @ b # x @ take 1 r) @ drop 1 r)" using "2.prems" x by simp
    then have "quoted_strings (drop 1 r) \<noteq> Panic"
      using "2.IH"(2) [OF _ q refl] True by blast
    with q True show ?thesis by (simp add: bind_outcome_eq_Panic)
  qed
qed simp

lemma read_token_no_panic: "readable s \<Longrightarrow> read_token s \<noteq> Panic"
  by (auto simp: read_token_def bind_outcome_eq_Panic read_token_loop_no_panic)

lemma field_no_panic:
  assumes "readable body" and "list_all is_ascii name" and "bslash \<notin> set name"
  shows "field body name \<noteq> Panic"
proof (cases "find_sub ('':'' @ name @ '' '') body")
  case (Some p)
  let ?n = "'':'' @ name @ '' ''"
  have "readable (drop (p + length ?n) body)"
  proof (rule readable_after)
    show "readable (take p body @ ?n @ drop (p + length ?n) body)"
      using assms(1) find_sub_Some_split [OF Some] by simp
  qed (use assms in \<open>auto simp: is_ascii_def\<close>)
  then show ?thesis
    using Some read_token_no_panic by (auto simp: field_def Let_def bind_outcome_eq_Panic)
qed (simp add: field_def)

lemma readable_occurrence:
  "readable s \<Longrightarrow> r \<in> set (occurrences p s) \<Longrightarrow> list_all is_ascii p \<Longrightarrow> bslash \<notin> set p \<Longrightarrow> p \<noteq> []
   \<Longrightarrow> readable r"
  using occurrences_sound readable_after by metis

lemma range_var_no_panic: "readable r \<Longrightarrow> range_var r \<noteq> Panic"
  using field_no_panic [OF readable_node_body]
  by (auto simp: range_var_def Let_def bind_outcome_eq_Panic is_ascii_def split: option.splits)

lemma func_call_no_panic: "readable r \<Longrightarrow> func_call r \<noteq> Panic"
  using quoted_strings_no_panic [of "[]", OF _] readable_paren_body
  by (auto simp: func_call_def bind_outcome_eq_Panic)

lemma cte_name_no_panic: "readable r \<Longrightarrow> cte_name r \<noteq> Panic"
  using read_token_no_panic by (auto simp: cte_name_def bind_outcome_eq_Panic)

lemma relations_no_panic: "readable dump \<Longrightarrow> relations dump \<noteq> Panic"
  using map_outcomes_no_panic [of _ range_var] readable_occurrence range_var_no_panic
  by (fastforce simp: relations_def bind_outcome_eq_Panic is_ascii_def)

lemma ctes_no_panic: "readable dump \<Longrightarrow> ctes dump \<noteq> Panic"
  using map_outcomes_no_panic [of _ cte_name] readable_occurrence cte_name_no_panic
  by (fastforce simp: ctes_def bind_outcome_eq_Panic is_ascii_def)

lemma functions_no_panic: "readable dump \<Longrightarrow> called_functions dump \<noteq> Panic"
  using map_outcomes_no_panic [of _ func_call] readable_occurrence func_call_no_panic
  by (fastforce simp: called_functions_def bind_outcome_eq_Panic is_ascii_def)

lemma analyze_dump_total:
  assumes "readable dump"
  obtains v where "analyze_dump dump = Done v"
proof (cases "analyze_dump dump")
  case Panic
  with relations_no_panic [OF assms] ctes_no_panic [OF assms] functions_no_panic [OF assms]
  have False by (auto simp: analyze_dump_def Let_def bind_outcome_eq_Panic split: if_splits)
  then show thesis ..
qed (use that in blast)

lemma analyze_dump_fields:
  assumes "analyze_dump dump = Done v" and "dump \<noteq> []"
  obtains rels cs fs where "relations dump = Done rels" "ctes dump = Done cs"
    "called_functions dump = Done fs"
    "json_get ''relations'' v = Some (JArray rels)" "json_get ''ctes'' v = Some (JArray cs)"
    "json_get ''functions'' v = Some (JArray fs)" "json_get ''ok'' v = Some (JBool True)"
    "json_get ''statements'' v = Some (JNumber (PosInt (length (stmt_kinds dump))))"
    "json_get ''kind'' v = Some (JString (if stmt_kinds dump = [''SELECTSTMT''] then ''select'' else ''other''))"
    "json_get ''writes'' v = Some (JBool (has_into dump \<or> has_dml dump))"
proof -
  have "(length ks = 1 \<and> ks ! 0 = x) = (ks = [x])" for ks :: "string list" and x
    by (cases ks; cases "tl ks") auto
  with assms that show thesis by (auto simp: analyze_dump_def Let_def)
qed

lemma analyze_dump_verdict:
  assumes "analyze_dump dump = Done v" and "dump \<noteq> []"
  shows "json_get ''kind'' v = Some (JString (if stmt_kinds dump = [''SELECTSTMT''] then ''select'' else ''other''))"
    and "json_get ''writes'' v = Some (JBool (has_into dump \<or> has_dml dump))"
    and "json_get ''statements'' v = Some (JNumber (PosInt (length (stmt_kinds dump))))"
  using analyze_dump_fields [OF assms] by blast+

lemma escapes_self:
  "list_all (\<lambda>c. is_ascii c \<and> c \<noteq> bslash \<and> \<not> D c) s \<Longrightarrow> escapes D s s"
  by (induction s) (auto intro: escapes.intros)

lemma balanced_self:
  "list_all (\<lambda>c. c \<noteq> bslash \<and> c \<noteq> op \<and> c \<noteq> cl) s \<Longrightarrow> balanced op cl s"
  by (induction s) (auto intro: balanced.intros)

lemma readable_self: "list_all (\<lambda>c. is_ascii c \<and> c \<noteq> bslash) s \<Longrightarrow> readable s"
proof -
  assume a: "list_all (\<lambda>c. is_ascii c \<and> c \<noteq> bslash) s"
  then have "utf8_valid s" by (intro utf8_valid_ascii) (simp add: list_all_iff)
  moreover have "bslash \<notin> set s" using a by (auto simp: list_all_iff)
  then have "ascii_escapes (s @ [])" by (subst ascii_escapes_skip) simp_all
  ultimately show "readable s" by (simp add: readable_def)
qed






lemma functions_complete:
  assumes "dump = pre @ '':funcname ('' @ r" and "func_call r = Done (Some x)"
    and "called_functions dump = Done fs"
  shows "x \<in> set fs"
proof -
  have "border_free '':funcname (''" by (simp add: border_free_def upt_rec)
  then have "r \<in> set (occurrences '':funcname ('' dump)"
    by (rule occurrences_complete) (use assms(1) in simp_all)
  moreover obtain rs where rs: "map_outcomes func_call (occurrences '':funcname ('' dump) = Done rs"
    "fs = List.map_filter id rs" using assms(3) by (auto simp: called_functions_def)
  ultimately have "Some x \<in> set rs" using map_outcomes_set assms(2) by fastforce
  then show ?thesis using in_map_filter [of "Some x" rs id x] by (simp add: rs(2))
qed

section \<open>Properties\<close>

text \<open>
  C23. Round trip of \<open>read_token\<close>: a token spelt by escaping its delimiters, followed by a
  delimiter or the end of the dump, is read back as the string it spells, multi-byte characters
  included, and the reader stops right behind it.
\<close>

theorem read_token_roundtrip:
  assumes "escapes token_delim e s"
    and "rest = [] \<or> (token_delim (hd rest) \<and> hd rest \<noteq> bslash)"
    and "\<not> prefix ''<>'' (e @ rest)" and "\<not> prefix [dquote, dquote] (e @ rest)"
  shows "read_token (e @ rest) = Done (Some s, length e)"
  using assms by (rule read_token_escapes)

theorem read_token_roundtrip_witness:
  "escapes token_delim (''caf'' @ [CHR 0xC3, CHR 0xA9] @ bslash # ''}bar'') (''caf'' @ [CHR 0xC3, CHR 0xA9] @ ''}bar'')
   \<and> read_token ((''caf'' @ [CHR 0xC3, CHR 0xA9] @ bslash # ''}bar'') @ ''}'')
      = Done (Some (''caf'' @ [CHR 0xC3, CHR 0xA9] @ ''}bar''), 10)"
proof -
  have d: "escapes token_delim (bslash # CHR ''}'' # ''bar'') (CHR ''}'' # ''bar'')"
    by (intro escapes_esc escapes_self) (simp_all add: byte_simps token_delim_def)
  have m: "escapes token_delim ([CHR 0xC3, CHR 0xA9] @ bslash # ''}bar'') ([CHR 0xC3, CHR 0xA9] @ ''}bar'')"
    using d by (intro escapes_multi) (simp_all add: byte_simps)
  have e: "escapes token_delim (''caf'' @ [CHR 0xC3, CHR 0xA9] @ bslash # ''}bar'') (''caf'' @ [CHR 0xC3, CHR 0xA9] @ ''}bar'')"
    using m by (simp add: escapes_plain byte_simps token_delim_def)
  with read_token_roundtrip [OF e, of "''}''"] show ?thesis
    by (simp add: token_delim_def)
qed

text \<open>
  C25. The analysis never panics: on a dump that is valid UTF-8 and in which an escape always
  stands before an ASCII byte, every reader keeps to character boundaries and \<open>analyze_dump\<close>
  returns a value.
\<close>

theorem analyze_dump_never_panics:
  assumes "utf8_valid dump" and "ascii_escapes dump"
  shows "\<exists>v. analyze_dump dump = Done v"
  using assms analyze_dump_total [of dump] by (auto simp: readable_def)

theorem analyze_dump_never_panics_witness:
  "utf8_valid (''{RANGEVAR :relname caf'' @ [CHR 0xC3, CHR 0xA9, CHR ''}''])
   \<and> ascii_escapes (''{RANGEVAR :relname caf'' @ [CHR 0xC3, CHR 0xA9, CHR ''}''])
   \<and> (\<exists>v. analyze_dump (''{RANGEVAR :relname caf'' @ [CHR 0xC3, CHR 0xA9, CHR ''}'']) = Done v)"
proof -
  let ?d = "''{RANGEVAR :relname caf'' @ [CHR 0xC3, CHR 0xA9, CHR ''}'']"
  have "utf8_valid [CHR 0xC3, CHR 0xA9, CHR ''}'']"
    by (subst utf8_valid_step; simp add: byte_simps)+
  then have v: "utf8_valid ?d"
    by (rule utf8_valid_append [OF utf8_valid_ascii, rotated]) (simp add: byte_simps)
  have a: "ascii_escapes ?d" by simp
  show ?thesis using v a analyze_dump_never_panics [OF v a] by blast
qed



text \<open>
  C18. No function call is missed: every \<open>:funcname\<close> list of the dump, written as
  \<open>("pg_catalog" "generate_series")\<close> with or without the schema, is listed with its last name as the
  function and the one before it (or none) as its schema. The names are spelt with escapes in such a
  way that no double quote inside a name stands without a backslash; PostgreSQL escapes a leading
  one, and a name with another one is misread, see below.
\<close>

theorem function_reported:
  assumes dump: "dump = pre @ '':funcname ('' @ name_list es @ CHR '')'' # post" and "readable dump"
    and "balanced CHR ''('' CHR '')'' (name_list es)"
    and "list_all2 (escapes (\<lambda>c. c = dquote)) es (names @ [n])"
  shows "\<exists>v fs. analyze_dump dump = Done v \<and> json_get ''functions'' v = Some (JArray fs) \<and>
           jobj [(''schema'', if names = [] then JNull else JString (last names)),
                 (''name'', JString n)] \<in> set fs"
proof -
  have "paren_body (name_list es @ CHR '')'' # post) = name_list es"
    using assms(3) by (rule paren_body_balanced)
  with quoted_strings_name_list [OF assms(4)] have "func_call (name_list es @ CHR '')'' # post) =
      Done (Some (jobj [(''schema'', if names = [] then JNull else JString (last names)),
                        (''name'', JString n)]))"
    by (cases names rule: rev_cases) (simp_all add: func_call_def opt_json_def)
  moreover obtain v where v: "analyze_dump dump = Done v" using assms(2) by (rule analyze_dump_total)
  moreover obtain fs where "called_functions dump = Done fs" "json_get ''functions'' v = Some (JArray fs)"
    using analyze_dump_fields [OF v] dump by blast
  ultimately show ?thesis using functions_complete dump by blast
qed

theorem function_reported_witness:
  "\<exists>v fs. analyze_dump (''{FUNCCALL '' @ '':funcname ('' @ name_list [''pg_catalog'', ''pg_sleep''] @ CHR '')'' # '' :args <>}'') = Done v \<and>
     json_get ''functions'' v = Some (JArray fs) \<and>
     jobj [(''schema'', if [''pg_catalog''] = [] then JNull else JString (last [''pg_catalog''])),
           (''name'', JString ''pg_sleep'')] \<in> set fs"
proof (rule function_reported [OF refl])
  let ?b = "name_list [''pg_catalog'', ''pg_sleep'']"
  show "readable (''{FUNCCALL '' @ '':funcname ('' @ ?b @ CHR '')'' # '' :args <>}'')"
    by (rule readable_self) (simp add: byte_simps)
  show "balanced CHR ''('' CHR '')'' ?b" by (rule balanced_self) simp
  show "list_all2 (escapes (\<lambda>c. c = dquote)) [''pg_catalog'', ''pg_sleep''] ([''pg_catalog''] @ [''pg_sleep''])"
    by (auto intro!: escapes_self simp: byte_simps)
qed

text \<open>
  A name with a double quote in the middle, which the dump does not escape, is read as two names: a
  function \<open>a"b\<close> is reported as a function with an empty name in the schema \<open>a\<close>.
\<close>

lemma quoted_name_misread:
  "func_call (dquote # ''a'' @ dquote # ''b'' @ dquote # '') :args <>}'')
     = Done (Some (jobj [(''schema'', JString ''a''), (''name'', JString [])]))"
proof -
  have "paren_body (dquote # ''a'' @ dquote # ''b'' @ dquote # '') :args <>}'') = dquote # ''a'' @ dquote # ''b'' @ [dquote]"
    by code_simp
  moreover have "quoted_strings (dquote # ''a'' @ dquote # ''b'' @ [dquote]) = Done [''a'', []]"
    by (simp add: byte_simps)
  ultimately show ?thesis by (simp add: func_call_def opt_json_def)
qed

text \<open>
  C20. What the analysis lets pass as a read: when it reports kind \<open>select\<close> without writes, the
  dump holds no \<open>INSERT\<close>, \<open>UPDATE\<close>, \<open>DELETE\<close> or \<open>MERGE\<close> node and no \<open>INTO\<close> clause anywhere, it
  has exactly one statement, and no \<open>RAWSTMT\<close> node of it has any other statement tag.
\<close>

theorem accepted_statement_reads:
  assumes "analyze_dump dump = Done v" and "json_get ''kind'' v = Some (JString ''select'')"
    and "json_get ''writes'' v = Some (JBool False)"
  shows "(\<forall>tag \<in> {''{INSERTSTMT'', ''{UPDATESTMT'', ''{DELETESTMT'', ''{MERGESTMT'', '':intoClause {''}.
            \<not> sublist tag dump)
       \<and> json_get ''statements'' v = Some (JNumber (PosInt 1))
       \<and> (\<forall>a r. dump = a @ ''{RAWSTMT'' @ r \<longrightarrow> stmt_kind r \<in> {None, Some ''SELECTSTMT''})"
proof -
  have "dump \<noteq> []" using assms by (auto simp: analyze_dump_def)
  note verdict = analyze_dump_verdict [OF assms(1) this]
  have k: "stmt_kinds dump = [''SELECTSTMT'']"
    using verdict(1) assms(2) by (simp split: if_splits)
  have w: "\<not> has_into dump" "\<not> has_dml dump" using verdict(2) assms(3) by simp_all
  note n = verdict(3)
  have bf: "border_free ''{RAWSTMT''" by (simp add: border_free_def upt_rec)
  have "stmt_kind r \<in> {None, Some ''SELECTSTMT''}" if "dump = a @ ''{RAWSTMT'' @ r" for a r
  proof (cases "stmt_kind r")
    case (Some t)
    have "r \<in> set (occurrences ''{RAWSTMT'' dump)"
      by (rule occurrences_complete [OF bf]) (use that in simp_all)
    then have "t \<in> set (stmt_kinds dump)" unfolding stmt_kinds_def using Some by (rule in_map_filter)
    with Some k show ?thesis by simp
  qed simp
  with w n k show ?thesis
    by (simp add: has_into_def has_dml_def find_sub_None)
qed

theorem accepted_statement_reads_witness:
  "analyze_dump ''{RAWSTMT :stmt {SELECTSTMT }}'' = Done (jobj
       [(''ok'', JBool True), (''statements'', JNumber (PosInt 1)), (''kind'', JString ''select''),
        (''writes'', JBool False), (''relations'', JArray []), (''functions'', JArray []), (''ctes'', JArray [])])
   \<and> \<not> sublist ''{INSERTSTMT'' ''{RAWSTMT :stmt {SELECTSTMT }}''"
proof -
  let ?d = "''{RAWSTMT :stmt {SELECTSTMT }}''"
  have o: "occurrences ''{RAWSTMT'' ?d = ['' :stmt {SELECTSTMT }}'']" "occurrences ''{RANGEVAR '' ?d = []"
    "occurrences '':ctename '' ?d = []" "occurrences '':funcname ('' ?d = []"
    by (simp_all add: occurrences.simps)
  have "stmt_kind '' :stmt {SELECTSTMT }}'' = Some ''SELECTSTMT''"
    by (simp add: stmt_kind_def node_body_def read_ident_def byte_simps)
  then have "stmt_kinds ?d = [''SELECTSTMT'']"
    by (simp add: stmt_kinds_def o List.map_filter_def)
  then have a: "analyze_dump ?d = Done (jobj
            [(''ok'', JBool True), (''statements'', JNumber (PosInt 1)), (''kind'', JString ''select''),
             (''writes'', JBool False), (''relations'', JArray []), (''functions'', JArray []), (''ctes'', JArray [])])"
    by (simp add: analyze_dump_def relations_def ctes_def called_functions_def o List.map_filter_def
        has_into_def has_dml_def)
  from accepted_statement_reads [OF a] a show ?thesis by simp
qed

end
