(* ===== verification/Lib_Helpers.thy ===== *)
theory Lib_Helpers
  imports Rust_Str
begin

text \<open>
  The crate-level constants and the helper \<open>truncate_utf8\<close> of \<open>lib.rs\<close>. Durations are numbers of
  milliseconds.
\<close>

section \<open>Constants\<close>

definition DEFAULT_DB :: string where "DEFAULT_DB = ''postgres''"
definition DEFAULT_HTTP_ADDR :: string where "DEFAULT_HTTP_ADDR = ''127.0.0.1:8088''"
definition HTTP_THREADS :: nat where "HTTP_THREADS = 4"
definition HTTP_TIMEOUT :: nat where "HTTP_TIMEOUT = 45 * 1000"
definition MAX_RESPONSE_BYTES :: nat where "MAX_RESPONSE_BYTES = 200000"
definition PUMP_BUSY :: nat where "PUMP_BUSY = 150"
definition PUMP_IDLE_MIN :: nat where "PUMP_IDLE_MIN = 500"
definition PUMP_IDLE_MAX :: nat where "PUMP_IDLE_MAX = 4 * 1000"
definition SQL_CLAIM_LIMIT :: int where "SQL_CLAIM_LIMIT = 1"
definition SQL_STATEMENT_TIMEOUT_MS :: int where "SQL_STATEMENT_TIMEOUT_MS = 5000"
definition PROCEDURE_CALL_TIMEOUT_MS :: int where "PROCEDURE_CALL_TIMEOUT_MS = 60000"
definition MAX_WEB_THREADS :: nat where "MAX_WEB_THREADS = 64"
definition MAX_REQUEST_BYTES :: nat where "MAX_REQUEST_BYTES = 1048576"
definition REQUEST_DEADLINE :: nat where "REQUEST_DEADLINE = 5 * 1000"
definition SSE_TOTAL :: nat where "SSE_TOTAL = 30 * 1000"
definition SSE_INTERVAL :: nat where "SSE_INTERVAL = 1000"
definition SSE_TICKET_TTL :: nat where "SSE_TICKET_TTL = 30 * 1000"

section \<open>Addresses\<close>

text \<open>\<open>std::net::IpAddr\<close>, the addresses as big-endian words.\<close>

datatype ip_addr = V4 "32 word" | V6 "128 word"

section \<open>Cutting a string at a character boundary\<close>

fun boundary_before :: "string \<Rightarrow> nat \<Rightarrow> nat" where
  "boundary_before s end' =
     (if 0 < end' \<and> \<not> is_char_boundary s end' then boundary_before s (end' - 1) else end')"

declare boundary_before.simps [simp del]

definition truncate_utf8 :: "string \<Rightarrow> nat \<Rightarrow> string" where
  "truncate_utf8 s n = (if length s \<le> n then s else take (boundary_before s n) s)"

lemma boundary_before_le: "boundary_before s n \<le> n"
proof (induction s n rule: boundary_before.induct)
  case (1 s n)
  then show ?case
    by (cases "0 < n \<and> \<not> is_char_boundary s n") (auto simp: boundary_before.simps [of s n])
qed

lemma boundary_before_boundary: "is_char_boundary s (boundary_before s n)"
proof (induction s n rule: boundary_before.induct)
  case (1 s n)
  then show ?case
    by (subst boundary_before.simps) (auto simp: is_char_boundary_def)
qed

lemma boundary_before_greatest:
  "boundary_before s n < k \<Longrightarrow> k \<le> n \<Longrightarrow> \<not> is_char_boundary s k"
proof (induction s n rule: boundary_before.induct)
  case (1 s n)
  then show ?case
    by (cases "0 < n \<and> \<not> is_char_boundary s n"; cases "k = n")
      (auto simp: boundary_before.simps [of s n])
qed

text \<open>Inside a character every byte but the first is a continuation byte.\<close>

lemma utf8_next_inner_cont:
  assumes "fst (utf8_next s)" and "0 < k" and "k < snd (utf8_next s)"
  shows "is_cont (s ! k)"
proof -
  from assms(2,3) utf8_next_le [of s] obtain a t where s: "s = a # t" by (cases s) auto
  from assms(3) utf8_next_width [OF assms(1) [unfolded s]] s have "k < utf8_width a" by simp
  then have "k = 1 \<or> k = 2 \<or> k = 3" using assms(2) by (auto simp: utf8_width_def split: if_splits)
  then show ?thesis
    using assms(1,3) unfolding s
    by (cases t rule: list_cases3)
      (auto split: if_splits list.splits simp: byte_simps second_of_3_def second_of_4_def)
qed

lemma utf8_valid_take:
  "utf8_valid s \<Longrightarrow> is_char_boundary s i \<Longrightarrow> i \<le> length s \<Longrightarrow> utf8_valid (take i s)"
proof (induction s arbitrary: i rule: utf8_chunks.induct)
  case (1 s)
  show ?case
  proof (cases "s = [] \<or> i = 0")
    case False
    then have ne: "s \<noteq> []" and pos: "0 < i" by auto
    let ?n = "snd (utf8_next s)"
    have ok: "fst (utf8_next s)" and v: "utf8_valid (drop ?n s)"
      using "1.prems"(1) ne by (simp_all add: utf8_valid_step)
    have ge: "?n \<le> i"
    proof (rule ccontr)
      assume "\<not> ?n \<le> i"
      with utf8_next_inner_cont [OF ok pos] have "is_cont (s ! i)" by simp
      moreover have "i < length s" using \<open>\<not> ?n \<le> i\<close> utf8_next_le [of s] by simp
      ultimately show False using "1.prems"(2) pos by (simp add: is_char_boundary_def)
    qed
    have b: "is_char_boundary (drop ?n s) (i - ?n)"
      using "1.prems"(2,3) pos ge by (auto simp: is_char_boundary_def)
    have "utf8_valid (take (i - ?n) (drop ?n s))"
      using "1.IH" [OF ne v b] "1.prems"(3) by simp
    moreover have "take i s = take ?n s @ take (i - ?n) (drop ?n s)"
      using ge by (metis le_add_diff_inverse take_add)
    moreover have "utf8_valid (take ?n s)"
    proof -
      have t: "take ?n s \<noteq> []" using utf8_next_pos [OF ne] ne by simp
      have "utf8_next (take ?n s) = utf8_next s"
        using utf8_next_prefix [of "take ?n s" "drop ?n s"] ok t utf8_next_le [of s] by simp
      with ok t show ?thesis by (simp add: utf8_valid_step)
    qed
    ultimately show ?thesis by (simp add: utf8_valid_append)
  qed auto
qed

lemma take_boundary:
  assumes "utf8_valid s" and "utf8_valid (take k s)" and "k \<le> length s"
  shows "is_char_boundary s k"
proof (cases "k = length s")
  case False
  with assms(3) have k: "k < length s" by simp
  have "utf8_chunks s = utf8_chunks (take k s) @ utf8_chunks (drop k s)"
    using utf8_chunks_append [OF assms(2), of "drop k s"] by simp
  with assms(1) have "utf8_valid (drop k s)" by (simp add: utf8_valid_def)
  then have "fst (utf8_next (drop k s))" using k by (simp add: utf8_valid_step)
  moreover have "drop k s = s ! k # drop (Suc k) s" using k by (simp add: Cons_nth_drop_Suc)
  ultimately have "\<not> is_cont (s ! k)" by (auto simp: byte_simps split: if_splits)
  with k show ?thesis by (simp add: is_char_boundary_def)
qed (simp add: is_char_boundary_def)

lemma truncate_utf8_valid: "utf8_valid s \<Longrightarrow> utf8_valid (truncate_utf8 s n)"
  using utf8_valid_take [OF _ boundary_before_boundary, of s n] boundary_before_le [of s n]
  by (simp add: truncate_utf8_def)

lemma truncate_utf8_length: "length (truncate_utf8 s n) \<le> n"
  using boundary_before_le [of s n] by (simp add: truncate_utf8_def)

lemma truncate_utf8_set: "set (truncate_utf8 s n) \<subseteq> set s"
  by (auto simp: truncate_utf8_def dest: in_set_takeD)

section \<open>Properties\<close>

text \<open>
  C40. \<open>truncate_utf8\<close> returns the longest prefix of its argument that fits in \<open>n\<close> bytes and is
  well-formed UTF-8: the result is such a prefix, and every other one is no longer.
\<close>

theorem truncate_utf8_longest:
  assumes "utf8_valid s"
  shows "prefix (truncate_utf8 s n) s \<and> length (truncate_utf8 s n) \<le> n
    \<and> utf8_valid (truncate_utf8 s n)
    \<and> (\<forall>t. prefix t s \<longrightarrow> utf8_valid t \<longrightarrow> length t \<le> n \<longrightarrow> length t \<le> length (truncate_utf8 s n))"
proof (cases "length s \<le> n")
  case True
  with assms show ?thesis by (auto simp: truncate_utf8_def prefix_length_le)
next
  case False
  let ?e = "boundary_before s n"
  have e: "?e \<le> n" "?e < length s" using boundary_before_le [of s n] False by auto
  have t: "truncate_utf8 s n = take ?e s" using False by (simp add: truncate_utf8_def)
  have "utf8_valid (take ?e s)"
    using utf8_valid_take [OF assms boundary_before_boundary] e by simp
  moreover have "length u \<le> ?e" if u: "prefix u s" "utf8_valid u" "length u \<le> n" for u
  proof (rule ccontr)
    assume "\<not> length u \<le> ?e"
    moreover have "u = take (length u) s" using u(1) by (auto simp: prefix_def)
    then have "is_char_boundary s (length u)"
      using take_boundary [OF assms, of "length u"] u prefix_length_le [OF u(1)] by simp
    ultimately show False using boundary_before_greatest [of s n "length u"] u(3) by simp
  qed
  ultimately show ?thesis using e by (simp add: t take_is_prefix)
qed

theorem truncate_utf8_longest_witness:
  "utf8_valid [CHR ''a'', CHR 0xC3, CHR 0xA9] \<and> truncate_utf8 [CHR ''a'', CHR 0xC3, CHR 0xA9] 2 = ''a''
   \<and> prefix (truncate_utf8 [CHR ''a'', CHR 0xC3, CHR 0xA9] 2) [CHR ''a'', CHR 0xC3, CHR 0xA9]"
proof -
  have v: "utf8_valid [CHR ''a'', CHR 0xC3, CHR 0xA9]"
    by code_simp
  have "truncate_utf8 [CHR ''a'', CHR 0xC3, CHR 0xA9] 2 = ''a''"
    by code_simp
  with v truncate_utf8_longest [OF v, of 2] show ?thesis by simp
qed

end
