(* ===== verification/Config.thy ===== *)
theory Config
  imports Lib_Helpers
begin

text \<open>
  The configuration helpers and the private RPC socket of \<open>config.rs\<close>. The environment is a partial
  function (\<open>None\<close> for a variable that is unset or not Unicode). The file system is the map from the
  paths the program names to their kind and permission bits; every operation on it can also fail
  for a reason outside the model, which the predicate \<open>fault\<close> decides by the name of the call.
  Permission bits are written in hexadecimal: \<open>0x1C0\<close> is 0700, \<open>0x3F\<close> is 0077, \<open>0x180\<close> is 0600 and
  \<open>0x1FF\<close> is 0777.
\<close>

unbundle bit_operations_syntax

section \<open>Environment\<close>

type_synonym env = "string \<Rightarrow> string option"

definition env_opt :: "env \<Rightarrow> string \<Rightarrow> string option" where
  "env_opt env key = (case env key of Some v \<Rightarrow> if v \<noteq> [] then Some v else None | None \<Rightarrow> None)"

definition configured_database :: "env \<Rightarrow> string" where
  "configured_database env =
     (case env_opt env ''ALLGRES_DATABASE'' of Some d \<Rightarrow> d | None \<Rightarrow> DEFAULT_DB)"

definition configured_http_addr :: "env \<Rightarrow> string" where
  "configured_http_addr env =
     (case env_opt env ''ALLGRES_HTTP_ADDR'' of Some a \<Rightarrow> a | None \<Rightarrow> DEFAULT_HTTP_ADDR)"

section \<open>Paths\<close>

text \<open>\<open>Path::join\<close> with a relative second part.\<close>

definition path_join :: "string \<Rightarrow> string \<Rightarrow> string" where
  "path_join a b = (if a = [] then b else if last a = CHR ''/'' then a @ b else a @ ''/'' @ b)"

text \<open>\<open>datadir\<close> is the C string \<open>DataDir\<close> points to, if it points anywhere.\<close>

definition data_directory :: "string option \<Rightarrow> string option" where
  "data_directory datadir =
     (case datadir of
        None \<Rightarrow> None
      | Some s \<Rightarrow> if utf8_valid s then (if s \<noteq> [] then Some s else None) else None)"

definition temp_dir :: "env \<Rightarrow> string" where
  "temp_dir env = (case env ''TMPDIR'' of Some d \<Rightarrow> d | None \<Rightarrow> ''/tmp'')"

definition socket_dir :: "env \<Rightarrow> string option \<Rightarrow> string" where
  "socket_dir env datadir =
     (case env_opt env ''ALLGRES_SOCKET_DIR'' of
        Some dir \<Rightarrow> dir
      | None \<Rightarrow>
          (case data_directory datadir of
             Some base \<Rightarrow> path_join base ''allgres''
           | None \<Rightarrow> path_join (temp_dir env) ''allgres''))"

definition rpc_socket_path :: "env \<Rightarrow> string option \<Rightarrow> string" where
  "rpc_socket_path env datadir = path_join (socket_dir env datadir) ''runtime.sock''"

section \<open>The socket directory\<close>

datatype kind = Directory | Regular | Socket

record node =
  kind :: kind
  mode :: "32 word"

type_synonym fs = "string \<rightharpoonup> node"

definition fs_create_dir :: "(string \<Rightarrow> bool) \<Rightarrow> 32 word \<Rightarrow> string \<Rightarrow> 32 word \<Rightarrow> (fs, unit) io" where
  "fs_create_dir fault umask dir m fs =
     (if fault ''mkdir'' then (Inl ''mkdir'', fs)
      else (Inr (), fs(dir \<mapsto> \<lparr>kind = Directory, mode = m AND NOT umask\<rparr>)))"

definition fs_metadata :: "(string \<Rightarrow> bool) \<Rightarrow> string \<Rightarrow> (fs, node) io" where
  "fs_metadata fault p fs =
     (if fault ''stat'' then (Inl ''stat'', fs)
      else case fs p of Some n \<Rightarrow> (Inr n, fs) | None \<Rightarrow> (Inl ''stat: no such file'', fs))"

definition fs_set_permissions :: "(string \<Rightarrow> bool) \<Rightarrow> string \<Rightarrow> 32 word \<Rightarrow> (fs, unit) io" where
  "fs_set_permissions fault p m fs =
     (case fs p of
        Some n \<Rightarrow> if fault ''chmod'' then (Inl ''chmod'', fs) else (Inr (), fs(p \<mapsto> n\<lparr>mode := m\<rparr>))
      | None \<Rightarrow> (Inl ''chmod: no such file'', fs))"

definition ensure_socket_dir :: "(string \<Rightarrow> bool) \<Rightarrow> 32 word \<Rightarrow> string \<Rightarrow> (fs, unit) io" where
  "ensure_socket_dir fault umask dir =
     try_bind (\<lambda>fs. if fs dir = None then fs_create_dir fault umask dir 0x1C0 fs else io_ok () fs) (\<lambda>_.
     try_bind (fs_metadata fault dir) (\<lambda>meta.
       if kind meta \<noteq> Directory then io_err (dir @ '' exists and is not a directory'')
       else if mode meta AND 0x3F \<noteq> 0 then fs_set_permissions fault dir 0x1C0
       else io_ok ()))"

section \<open>Binding the socket\<close>

text \<open>\<open>let _ = fs::remove_file(..)\<close>: the result is ignored.\<close>

definition fs_remove_file :: "(string \<Rightarrow> bool) \<Rightarrow> string \<Rightarrow> (fs, unit) io" where
  "fs_remove_file fault p fs =
     (case fs p of
        Some n \<Rightarrow> if fault ''unlink'' \<or> kind n = Directory then (Inr (), fs) else (Inr (), fs(p := None))
      | None \<Rightarrow> (Inr (), fs))"

definition fs_bind :: "(string \<Rightarrow> bool) \<Rightarrow> 32 word \<Rightarrow> string \<Rightarrow> (fs, unit) io" where
  "fs_bind fault umask p fs =
     (if fault ''bind'' \<or> fs p \<noteq> None then (Inl ''bind'', fs)
      else (Inr (), fs(p \<mapsto> \<lparr>kind = Socket, mode = 0x1FF AND NOT umask\<rparr>)))"

definition bind_rpc_socket ::
    "env \<Rightarrow> string option \<Rightarrow> (string \<Rightarrow> bool) \<Rightarrow> 32 word \<Rightarrow> (fs, string) io" where
  "bind_rpc_socket env datadir fault umask =
     (let dir = socket_dir env datadir; path = path_join dir ''runtime.sock'' in
      try_bind (ensure_socket_dir fault umask dir) (\<lambda>_.
      try_bind (fs_remove_file fault path) (\<lambda>_.
      try_bind (fs_bind fault umask path) (\<lambda>_.
      try_bind (fs_set_permissions fault path 0x180) (\<lambda>_.
      io_ok path)))))"

section \<open>Facts\<close>

definition private_dir :: "fs \<Rightarrow> string \<Rightarrow> bool" where
  "private_dir fs dir \<longleftrightarrow> (case fs dir of Some n \<Rightarrow> kind n = Directory \<and> mode n AND 0x3F = 0 | None \<Rightarrow> False)"

lemma private_mode: "(0x1C0 AND m) AND 0x3F = (0 :: 32 word)" "0x1C0 AND 0x3F = (0 :: 32 word)"
proof -
  show "0x1C0 AND 0x3F = (0 :: 32 word)" by simp
  then show "(0x1C0 AND m) AND 0x3F = (0 :: 32 word)"
    by (metis and.assoc and.commute bit.conj_zero_left)
qed

lemma fs_set_permissions_Inr:
  "fs_set_permissions fault p m fs = (Inr x, fs') \<longleftrightarrow>
     (\<exists>n. fs p = Some n \<and> \<not> fault ''chmod'' \<and> fs' = fs(p \<mapsto> n\<lparr>mode := m\<rparr>))"
  by (auto simp: fs_set_permissions_def split: option.splits if_splits)

lemma fs_bind_Inr:
  "fs_bind fault umask p fs = (Inr x, fs') \<longleftrightarrow>
     \<not> fault ''bind'' \<and> fs p = None \<and> fs' = fs(p \<mapsto> \<lparr>kind = Socket, mode = 0x1FF AND NOT umask\<rparr>)"
  by (auto simp: fs_bind_def split: if_splits)

lemma fs_metadata_Inr: "fs_metadata fault p fs = (Inr n, fs') \<longleftrightarrow> \<not> fault ''stat'' \<and> fs p = Some n \<and> fs' = fs"
  by (auto simp: fs_metadata_def split: option.splits)

lemma fs_remove_file_other:
  "fs_remove_file fault p fs = (x, fs') \<Longrightarrow> fs' = fs \<or> fs' = fs(p := None)"
  by (auto simp: fs_remove_file_def split: option.splits if_splits)

lemma ensure_socket_dir_private:
  assumes "ensure_socket_dir fault umask dir fs = (Inr (), fs')"
  shows "private_dir fs' dir"
proof -
  from assms obtain meta fs1 where "fs1 dir = Some meta" "kind meta = Directory"
    and "if mode meta AND 0x3F \<noteq> 0 then fs_set_permissions fault dir 0x1C0 fs1 = (Inr (), fs') else fs' = fs1"
    by (auto simp: ensure_socket_dir_def try_bind_Inr fs_metadata_Inr split: if_splits)
  then show ?thesis
    by (auto simp: fs_set_permissions_Inr private_dir_def private_mode split: if_splits)
qed

lemma path_join_longer: "length a < length (path_join a ''runtime.sock'')"
  by (simp add: path_join_def)

lemma path_join_neq: "path_join a ''runtime.sock'' \<noteq> a"
  by (metis path_join_longer less_irrefl)

lemma bind_rpc_socket_Inr:
  assumes "bind_rpc_socket env datadir fault umask fs = (Inr path, fs')"
  shows "\<exists>fs1. ensure_socket_dir fault umask (socket_dir env datadir) fs = (Inr (), fs1)
    \<and> path = rpc_socket_path env datadir
    \<and> fs' = fs1(path \<mapsto> \<lparr>kind = Socket, mode = 0x180\<rparr>)"
proof -
  let ?dir = "socket_dir env datadir" and ?p = "rpc_socket_path env datadir"
  from assms obtain fs1 fs2 fs3 where e: "ensure_socket_dir fault umask ?dir fs = (Inr (), fs1)"
    and r: "fs_remove_file fault ?p fs1 = (Inr (), fs2)"
    and b: "fs_bind fault umask ?p fs2 = (Inr (), fs3)"
    and c: "fs_set_permissions fault ?p 0x180 fs3 = (Inr (), fs')" and p: "path = ?p"
    by (auto simp: bind_rpc_socket_def try_bind_Inr Let_def rpc_socket_path_def)
  from b c have "fs' = fs2(?p \<mapsto> \<lparr>kind = Socket, mode = 0x180\<rparr>)"
    by (auto simp: fs_bind_Inr fs_set_permissions_Inr)
  with fs_remove_file_other [OF r] e p show ?thesis by auto
qed

section \<open>Properties\<close>

text \<open>
  C39. When the runtime's RPC socket is up, it is at the path the web worker connects to, only its
  owner may open it (mode 0600), and it lies in a directory without any permission for group or
  others, which was already so before the socket came into being.
\<close>

theorem rpc_socket_private:
  assumes "bind_rpc_socket env datadir fault umask fs = (Inr path, fs')"
  shows "path = rpc_socket_path env datadir
    \<and> fs' path = Some \<lparr>kind = Socket, mode = 0x180\<rparr>
    \<and> private_dir fs' (socket_dir env datadir)
    \<and> (\<exists>fs1. ensure_socket_dir fault umask (socket_dir env datadir) fs = (Inr (), fs1)
         \<and> private_dir fs1 (socket_dir env datadir))"
proof -
  obtain fs1 where e: "ensure_socket_dir fault umask (socket_dir env datadir) fs = (Inr (), fs1)"
    and p: "path = rpc_socket_path env datadir"
    and f: "fs' = fs1(path \<mapsto> \<lparr>kind = Socket, mode = 0x180\<rparr>)"
    using bind_rpc_socket_Inr [OF assms] by blast
  have "path \<noteq> socket_dir env datadir" using path_join_neq by (simp add: p rpc_socket_path_def)
  with ensure_socket_dir_private [OF e] e p f show ?thesis by (auto simp: private_dir_def)
qed

theorem rpc_socket_private_witness:
  "private_dir (snd (bind_rpc_socket (\<lambda>_. None) (Some ''/pg'') (\<lambda>_. False) 0x12
      [''/pg/allgres'' \<mapsto> \<lparr>kind = Directory, mode = 0x1ED\<rparr>])) ''/pg/allgres''"
proof -
  let ?fs = "[''/pg/allgres'' \<mapsto> \<lparr>kind = Directory, mode = 0x1ED\<rparr>]"
  have v: "utf8_valid ''/pg''" by code_simp
  then have d: "socket_dir (\<lambda>_. None) (Some ''/pg'') = ''/pg/allgres''"
    by (simp add: socket_dir_def env_opt_def data_directory_def path_join_def)
  obtain res fs' where b: "bind_rpc_socket (\<lambda>_. None) (Some ''/pg'') (\<lambda>_. False) 0x12 ?fs = (res, fs')"
    by fastforce
  then have "res = Inr ''/pg/allgres/runtime.sock''"
    by (simp add: bind_rpc_socket_def d ensure_socket_dir_def fs_set_permissions_def fs_bind_def
        fs_remove_file_def fs_metadata_def path_join_def try_bind_def io_ok_def Let_def)
  with rpc_socket_private [of "\<lambda>_. None" "Some ''/pg''" "\<lambda>_. False" "0x12" ?fs] b d show ?thesis by simp
qed

end
