(* ===== verification/Outbound_Guard.thy ===== *)
theory Outbound_Guard
  imports Json Lib_Helpers
begin

text \<open>
  The address guard of the outbound HTTP client (the first part of \<open>outbound.rs\<close>): which addresses
  are blocked, and the resolver that refuses a host one of whose addresses is. IPv4 and IPv6
  addresses are words; the name service is an argument.
\<close>

unbundle bit_operations_syntax

datatype ureq_error = HostNotFound | Timeout | Io string | OtherError string

section \<open>Blocked addresses\<close>

text \<open>\<open>Ipv4Addr::octets\<close>: the four bytes, most significant first.\<close>

definition octet :: "nat \<Rightarrow> 32 word \<Rightarrow> nat" where
  "octet i v = unat v div 256 ^ (3 - i) mod 256"

definition is_blocked_ipv4 :: "32 word \<Rightarrow> bool" where
  "is_blocked_ipv4 v \<longleftrightarrow>
     octet 0 v = 0
     \<or> octet 0 v = 10
     \<or> octet 0 v = 127
     \<or> (octet 0 v = 169 \<and> octet 1 v = 254)
     \<or> (octet 0 v = 172 \<and> 16 \<le> octet 1 v \<and> octet 1 v \<le> 31)
     \<or> (octet 0 v = 192 \<and> octet 1 v = 168)
     \<or> (octet 0 v = 192 \<and> octet 1 v = 0 \<and> (octet 2 v = 0 \<or> octet 2 v = 2))
     \<or> (octet 0 v = 198 \<and> (octet 1 v = 18 \<or> octet 1 v = 19))
     \<or> (octet 0 v = 100 \<and> 64 \<le> octet 1 v \<and> octet 1 v \<le> 127)
     \<or> 224 \<le> octet 0 v"

text \<open>\<open>Ipv6Addr::to_ipv4_mapped\<close>: \<open>::ffff:a.b.c.d\<close>. \<open>segments()[0]\<close> are the first 16 bits.\<close>

definition to_ipv4_mapped :: "128 word \<Rightarrow> 32 word option" where
  "to_ipv4_mapped v = (if drop_bit 32 v = 0xFFFF then Some (ucast v) else None)"

definition segment0 :: "128 word \<Rightarrow> 16 word" where
  "segment0 v = ucast (drop_bit 112 v)"

fun is_blocked_ip :: "ip_addr \<Rightarrow> bool" where
  "is_blocked_ip (V4 v) = is_blocked_ipv4 v"
| "is_blocked_ip (V6 v) =
     (case to_ipv4_mapped v of
        Some v4 \<Rightarrow> is_blocked_ipv4 v4
      | None \<Rightarrow>
          if v = 1 \<or> v = 0 then True
          else segment0 v AND 0xFE00 = 0xFC00 \<or> segment0 v AND 0xFFC0 = 0xFE80)"

section \<open>The resolver\<close>

definition guarded_resolve :: "bool \<Rightarrow> ureq_error + ip_addr list \<Rightarrow> ureq_error + ip_addr list" where
  "guarded_resolve allow_private answer =
     (case answer of
        Inl e \<Rightarrow> Inl e
      | Inr addrs \<Rightarrow>
          if \<not> allow_private \<and> list_ex is_blocked_ip addrs then Inl HostNotFound else Inr addrs)"

section \<open>CIDR blocks\<close>

definition in_cidr4 :: "32 word \<Rightarrow> nat \<times> nat \<Rightarrow> bool" where
  "in_cidr4 v net = (case net of (base, len) \<Rightarrow> unat v div 2 ^ (32 - len) = base div 2 ^ (32 - len))"

definition ipv4 :: "nat \<Rightarrow> nat \<Rightarrow> nat \<Rightarrow> nat \<Rightarrow> nat" where
  "ipv4 a b c d = ((a * 256 + b) * 256 + c) * 256 + d"

definition blocked_nets :: "(nat \<times> nat) list" where
  "blocked_nets =
     [(ipv4 0 0 0 0, 8), (ipv4 10 0 0 0, 8), (ipv4 127 0 0 0, 8), (ipv4 169 254 0 0, 16),
      (ipv4 172 16 0 0, 12), (ipv4 192 168 0 0, 16), (ipv4 192 0 0 0, 24), (ipv4 192 0 2 0, 24),
      (ipv4 198 18 0 0, 15), (ipv4 100 64 0 0, 10), (ipv4 224 0 0 0, 3)]"

lemma octets_unat:
  fixes v :: "32 word"
  obtains a b c d where "a < 256" "b < 256" "c < 256" "d < 256" "unat v = ipv4 a b c d"
    "octet 0 v = a" "octet 1 v = b" "octet 2 v = c"
proof -
  let ?u = "unat v"
  have u: "?u < 2 ^ 32" using unsigned_less [of v, where ?'a = nat] by simp
  show thesis
  proof (rule that)
    show "?u div 16777216 < 256" using u by (simp add: less_mult_imp_div_less)
    show "?u div 65536 mod 256 < 256" "?u div 256 mod 256 < 256" "?u mod 256 < 256" by simp_all
    have "?u = ?u div 256 * 256 + ?u mod 256" by simp
    also have "?u div 256 = ?u div 65536 * 256 + ?u div 256 mod 256"
      using div_mult_mod_eq [of "?u div 256" 256] by (simp add: div_mult2_eq [symmetric])
    also have "?u div 65536 = ?u div 16777216 * 256 + ?u div 65536 mod 256"
      using div_mult_mod_eq [of "?u div 65536" 256] by (simp add: div_mult2_eq [symmetric])
    finally show "?u = ipv4 (?u div 16777216) (?u div 65536 mod 256) (?u div 256 mod 256) (?u mod 256)"
      by (simp add: ipv4_def)
    show "octet 0 v = ?u div 16777216" using u by (simp add: octet_def less_mult_imp_div_less)
  qed (simp_all add: octet_def)
qed

text \<open>Membership in a block, read off the octets.\<close>

lemma cidr8: "b < 256 \<Longrightarrow> c < 256 \<Longrightarrow> d < 256 \<Longrightarrow> ipv4 a b c d div 16777216 = a"
  and cidr16: "c < 256 \<Longrightarrow> d < 256 \<Longrightarrow> ipv4 a b c d div 65536 = a * 256 + b"
  and cidr24: "d < 256 \<Longrightarrow> ipv4 a b c d div 256 = (a * 256 + b) * 256 + c"
  by (auto simp: ipv4_def)

lemma base256: "b < 256 \<Longrightarrow> m < 256 \<Longrightarrow> a * 256 + b = n * 256 + m \<longleftrightarrow> a = n \<and> b = (m :: nat)"
proof
  assume "b < 256" "m < 256" "a * 256 + b = n * 256 + m"
  then have "(a * 256 + b) div 256 = a" "(n * 256 + m) div 256 = n" by simp_all
  with \<open>a * 256 + b = n * 256 + m\<close> show "a = n \<and> b = m" by simp
qed simp

lemma div_interval: "0 < n \<Longrightarrow> x div n = q \<longleftrightarrow> n * q \<le> x \<and> x < n * Suc q" for n x q :: nat
proof
  assume "0 < n" "x div n = q"
  then show "n * q \<le> x \<and> x < n * Suc q"
    using dividend_less_times_div [of n x] by auto
qed (auto intro: div_nat_eqI)

lemma octet_ranges:
  fixes a b :: nat
  assumes "b < 256"
  shows "(a * 256 + b) div 16 = 2753 \<longleftrightarrow> a = 172 \<and> 16 \<le> b \<and> b \<le> 31"
    and "(a * 256 + b) div 2 = 25353 \<longleftrightarrow> a = 198 \<and> (b = 18 \<or> b = 19)"
    and "(a * 256 + b) div 64 = 401 \<longleftrightarrow> a = 100 \<and> 64 \<le> b \<and> b \<le> 127"
    and "a < 256 \<Longrightarrow> (a * 256 + b) div 8192 = 7 \<longleftrightarrow> 224 \<le> a"
proof -
  have out: "a * 256 + b < n * 256 \<or> Suc n * 256 \<le> a * 256 + b" if "a \<noteq> n" for n
  proof -
    have "(a * 256 + b) div 256 \<noteq> n" using assms that by simp
    then show ?thesis by (auto simp: div_interval mult.commute)
  qed
  show "(a * 256 + b) div 16 = 2753 \<longleftrightarrow> a = 172 \<and> 16 \<le> b \<and> b \<le> 31"
    using out [of 172] by (cases "a = 172") (auto simp: div_interval)
  show "(a * 256 + b) div 2 = 25353 \<longleftrightarrow> a = 198 \<and> (b = 18 \<or> b = 19)"
    using out [of 198] by (cases "a = 198") (auto simp: div_interval)
  show "(a * 256 + b) div 64 = 401 \<longleftrightarrow> a = 100 \<and> 64 \<le> b \<and> b \<le> 127"
    using out [of 100] by (cases "a = 100") (auto simp: div_interval)
  show "a < 256 \<Longrightarrow> (a * 256 + b) div 8192 = 7 \<longleftrightarrow> 224 \<le> a"
    using assms by (auto simp: div_interval)
qed

lemma in_cidr4_octets:
  assumes "a < 256" "b < 256" "c < 256" "d < 256" and "unat v = ipv4 a b c d"
  shows "in_cidr4 v (ipv4 n 0 0 0, 8) \<longleftrightarrow> a = n"
    and "m < 256 \<Longrightarrow> in_cidr4 v (ipv4 n m 0 0, 16) \<longleftrightarrow> a = n \<and> b = m"
    and "m < 256 \<Longrightarrow> k < 256 \<Longrightarrow> in_cidr4 v (ipv4 n m k 0, 24) \<longleftrightarrow> a = n \<and> b = m \<and> c = k"
    and "in_cidr4 v (ipv4 172 16 0 0, 12) \<longleftrightarrow> a = 172 \<and> 16 \<le> b \<and> b \<le> 31"
    and "in_cidr4 v (ipv4 198 18 0 0, 15) \<longleftrightarrow> a = 198 \<and> (b = 18 \<or> b = 19)"
    and "in_cidr4 v (ipv4 100 64 0 0, 10) \<longleftrightarrow> a = 100 \<and> 64 \<le> b \<and> b \<le> 127"
    and "in_cidr4 v (ipv4 224 0 0 0, 3) \<longleftrightarrow> 224 \<le> a"
proof -
  have s: "unat v div 65536 = a * 256 + b" using cidr16 assms by simp
  have d: "unat v div (65536 * k) = (a * 256 + b) div k" for k by (simp add: div_mult2_eq s)
  show "in_cidr4 v (ipv4 n 0 0 0, 8) \<longleftrightarrow> a = n"
    using assms by (simp add: in_cidr4_def cidr8)
  show "m < 256 \<Longrightarrow> in_cidr4 v (ipv4 n m 0 0, 16) \<longleftrightarrow> a = n \<and> b = m"
    using assms(2) s by (simp add: in_cidr4_def cidr16 base256)
  show "m < 256 \<Longrightarrow> k < 256 \<Longrightarrow> in_cidr4 v (ipv4 n m k 0, 24) \<longleftrightarrow> a = n \<and> b = m \<and> c = k"
  proof -
    assume mk: "m < 256" "k < 256"
    have "in_cidr4 v (ipv4 n m k 0, 24) \<longleftrightarrow> unat v div 256 = ipv4 n m k 0 div 256"
      by (simp add: in_cidr4_def)
    also have "\<dots> \<longleftrightarrow> (a * 256 + b) * 256 + c = (n * 256 + m) * 256 + k"
      using cidr24 [OF assms(4), of a b c] cidr24 [of 0 n m k] assms(5) by (simp only: zero_less_numeral)
    finally show ?thesis
      using base256 [OF assms(3) mk(2), of "a * 256 + b" "n * 256 + m"] base256 [OF assms(2) mk(1), of a n]
      by blast
  qed
  show "in_cidr4 v (ipv4 172 16 0 0, 12) \<longleftrightarrow> a = 172 \<and> 16 \<le> b \<and> b \<le> 31"
    using d [of 16] by (simp add: in_cidr4_def ipv4_def octet_ranges [OF assms(2)])
  show "in_cidr4 v (ipv4 198 18 0 0, 15) \<longleftrightarrow> a = 198 \<and> (b = 18 \<or> b = 19)"
    using d [of 2] by (simp add: in_cidr4_def ipv4_def octet_ranges [OF assms(2)])
  show "in_cidr4 v (ipv4 100 64 0 0, 10) \<longleftrightarrow> a = 100 \<and> 64 \<le> b \<and> b \<le> 127"
    using d [of 64] by (simp add: in_cidr4_def ipv4_def octet_ranges [OF assms(2)])
  show "in_cidr4 v (ipv4 224 0 0 0, 3) \<longleftrightarrow> 224 \<le> a"
    using assms(1) d [of 8192] by (simp add: in_cidr4_def ipv4_def octet_ranges [OF assms(2)])
qed

lemma is_blocked_ipv4_nets: "is_blocked_ipv4 v \<longleftrightarrow> list_ex (in_cidr4 v) blocked_nets"
proof -
  obtain a b c d where o: "a < 256" "b < 256" "c < 256" "d < 256" "unat v = ipv4 a b c d"
    "octet 0 v = a" "octet 1 v = b" "octet 2 v = c" by (rule octets_unat)
  note n = in_cidr4_octets [OF o(1-5)]
  show ?thesis
    unfolding is_blocked_ipv4_def blocked_nets_def o(6-8) by (simp add: n) blast
qed

section \<open>IPv6 blocks\<close>

lemma high_bits: "x AND NOT (mask n) = push_bit n (drop_bit n (x :: 'a :: len word))"
  by (rule bit_word_eqI) (auto simp: bit_simps)

lemma segment_prefix:
  fixes x :: "16 word"
  shows "x AND 0xFE00 = 0xFC00 \<longleftrightarrow> drop_bit 9 x = 0x7E" "x AND 0xFFC0 = 0xFE80 \<longleftrightarrow> drop_bit 6 x = 0x3FA"
proof -
  have "drop_bit 9 (x AND NOT (mask 9)) = drop_bit 9 x" "drop_bit 6 (x AND NOT (mask 6)) = drop_bit 6 x"
    by (rule bit_word_eqI; auto simp: bit_simps dest: bit_imp_le_length)+
  moreover have "(0xFE00 :: 16 word) = NOT (mask 9)" "(0xFFC0 :: 16 word) = NOT (mask 6)"
    by (simp_all add: mask_eq_exp_minus_1)
  moreover have "push_bit 9 0x7E = (0xFC00 :: 16 word)" "push_bit 6 0x3FA = (0xFE80 :: 16 word)" by simp_all
  moreover have "drop_bit 9 (0xFC00 :: 16 word) = 0x7E" "drop_bit 6 (0xFE80 :: 16 word) = 0x3FA" by simp_all
  ultimately show "x AND 0xFE00 = 0xFC00 \<longleftrightarrow> drop_bit 9 x = 0x7E" "x AND 0xFFC0 = 0xFE80 \<longleftrightarrow> drop_bit 6 x = 0x3FA"
    by (metis high_bits)+
qed

lemma segment0_prefix:
  "drop_bit 9 (segment0 v) = 0x7E \<longleftrightarrow> drop_bit 121 v = 0x7E"
  "drop_bit 6 (segment0 v) = 0x3FA \<longleftrightarrow> drop_bit 118 v = 0x3FA"
proof -
  have "unat (segment0 v) = unat v div 2 ^ 112"
  proof -
    have "unat v < 2 ^ 128" using unsigned_less [of v, where ?'a = nat] by simp
    then have "unat v div 2 ^ 112 < 2 ^ 16" by (simp add: less_mult_imp_div_less)
    then have "take_bit 16 (drop_bit 112 (unat v)) = unat v div 2 ^ 112"
      by (simp only: take_bit_eq_mod drop_bit_eq_div mod_less)
    then show ?thesis by (simp only: segment0_def unsigned_ucast_eq unat_drop_bit_eq) simp
  qed
  then have "unat (drop_bit 9 (segment0 v)) = unat (drop_bit 121 v)" "unat (drop_bit 6 (segment0 v)) = unat (drop_bit 118 v)"
    unfolding unat_drop_bit_eq unfolding drop_bit_eq_div by (simp_all only: div_exp_eq) simp_all
  moreover have "unat (0x7E :: 16 word) = unat (0x7E :: 128 word)" "unat (0x3FA :: 16 word) = unat (0x3FA :: 128 word)"
    by simp_all
  ultimately show "drop_bit 9 (segment0 v) = 0x7E \<longleftrightarrow> drop_bit 121 v = 0x7E"
    "drop_bit 6 (segment0 v) = 0x3FA \<longleftrightarrow> drop_bit 118 v = 0x3FA"
    by (metis word_unat_eq_iff)+
qed

section \<open>Properties\<close>

text \<open>
  C19. The guard blocks exactly the documented networks: for IPv4 the loopback, private, link-local,
  CGNAT, protocol, benchmarking, multicast and reserved blocks in CIDR notation; for IPv6 the
  IPv4-mapped form of those, the unspecified and the loopback address, \<open>fc00::/7\<close> and \<open>fe80::/10\<close>.
\<close>

theorem is_blocked_ip_cidr:
  "is_blocked_ip (V4 v) = list_ex (in_cidr4 v) blocked_nets
   \<and> is_blocked_ip (V6 w) =
      (if drop_bit 32 w = 0xFFFF then list_ex (in_cidr4 (ucast w)) blocked_nets
       else w = 0 \<or> w = 1 \<or> drop_bit 121 w = 0x7E \<or> drop_bit 118 w = 0x3FA)"
  by (auto simp: is_blocked_ipv4_nets to_ipv4_mapped_def segment_prefix segment0_prefix)

text \<open>
  The resolver hands out addresses only when none of them is blocked, unless private addresses
  are allowed; a host with one blocked address among good ones is refused as a whole, and an answer
  without blocked addresses is passed on unchanged.
\<close>

lemma guarded_resolve_safe:
  "guarded_resolve allow answer = Inr addrs \<longleftrightarrow>
     answer = Inr addrs \<and> (allow \<or> list_all (\<lambda>a. \<not> is_blocked_ip a) addrs)"
  by (auto simp: guarded_resolve_def list_ex_iff list_all_iff split: sum.splits)

end
