(* ===== verification/Rpc.thy ===== *)
theory Rpc
  imports Json Lib_Helpers
begin

text \<open>
  The RPC endpoint of the runtime worker (\<open>rpc.rs\<close>): the shape check of identifiers and the handler
  of one connection. Reading and writing JSON text is the crate's and comes in through a
  \<open>codec\<close>; \<open>dashboard_rpc\<close> runs against the database session \<open>'s\<close> and is an argument here.
\<close>

record codec =
  from_str :: "string \<Rightarrow> json option"
  to_str :: "json \<Rightarrow> string"

section \<open>Identifiers\<close>

definition valid_uuid :: "string \<Rightarrow> bool" where
  "valid_uuid s \<longleftrightarrow>
     length s = 36
     \<and> list_all (\<lambda>(i, b). if i \<in> {8, 13, 18, 23} then b = CHR ''-'' else is_ascii_hexdigit b)
         (enumerate 0 s)"

section \<open>One connection\<close>

text \<open>
  \<open>incoming\<close> is what \<open>read_to_end\<close> yields (\<open>None\<close> for a read error); \<open>take\<close> ends the stream after
  \<open>MAX_REQUEST_BYTES\<close>. The result is what is written back, and the session.
\<close>

definition rpc_error :: "codec \<Rightarrow> string \<Rightarrow> string" where
  "rpc_error c e = to_str c (jobj [(''ok'', JBool False), (''error'', JString e)])"

definition handle_rpc_stream ::
    "codec \<Rightarrow> (string \<Rightarrow> 's \<Rightarrow> string \<times> 's) \<Rightarrow> bool \<Rightarrow> string option \<Rightarrow> 's \<Rightarrow> string \<times> 's" where
  "handle_rpc_stream c dashboard_rpc ready incoming s =
     (case incoming of
        None \<Rightarrow> (rpc_error c ''rpc_read_failed'', s)
      | Some bytes \<Rightarrow>
          let body = take MAX_REQUEST_BYTES bytes in
          if utf8_valid body \<and> from_str c body \<noteq> None then
            (if ready then dashboard_rpc body s
             else (rpc_error c ''extension_not_installed'', s))
          else (rpc_error c ''invalid_json_request'', s))"

section \<open>Properties\<close>

definition hex_group :: "nat \<Rightarrow> string \<Rightarrow> bool" where
  "hex_group n g \<longleftrightarrow> length g = n \<and> list_all is_ascii_hexdigit g"

definition uuid_of :: "string list \<Rightarrow> string" where
  "uuid_of gs = (case gs of [] \<Rightarrow> [] | g # gs \<Rightarrow> g @ concat (map (\<lambda>g. CHR ''-'' # g) gs))"

lemma list_all_enumerate:
  "list_all P (enumerate k s) \<longleftrightarrow> (\<forall>i < length s. P (k + i, s ! i))"
  by (auto simp: list_all_length nth_enumerate_eq)

lemma valid_uuid_nth:
  "valid_uuid s \<longleftrightarrow> length s = 36 \<and>
     (\<forall>i < 36. if i \<in> {8, 13, 18, 23} then s ! i = CHR ''-'' else is_ascii_hexdigit (s ! i))"
  by (simp add: valid_uuid_def list_all_enumerate cong: conj_cong)

lemma hex_group_slice:
  assumes "valid_uuid s" and "a + n \<le> 36" and "{a..<a + n} \<inter> {8, 13, 18, 23} = {}"
  shows "hex_group n (take n (drop a s))"
proof -
  have l: "length s = 36" using assms(1) by (simp add: valid_uuid_def)
  have "is_ascii_hexdigit (take n (drop a s) ! i)" if "i < n" for i
  proof -
    have "a + i \<notin> {8, 13, 18, 23}" using assms(3) that by auto
    with assms(1,2) that l show ?thesis by (auto simp: valid_uuid_nth)
  qed
  with l assms(2) show ?thesis by (simp add: hex_group_def list_all_length)
qed

lemma slice_step:
  "n < length s \<Longrightarrow> s ! n = c \<Longrightarrow> drop n s = c # drop (Suc n) s"
  by (metis Cons_nth_drop_Suc)

lemma valid_uuid_split:
  assumes "valid_uuid s"
  shows "s = uuid_of [take 8 s, take 4 (drop 9 s), take 4 (drop 14 s), take 4 (drop 19 s), take 12 (drop 24 s)]"
proof -
  have l: "length s = 36" using assms by (simp add: valid_uuid_def)
  have d: "drop 8 s = CHR ''-'' # drop 9 s" "drop 13 s = CHR ''-'' # drop 14 s"
    "drop 18 s = CHR ''-'' # drop 19 s" "drop 23 s = CHR ''-'' # drop 24 s"
    using assms slice_step [of 8 s] slice_step [of 13 s] slice_step [of 18 s] slice_step [of 23 s]
    by (simp_all add: valid_uuid_nth)
  have "s = take 8 s @ CHR ''-'' # drop 9 s" using d(1) by (metis append_take_drop_id)
  moreover have "drop 9 s = take 4 (drop 9 s) @ CHR ''-'' # drop 14 s"
    using d(2) append_take_drop_id [of 4 "drop 9 s"] by simp
  moreover have "drop 14 s = take 4 (drop 14 s) @ CHR ''-'' # drop 19 s"
    using d(3) append_take_drop_id [of 4 "drop 14 s"] by simp
  moreover have "drop 19 s = take 4 (drop 19 s) @ CHR ''-'' # take 12 (drop 24 s)"
    using d(4) append_take_drop_id [of 4 "drop 19 s"] l by simp
  ultimately show ?thesis by (simp add: uuid_of_def)
qed

text \<open>
  \<open>valid_uuid\<close> accepts exactly the strings of five groups of 8, 4, 4, 4 and 12 hexadecimal digits
  separated by dashes, so an accepted identifier contains nothing that could leave a quoted literal.
\<close>

lemma valid_uuid_iff:
  "valid_uuid s \<longleftrightarrow>
     (\<exists>a b c d e. s = uuid_of [a, b, c, d, e] \<and> hex_group 8 a \<and> hex_group 4 b \<and> hex_group 4 c
        \<and> hex_group 4 d \<and> hex_group 12 e)"
proof
  assume v: "valid_uuid s"
  show "\<exists>a b c d e. s = uuid_of [a, b, c, d, e] \<and> hex_group 8 a \<and> hex_group 4 b \<and> hex_group 4 c
        \<and> hex_group 4 d \<and> hex_group 12 e"
    using valid_uuid_split [OF v] hex_group_slice [OF v, of 0 8] hex_group_slice [OF v, of 9 4]
      hex_group_slice [OF v, of 14 4] hex_group_slice [OF v, of 19 4] hex_group_slice [OF v, of 24 12]
    by (intro exI [of _ "take 8 s"] exI [of _ "take 4 (drop 9 s)"] exI [of _ "take 4 (drop 14 s)"]
        exI [of _ "take 4 (drop 19 s)"] exI [of _ "take 12 (drop 24 s)"]) simp
next
  have g: "hex_group n g \<Longrightarrow> length g = n" "hex_group n g \<Longrightarrow> i < n \<Longrightarrow> is_ascii_hexdigit (g ! i)" for n g i
    by (auto simp: hex_group_def list_all_length)
  assume "\<exists>a b c d e. s = uuid_of [a, b, c, d, e] \<and> hex_group 8 a \<and> hex_group 4 b \<and> hex_group 4 c
        \<and> hex_group 4 d \<and> hex_group 12 e"
  then show "valid_uuid s"
    by (auto simp: valid_uuid_nth uuid_of_def nth_append nth_Cons' g)
qed

text \<open>
  \<open>dashboard_rpc\<close> is reached only with text that is well-formed UTF-8, parses as JSON and is no
  longer than \<open>MAX_REQUEST_BYTES\<close>, and only once the extension is installed; in every other case the
  database session is left alone.
\<close>

lemma handle_rpc_stream_cases:
  "(\<exists>t. ready \<and> utf8_valid t \<and> from_str c t \<noteq> None \<and> length t \<le> MAX_REQUEST_BYTES
      \<and> handle_rpc_stream c rpc ready incoming s = rpc t s)
   \<or> (\<exists>e. handle_rpc_stream c rpc ready incoming s = (rpc_error c e, s))"
proof (cases incoming)
  case (Some bytes)
  let ?t = "take MAX_REQUEST_BYTES bytes"
  show ?thesis
  proof (cases "ready \<and> utf8_valid ?t \<and> from_str c ?t \<noteq> None")
    case True
    with Some show ?thesis
      by (intro disjI1 exI [of _ ?t]) (simp add: handle_rpc_stream_def Let_def)
  qed (use Some in \<open>auto simp: handle_rpc_stream_def Let_def\<close>)
qed (auto simp: handle_rpc_stream_def)

end
