(* ===== verification/Outbound_Http.thy ===== *)
theory Outbound_Http
  imports Outbound_Guard Rpc "HOL-Library.Monad_Syntax"
begin

text \<open>
  Outbound HTTP calls (the second part of \<open>outbound.rs\<close>): the cancellable transport, reading a
  response, the synchronous POST and \<open>perform_http\<close> with the MCP handshake. The HTTP client library
  is a parameter: \<open>dns\<close> answers name queries, \<open>exchange\<close> performs one request against the addresses
  the resolver returned, \<open>err_text\<close> prints an error. The client connects only to what its resolver
  returns, and it is configured to follow no redirects, so one request is one exchange. Every
  request leaves an entry in the trace, with the addresses that were dialled, if any.
\<close>

section \<open>Cancellable waiting\<close>

definition CANCEL_POLL_INTERVAL :: nat where
  "CANCEL_POLL_INTERVAL = 150"

text \<open>
  What a wait meets in iteration \<open>k\<close>: whether the flag is set, the clock, and what the inner
  transport does with a time-out of so many milliseconds.
\<close>

record 'a wait_env =
  cancelled :: "nat \<Rightarrow> bool"
  clock :: "nat \<Rightarrow> nat"
  inner :: "nat \<Rightarrow> nat \<Rightarrow> ureq_error + 'a"

definition check_cancelled :: "bool \<Rightarrow> ureq_error + unit" where
  "check_cancelled flag = (if flag then Inl (Io ''cancelled by operator'') else Inr ())"

definition sliced :: "nat \<Rightarrow> nat" where
  "sliced after = min after CANCEL_POLL_INTERVAL"

partial_function (option) transmit_loop :: "unit wait_env \<Rightarrow> nat \<Rightarrow> nat \<Rightarrow> nat \<Rightarrow> (ureq_error + unit) option" where
  "transmit_loop e deadline after k =
     (case check_cancelled (cancelled e k) of
        Inl err \<Rightarrow> Some (Inl err)
      | Inr _ \<Rightarrow>
          let remaining = deadline - clock e k in
          if remaining = 0 then Some (inner e k after)
          else (case inner e k (sliced remaining) of
                  Inr u \<Rightarrow> Some (Inr u)
                | Inl Timeout \<Rightarrow> transmit_loop e deadline after (k + 1)
                | Inl err \<Rightarrow> Some (Inl err)))"

partial_function (option) await_loop :: "bool wait_env \<Rightarrow> nat \<Rightarrow> nat \<Rightarrow> nat \<Rightarrow> (ureq_error + bool) option" where
  "await_loop e deadline after k =
     (case check_cancelled (cancelled e k) of
        Inl err \<Rightarrow> Some (Inl err)
      | Inr _ \<Rightarrow>
          let remaining = deadline - clock e k in
          if remaining = 0 then Some (inner e k after)
          else (case inner e k (sliced remaining) of
                  Inr b \<Rightarrow> if b then Some (Inr True) else await_loop e deadline after (k + 1)
                | Inl Timeout \<Rightarrow> await_loop e deadline after (k + 1)
                | Inl err \<Rightarrow> Some (Inl err)))"

text \<open>\<open>start\<close> is the clock when the call is made; \<open>can_use_input\<close> whether the buffer already holds input.\<close>

definition transmit_output :: "unit wait_env \<Rightarrow> nat \<Rightarrow> nat \<Rightarrow> (ureq_error + unit) option" where
  "transmit_output e start after = transmit_loop e (start + after) after 0"

definition await_input :: "bool wait_env \<Rightarrow> nat \<Rightarrow> nat \<Rightarrow> (ureq_error + bool) option" where
  "await_input e start after = await_loop e (start + after) after 0"

definition maybe_await_input :: "bool \<Rightarrow> bool wait_env \<Rightarrow> nat \<Rightarrow> nat \<Rightarrow> (ureq_error + bool) option" where
  "maybe_await_input can_use_input e start after =
     (if can_use_input then Some (Inr True) else await_input e start after)"

section \<open>Requests and responses\<close>

datatype verb = Get | Delete | Post | Put | Patch

datatype payload = NoBody | JsonBody json | FormBody "(string \<times> string) list"

record http_call =
  verb :: verb
  url :: string
  hdrs :: "(string \<times> string) list"
  payload :: payload

text \<open>\<open>read_body\<close> is reading the body as text with a limit on its length.\<close>

record response =
  status :: nat
  session_id :: "string option"
  read_body :: "nat \<Rightarrow> ureq_error + string"

record net =
  dns :: "nat \<Rightarrow> string \<Rightarrow> ureq_error + ip_addr list"
  exchange :: "nat \<Rightarrow> ip_addr list \<Rightarrow> http_call \<Rightarrow> ureq_error + response"
  err_text :: "ureq_error \<Rightarrow> string"

record sent =
  call :: http_call
  dialled :: "ip_addr list"

text \<open>One request of an agent with the guarded resolver; the trace is also the request counter.\<close>

definition agent_send :: "net \<Rightarrow> bool \<Rightarrow> http_call \<Rightarrow> sent list \<Rightarrow> (ureq_error + response) \<times> sent list" where
  "agent_send n allow_private c tr =
     (let k = length tr in
      case guarded_resolve allow_private (dns n k (url c)) of
        Inl e \<Rightarrow> (Inl e, tr @ [\<lparr>call = c, dialled = []\<rparr>])
      | Inr addrs \<Rightarrow> (exchange n k addrs c, tr @ [\<lparr>call = c, dialled = addrs\<rparr>]))"

definition read_response :: "net \<Rightarrow> response \<Rightarrow> int \<times> string" where
  "read_response n r =
     (case read_body r MAX_RESPONSE_BYTES of
        Inr t \<Rightarrow> (int (status r), t)
      | Inl e \<Rightarrow> (0, ''response body unavailable (HTTP '' @ fmt_dec (status r) @ ''): '' @ err_text n e))"

definition outcome_result :: "net \<Rightarrow> ureq_error + response \<Rightarrow> int \<times> string" where
  "outcome_result n out = (case out of Inr r \<Rightarrow> read_response n r | Inl e \<Rightarrow> (0, err_text n e))"

definition is_success :: "response \<Rightarrow> bool" where
  "is_success r \<longleftrightarrow> 200 \<le> status r \<and> status r \<le> 299"

text \<open>The string values of a JSON object, as request headers or form fields.\<close>

definition string_fields :: "(string \<times> json) list \<Rightarrow> (string \<times> string) list" where
  "string_fields m = List.map_filter (\<lambda>(k, v). map_option (\<lambda>s. (k, s)) (as_str v)) m"

definition opt_fields :: "(string \<times> json) list option \<Rightarrow> (string \<times> string) list" where
  "opt_fields h = (case h of Some m \<Rightarrow> string_fields m | None \<Rightarrow> [])"

definition scheme_allowed :: "string \<Rightarrow> bool" where
  "scheme_allowed u \<longleftrightarrow>
     (let lowered = to_ascii_lowercase u in prefix ''http://'' lowered \<or> prefix ''https://'' lowered)"

section \<open>The synchronous POST\<close>

definition guarded_post_json ::
    "net \<Rightarrow> string \<Rightarrow> (string \<times> json) list option \<Rightarrow> json \<Rightarrow> bool \<Rightarrow> (int \<times> string) \<times> sent list" where
  "guarded_post_json n u headers b allow_private =
     (if \<not> scheme_allowed u then ((-1, ''outbound URL scheme not allowed''), [])
      else
        let (out, tr) = agent_send n allow_private
              \<lparr>verb = Post, url = u, hdrs = opt_fields headers, payload = JsonBody b\<rparr> []
        in (outcome_result n out, tr))"

section \<open>MCP\<close>

definition VERSION :: string where
  "VERSION = ''0.1.0-alpha.3''"

definition mcp_initialize :: json where
  "mcp_initialize =
     jobj [(''jsonrpc'', JString ''2.0''), (''id'', JString ''allgres-initialize''), (''method'', JString ''initialize''),
           (''params'', jobj
              [(''protocolVersion'', JString ''2025-06-18''), (''capabilities'', jobj []),
               (''clientInfo'', jobj [(''name'', JString ''allgres''), (''version'', JString VERSION)])])]"

definition mcp_initialized :: json where
  "mcp_initialized = jobj [(''jsonrpc'', JString ''2.0''), (''method'', JString ''notifications/initialized'')]"

definition mcp_call :: "string \<Rightarrow> (string \<times> json) list option \<Rightarrow> string option \<Rightarrow> json \<Rightarrow> http_call" where
  "mcp_call u headers session b =
     \<lparr>verb = Post, url = u,
      hdrs = opt_fields headers @ (case session of Some s \<Rightarrow> [(''mcp-session-id'', s)] | None \<Rightarrow> []),
      payload = JsonBody b\<rparr>"

definition init_valid :: "json option \<Rightarrow> bool" where
  "init_valid v = (case v of Some j \<Rightarrow> json_get ''result'' j \<noteq> None \<and> json_get ''error'' j = None | None \<Rightarrow> False)"

definition error_code :: "json option \<Rightarrow> int option" where
  "error_code v = do { j \<leftarrow> v; e \<leftarrow> json_get ''error'' j; x \<leftarrow> json_get ''code'' e; as_i64 x }"

text \<open>The tool request itself, and what becomes of it.\<close>

definition mcp_tool ::
    "net \<Rightarrow> bool \<Rightarrow> string \<Rightarrow> (string \<times> json) list option \<Rightarrow> string option \<Rightarrow> json \<Rightarrow> sent list
     \<Rightarrow> (int \<times> string) \<times> sent list" where
  "mcp_tool n allow u headers session b tr =
     (let (out, tr) = agent_send n allow (mcp_call u headers session b) tr in (outcome_result n out, tr))"

definition mcp_after_initialize ::
    "codec \<Rightarrow> net \<Rightarrow> bool \<Rightarrow> string \<Rightarrow> (string \<times> json) list option \<Rightarrow> json \<Rightarrow> response \<Rightarrow> sent list
     \<Rightarrow> (int \<times> string) \<times> sent list" where
  "mcp_after_initialize c n allow u headers b init tr =
     (let session = session_id init; (init_status, init_body) = read_response n init in
      if init_status = 0 then ((-1, init_body), tr)
      else
        let init_json = from_str c init_body in
        if \<not> init_valid init_json then
          (if error_code init_json = Some (-32601) then mcp_tool n allow u headers None b tr
           else ((-1, truncate_utf8 (''MCP initialize failed: '' @ init_body) MAX_RESPONSE_BYTES), tr))
        else
          let (out, tr) = agent_send n allow (mcp_call u headers session mcp_initialized) tr in
          case out of
            Inl e \<Rightarrow> ((-1, ''MCP initialized notification failed: '' @ err_text n e), tr)
          | Inr r \<Rightarrow>
              if is_success r then mcp_tool n allow u headers session b tr
              else ((-1, ''MCP initialized notification rejected''), tr))"

definition perform_mcp ::
    "codec \<Rightarrow> net \<Rightarrow> bool \<Rightarrow> string \<Rightarrow> (string \<times> json) list option \<Rightarrow> json \<Rightarrow> (int \<times> string) \<times> sent list" where
  "perform_mcp c n allow u headers b =
     (let (out, tr) = agent_send n allow (mcp_call u headers None mcp_initialize) [] in
      case out of
        Inl e \<Rightarrow> ((-1, ''MCP initialize failed: '' @ err_text n e), tr)
      | Inr init \<Rightarrow>
          if is_success init then mcp_after_initialize c n allow u headers b init tr
          else
            let (st, txt) = read_response n init in
            if st = 0 then ((-1, txt), tr)
            else if st = 400 \<or> st = 404 \<or> st = 405 then mcp_tool n allow u headers None b tr
            else ((-1, truncate_utf8 (''MCP initialize rejected: '' @ txt) MAX_RESPONSE_BYTES), tr))"

section \<open>One queued call\<close>

definition function_call :: "json \<Rightarrow> string \<Rightarrow> (string \<times> json) list option \<Rightarrow> json \<Rightarrow> http_call" where
  "function_call q u headers b =
     (let m = to_ascii_uppercase (case get_str ''method'' q of Some m \<Rightarrow> m | None \<Rightarrow> ''GET'') in
      if m = ''POST'' \<or> m = ''PUT'' \<or> m = ''PATCH'' then
        \<lparr>verb = (if m = ''POST'' then Post else if m = ''PUT'' then Put else Patch), url = u,
         hdrs = opt_fields headers, payload = JsonBody b\<rparr>
      else \<lparr>verb = (if m = ''DELETE'' then Delete else Get), url = u, hdrs = opt_fields headers, payload = NoBody\<rparr>)"

definition oauth_call :: "string \<Rightarrow> (string \<times> json) list option \<Rightarrow> json \<Rightarrow> http_call" where
  "oauth_call u headers b =
     \<lparr>verb = Post, url = u,
      hdrs = filter (\<lambda>(k, _). \<not> eq_ignore_ascii_case k ''content-type'') (opt_fields headers),
      payload = FormBody (opt_fields (as_object b))\<rparr>"

definition post_json_call :: "string \<Rightarrow> (string \<times> json) list option \<Rightarrow> json \<Rightarrow> http_call" where
  "post_json_call u headers b = \<lparr>verb = Post, url = u, hdrs = opt_fields headers, payload = JsonBody b\<rparr>"

definition perform_http :: "codec \<Rightarrow> net \<Rightarrow> json \<Rightarrow> (int \<times> string) \<times> sent list" where
  "perform_http c n q =
     (case get_str ''url'' q of
        None \<Rightarrow> ((-1, ''missing outbound URL''), [])
      | Some u \<Rightarrow>
          if \<not> scheme_allowed u then ((-1, ''outbound URL scheme not allowed''), [])
          else
            let kind = (case get_str ''kind'' q of Some k \<Rightarrow> k | None \<Rightarrow> ''llm'');
                headers = Option.bind (json_get ''headers'' q) as_object;
                b = (case json_get ''body'' q of Some b \<Rightarrow> b | None \<Rightarrow> jobj []);
                allow = (case get_bool ''allow_private'' q of Some a \<Rightarrow> a | None \<Rightarrow> False)
            in if kind = ''mcp'' then perform_mcp c n allow u headers b
               else
                 let (out, tr) = agent_send n allow
                       (if kind = ''function'' then function_call q u headers b
                        else if kind = ''oauth'' then oauth_call u headers b
                        else post_json_call u headers b) []
                 in (outcome_result n out, tr))"

section \<open>Facts about the trace\<close>

definition safe_sent :: "bool \<Rightarrow> string \<Rightarrow> sent \<Rightarrow> bool" where
  "safe_sent allow u s \<longleftrightarrow> url (call s) = u \<and> (allow \<or> list_all (\<lambda>a. \<not> is_blocked_ip a) (dialled s))"

lemma agent_send_trace:
  "\<exists>d. snd (agent_send n allow c tr) = tr @ [\<lparr>call = c, dialled = d\<rparr>]
     \<and> (allow \<or> list_all (\<lambda>a. \<not> is_blocked_ip a) d)"
proof (cases "guarded_resolve allow (dns n (length tr) (url c))")
  case (Inr addrs)
  then have "allow \<or> list_all (\<lambda>a. \<not> is_blocked_ip a) addrs" by (simp add: guarded_resolve_safe)
  with Inr show ?thesis by (simp add: agent_send_def)
qed (simp add: agent_send_def)

lemma outcome_result_nonneg: "0 \<le> fst (outcome_result n out)"
  by (auto simp: outcome_result_def read_response_def split: sum.splits)

text \<open>
  The three ways an MCP call ends: \<open>handshake\<close> is the part of the trace before the tool request, and
  there is a tool request exactly when the status is not \<open>-1\<close>.
\<close>

definition mcp_handshake :: "string \<Rightarrow> (string \<times> json) list option \<Rightarrow> sent list \<Rightarrow> bool" where
  "mcp_handshake u headers tr \<longleftrightarrow>
     list_all (\<lambda>s. \<exists>session b. call s = mcp_call u headers session b \<and> b \<in> {mcp_initialize, mcp_initialized}) tr"

lemma mcp_tool_trace:
  "\<exists>st txt d. mcp_tool n allow u headers session b tr
      = ((st, txt), tr @ [\<lparr>call = mcp_call u headers session b, dialled = d\<rparr>])
      \<and> 0 \<le> st \<and> (allow \<or> list_all (\<lambda>a. \<not> is_blocked_ip a) d)"
proof -
  obtain out tr' where a: "agent_send n allow (mcp_call u headers session b) tr = (out, tr')" by fastforce
  obtain d where "tr' = tr @ [\<lparr>call = mcp_call u headers session b, dialled = d\<rparr>]"
    "allow \<or> list_all (\<lambda>a. \<not> is_blocked_ip a) d"
    using agent_send_trace [of n allow "mcp_call u headers session b" tr] a by auto
  then show ?thesis
    using a outcome_result_nonneg [of n out]
    by (cases "outcome_result n out") (auto simp: mcp_tool_def)
qed

lemma handshake_Nil [simp]: "mcp_handshake u headers []"
  by (simp add: mcp_handshake_def)

lemma handshake_snoc [simp]:
  "mcp_handshake u headers (tr @ [s]) \<longleftrightarrow> mcp_handshake u headers tr
     \<and> (\<exists>session b. call s = mcp_call u headers session b \<and> b \<in> {mcp_initialize, mcp_initialized})"
  by (simp add: mcp_handshake_def)

definition mcp_end ::
    "bool \<Rightarrow> string \<Rightarrow> (string \<times> json) list option \<Rightarrow> json \<Rightarrow> (int \<times> string) \<times> sent list \<Rightarrow> bool" where
  "mcp_end allow u headers b res \<longleftrightarrow>
     list_all (safe_sent allow u) (snd res)
     \<and> ((fst (fst res) = -1 \<and> mcp_handshake u headers (snd res))
        \<or> (0 \<le> fst (fst res) \<and> (\<exists>tr session d.
              snd res = tr @ [\<lparr>call = mcp_call u headers session b, dialled = d\<rparr>] \<and> mcp_handshake u headers tr)))"

lemma mcp_end_tool:
  assumes "list_all (safe_sent allow u) tr" and "mcp_handshake u headers tr"
  shows "mcp_end allow u headers b (mcp_tool n allow u headers session b tr)"
proof -
  obtain st msg d where t: "mcp_tool n allow u headers session b tr
      = ((st, msg), tr @ [\<lparr>call = mcp_call u headers session b, dialled = d\<rparr>])"
    and d: "0 \<le> st" "allow \<or> list_all (\<lambda>a. \<not> is_blocked_ip a) d"
    using mcp_tool_trace by blast
  with assms show ?thesis
    unfolding mcp_end_def t by (auto simp: safe_sent_def mcp_call_def)
qed

lemma mcp_end_failed:
  "list_all (safe_sent allow u) tr \<Longrightarrow> mcp_handshake u headers tr \<Longrightarrow> mcp_end allow u headers b ((-1, msg), tr)"
  by (simp add: mcp_end_def)

lemma handshake_send:
  assumes "list_all (safe_sent allow u) tr" and "mcp_handshake u headers tr"
    and "agent_send n allow (mcp_call u headers session b) tr = (out, tr')" and "b \<in> {mcp_initialize, mcp_initialized}"
  shows "list_all (safe_sent allow u) tr'" and "mcp_handshake u headers tr'"
proof -
  obtain d where "tr' = tr @ [\<lparr>call = mcp_call u headers session b, dialled = d\<rparr>]"
    "allow \<or> list_all (\<lambda>a. \<not> is_blocked_ip a) d"
    using agent_send_trace [of n allow "mcp_call u headers session b" tr] assms(3) by auto
  with assms show "list_all (safe_sent allow u) tr'" and "mcp_handshake u headers tr'"
    by (auto simp: safe_sent_def mcp_call_def)
qed

lemma mcp_after_initialize_end:
  assumes "list_all (safe_sent allow u) tr" and "mcp_handshake u headers tr"
  shows "mcp_end allow u headers b (mcp_after_initialize c n allow u headers b init tr)"
proof -
  obtain st msg where r: "read_response n init = (st, msg)" by fastforce
  obtain out tr' where a: "agent_send n allow (mcp_call u headers (session_id init) mcp_initialized) tr = (out, tr')"
    by fastforce
  note t = handshake_send [OF assms a]
  show ?thesis
    using mcp_end_tool [OF assms] mcp_end_failed [OF assms] mcp_end_tool [OF t] mcp_end_failed [OF t]
    by (auto simp: mcp_after_initialize_def r a Let_def split: sum.splits)
qed

lemma perform_mcp_end: "mcp_end allow u headers b (perform_mcp c n allow u headers b)"
proof -
  obtain out tr where a: "agent_send n allow (mcp_call u headers None mcp_initialize) [] = (out, tr)" by fastforce
  have t: "list_all (safe_sent allow u) tr" "mcp_handshake u headers tr"
    using handshake_send [OF _ _ a] by simp_all
  show ?thesis
  proof (cases out)
    case (Inr init)
    obtain st msg where r: "read_response n init = (st, msg)" by fastforce
    show ?thesis
      using mcp_end_tool [OF t] mcp_end_failed [OF t] mcp_after_initialize_end [OF t]
      by (simp add: perform_mcp_def a Inr r)
  qed (use mcp_end_failed [OF t] in \<open>simp add: perform_mcp_def a\<close>)
qed

section \<open>Interface: waiting in slices\<close>

text \<open>
  A loop that checks a flag, waits for at most one slice and repeats while \<open>retry\<close> holds of what the
  slice returned, until the deadline, where it makes one last call with the caller's own time-out.
\<close>

definition cancel_error :: ureq_error where
  "cancel_error = Io ''cancelled by operator''"

locale sliced_wait =
  fixes loop :: "'a wait_env \<Rightarrow> nat \<Rightarrow> nat \<Rightarrow> nat \<Rightarrow> (ureq_error + 'a) option"
    and retry :: "ureq_error + 'a \<Rightarrow> bool"
  assumes loop_step:
    "loop e d after k =
       (if cancelled e k then Some (Inl cancel_error)
        else if d \<le> clock e k then Some (inner e k after)
        else if retry (inner e k (sliced (d - clock e k))) then loop e d after (k + 1)
        else Some (inner e k (sliced (d - clock e k))))"
begin

lemma ends:
  assumes "\<And>k. clock e k < clock e (Suc k)"
  shows "\<exists>m \<ge> k. (\<forall>j \<in> {k..<m}. \<not> cancelled e j \<and> clock e j < d \<and> retry (inner e j (sliced (d - clock e j))))
    \<and> loop e d after k =
        Some (if cancelled e m then Inl cancel_error
              else if d \<le> clock e m then inner e m after else inner e m (sliced (d - clock e m)))
    \<and> (cancelled e m \<or> d \<le> clock e m \<or> \<not> retry (inner e m (sliced (d - clock e m))))"
proof (induction "d - clock e k" arbitrary: k rule: less_induct)
  case less
  show ?case
  proof (cases "cancelled e k \<or> d \<le> clock e k \<or> \<not> retry (inner e k (sliced (d - clock e k)))")
    case True
    then show ?thesis by (intro exI [of _ k]) (auto simp: loop_step [of e d after k])
  next
    case False
    have "d - clock e (k + 1) < d - clock e k" using False assms [of k] by (simp add: diff_less_mono2)
    from less.hyps [OF this] obtain m where m: "k + 1 \<le> m"
      "\<forall>j \<in> {k + 1..<m}. \<not> cancelled e j \<and> clock e j < d \<and> retry (inner e j (sliced (d - clock e j)))"
      "loop e d after (k + 1) = Some (if cancelled e m then Inl cancel_error
              else if d \<le> clock e m then inner e m after else inner e m (sliced (d - clock e m)))"
      "cancelled e m \<or> d \<le> clock e m \<or> \<not> retry (inner e m (sliced (d - clock e m)))"
      by blast
    have "\<forall>j \<in> {k..<m}. \<not> cancelled e j \<and> clock e j < d \<and> retry (inner e j (sliced (d - clock e j)))"
      using m(2) False by (metis Suc_eq_plus1 atLeastLessThan_iff le_neq_implies_less not_le not_less_eq_eq)
    moreover have "loop e d after k = loop e d after (k + 1)"
      using False by (subst loop_step) simp
    ultimately show ?thesis using m by (intro exI [of _ m]) simp
  qed
qed

text \<open>A flag that is set at iteration \<open>n\<close> ends the loop there, if it has not ended before, whatever the clock does.\<close>

lemma stopped:
  assumes "k \<le> n" and "cancelled e n"
  shows "\<exists>m \<in> {k..n}. (\<forall>j \<in> {k..<m}. \<not> cancelled e j \<and> retry (inner e j (sliced (d - clock e j))))
    \<and> loop e d after k =
        Some (if cancelled e m then Inl cancel_error
              else if d \<le> clock e m then inner e m after else inner e m (sliced (d - clock e m)))
    \<and> (cancelled e m \<or> d \<le> clock e m \<or> \<not> retry (inner e m (sliced (d - clock e m))))"
  using assms(1)
proof (induction "n - k" arbitrary: k)
  case 0
  with assms(2) show ?case by (intro bexI [of _ n]) (simp_all add: loop_step [of e d after k])
next
  case (Suc x)
  show ?case
  proof (cases "cancelled e k \<or> d \<le> clock e k \<or> \<not> retry (inner e k (sliced (d - clock e k)))")
    case True
    with Suc.prems show ?thesis by (intro bexI [of _ k]) (auto simp: loop_step [of e d after k])
  next
    case False
    have "x = n - (k + 1)" "k + 1 \<le> n" using Suc.hyps(2) by simp_all
    from Suc.hyps(1) [OF this] obtain m where m: "m \<in> {k + 1..n}"
      "\<forall>j \<in> {k + 1..<m}. \<not> cancelled e j \<and> retry (inner e j (sliced (d - clock e j)))"
      "loop e d after (k + 1) = Some (if cancelled e m then Inl cancel_error
              else if d \<le> clock e m then inner e m after else inner e m (sliced (d - clock e m)))"
      "cancelled e m \<or> d \<le> clock e m \<or> \<not> retry (inner e m (sliced (d - clock e m)))" by blast
    have "\<forall>j \<in> {k..<m}. \<not> cancelled e j \<and> retry (inner e j (sliced (d - clock e j)))"
      using m(2) False by (metis Suc_eq_plus1 atLeastLessThan_iff le_neq_implies_less not_le not_less_eq_eq)
    moreover have "loop e d after k = loop e d after (k + 1)" using False by (subst loop_step) simp
    ultimately show ?thesis using m by (intro bexI [of _ m]) simp_all
  qed
qed

end

fun await_retry :: "ureq_error + bool \<Rightarrow> bool" where
  "await_retry (Inl e) \<longleftrightarrow> e = Timeout"
| "await_retry (Inr b) \<longleftrightarrow> \<not> b"

fun transmit_retry :: "ureq_error + unit \<Rightarrow> bool" where
  "transmit_retry (Inl e) \<longleftrightarrow> e = Timeout"
| "transmit_retry (Inr _) \<longleftrightarrow> False"

interpretation await: sliced_wait await_loop await_retry
proof
  fix e :: "bool wait_env" and d after k
  show "await_loop e d after k =
       (if cancelled e k then Some (Inl cancel_error)
        else if d \<le> clock e k then Some (inner e k after)
        else if await_retry (inner e k (sliced (d - clock e k))) then await_loop e d after (k + 1)
        else Some (inner e k (sliced (d - clock e k))))"
  proof (cases "inner e k (sliced (d - clock e k))")
    case (Inl x)
    then show ?thesis
      by (subst await_loop.simps, cases x) (simp_all add: check_cancelled_def cancel_error_def)
  next
    case (Inr b)
    then show ?thesis
      by (subst await_loop.simps, cases b) (simp_all add: check_cancelled_def cancel_error_def)
  qed
qed

interpretation transmit: sliced_wait transmit_loop transmit_retry
proof
  fix e :: "unit wait_env" and d after k
  show "transmit_loop e d after k =
       (if cancelled e k then Some (Inl cancel_error)
        else if d \<le> clock e k then Some (inner e k after)
        else if transmit_retry (inner e k (sliced (d - clock e k))) then transmit_loop e d after (k + 1)
        else Some (inner e k (sliced (d - clock e k))))"
  proof (cases "inner e k (sliced (d - clock e k))")
    case (Inl x)
    then show ?thesis
      by (subst transmit_loop.simps, cases x) (simp_all add: check_cancelled_def cancel_error_def)
  next
    case (Inr b)
    then show ?thesis
      by (subst transmit_loop.simps) (simp add: check_cancelled_def cancel_error_def)
  qed
qed

lemma await_retry_iff: "await_retry x \<longleftrightarrow> x \<in> {Inl Timeout, Inr False}"
  by (cases x) auto

lemma transmit_retry_iff: "transmit_retry x \<longleftrightarrow> x = Inl Timeout"
  by (cases x) auto

section \<open>Facts about a queued call\<close>

definition call_url :: "json \<Rightarrow> string" where
  "call_url q = (case get_str ''url'' q of Some u \<Rightarrow> u | None \<Rightarrow> [])"

definition allow_private :: "json \<Rightarrow> bool" where
  "allow_private q \<longleftrightarrow> get_bool ''allow_private'' q = Some True"

definition app_request :: "sent \<Rightarrow> bool" where
  "app_request s \<longleftrightarrow> payload (call s) \<notin> {JsonBody mcp_initialize, JsonBody mcp_initialized}"

definition call_body :: "json \<Rightarrow> json" where
  "call_body q = (case json_get ''body'' q of Some b \<Rightarrow> b | None \<Rightarrow> jobj [])"

text \<open>A call that is not MCP is refused before the network, or makes exactly one request.\<close>

lemma perform_http_cases:
  "(fst (fst (perform_http c n q)) = -1 \<and> snd (perform_http c n q) = [])
   \<or> (scheme_allowed (call_url q) \<and> (\<exists>headers.
        perform_http c n q = perform_mcp c n (allow_private q) (call_url q) headers (call_body q)))
   \<or> (scheme_allowed (call_url q) \<and> (\<exists>h out tr. url h = call_url q
        \<and> payload h \<in> {JsonBody (call_body q), NoBody, FormBody (opt_fields (as_object (call_body q)))}
        \<and> agent_send n (allow_private q) h [] = (out, tr) \<and> perform_http c n q = (outcome_result n out, tr)))"
proof (cases "get_str ''url'' q")
  case None
  then show ?thesis by (simp add: perform_http_def)
next
  case (Some u)
  let ?kind = "case get_str ''kind'' q of Some k \<Rightarrow> k | None \<Rightarrow> ''llm''"
  let ?headers = "Option.bind (json_get ''headers'' q) as_object"
  let ?h = "if ?kind = ''function'' then function_call q u ?headers (call_body q)
            else if ?kind = ''oauth'' then oauth_call u ?headers (call_body q)
            else post_json_call u ?headers (call_body q)"
  have allow: "(case get_bool ''allow_private'' q of Some a \<Rightarrow> a | None \<Rightarrow> False) = allow_private q"
    by (simp add: allow_private_def split: option.splits)
  have u: "call_url q = u" by (simp add: call_url_def Some)
  obtain out tr where a: "agent_send n (allow_private q) ?h [] = (out, tr)" by fastforce
  have h: "url ?h = u" "payload ?h \<in> {JsonBody (call_body q), NoBody, FormBody (opt_fields (as_object (call_body q)))}"
    by (simp_all add: function_call_def oauth_call_def post_json_call_def Let_def)
  consider "\<not> scheme_allowed u" | "scheme_allowed u" "?kind = ''mcp''" | "scheme_allowed u" "?kind \<noteq> ''mcp''"
    by blast
  then show ?thesis
  proof cases
    case 1
    with Some show ?thesis by (simp add: perform_http_def)
  next
    case 2
    then have "perform_http c n q = perform_mcp c n (allow_private q) u ?headers (call_body q)"
      by (simp add: perform_http_def Some allow Let_def flip: call_body_def)
    with 2 u show ?thesis by blast
  next
    case 3
    then have "perform_http c n q = (outcome_result n out, tr)"
      using a by (simp add: perform_http_def Some allow Let_def flip: call_body_def)
    with 3 u a h show ?thesis by blast
  qed
qed

lemma single_request_trace:
  assumes "agent_send n allow h [] = (out, tr)"
  shows "\<exists>d. tr = [\<lparr>call = h, dialled = d\<rparr>] \<and> (allow \<or> list_all (\<lambda>a. \<not> is_blocked_ip a) d)"
  using agent_send_trace [of n allow h "[]"] assms by simp

lemma mcp_payloads: "payload (mcp_call u headers session b) = JsonBody b"
  by (simp add: mcp_call_def)

section \<open>Properties\<close>

text \<open>
  C17. No outbound call dials a blocked address: every request \<open>perform_http\<close> makes, the MCP handshake
  included, goes to the URL of the call, which has an HTTP scheme, and the addresses it dials are all
  outside the blocked networks unless the call itself allows private addresses. The synchronous
  POST obeys the same rule.
\<close>

theorem outbound_never_dials_blocked:
  "list_all (\<lambda>s. scheme_allowed (url (call s)) \<and> url (call s) = call_url q
        \<and> (allow_private q \<or> list_all (\<lambda>a. \<not> is_blocked_ip a) (dialled s)))
      (snd (perform_http c n q))
   \<and> list_all (\<lambda>s. scheme_allowed (url (call s)) \<and> url (call s) = u
        \<and> (allow \<or> list_all (\<lambda>a. \<not> is_blocked_ip a) (dialled s)))
      (snd (guarded_post_json n u headers b allow))"
proof
  show "list_all (\<lambda>s. scheme_allowed (url (call s)) \<and> url (call s) = call_url q
        \<and> (allow_private q \<or> list_all (\<lambda>a. \<not> is_blocked_ip a) (dialled s)))
      (snd (perform_http c n q))"
    using perform_http_cases [of c n q]
  proof (elim disjE conjE exE)
    fix headers
    assume "scheme_allowed (call_url q)"
      "perform_http c n q = perform_mcp c n (allow_private q) (call_url q) headers (call_body q)"
    with perform_mcp_end [of "allow_private q" "call_url q" headers "call_body q" c n] show ?thesis
      by (auto simp: mcp_end_def safe_sent_def list_all_iff)
  next
    fix h out tr
    assume "agent_send n (allow_private q) h [] = (out, tr)" "scheme_allowed (call_url q)" "url h = call_url q"
      "perform_http c n q = (outcome_result n out, tr)"
    with single_request_trace [OF this(1)] show ?thesis by auto
  qed simp
  obtain out tr where a: "agent_send n allow \<lparr>verb = Post, url = u, hdrs = opt_fields headers, payload = JsonBody b\<rparr> []
      = (out, tr)" by fastforce
  from single_request_trace [OF a] a
  show "list_all (\<lambda>s. scheme_allowed (url (call s)) \<and> url (call s) = u
        \<and> (allow \<or> list_all (\<lambda>a. \<not> is_blocked_ip a) (dialled s)))
      (snd (guarded_post_json n u headers b allow))"
    by (auto simp: guarded_post_json_def)
qed

text \<open>
  C21. The status tells whether the application request was issued: \<open>perform_http\<close> returns \<open>-1\<close> exactly
  when no request other than the two of the MCP handshake was handed to the HTTP client, so a call
  reported as not dispatched can be retried without executing a tool twice.
\<close>

theorem status_tells_dispatch:
  assumes "call_body q \<notin> {mcp_initialize, mcp_initialized}"
  shows "fst (fst (perform_http c n q)) = -1 \<longleftrightarrow> \<not> list_ex app_request (snd (perform_http c n q))"
  using perform_http_cases [of c n q]
proof (elim disjE conjE exE)
  fix headers
  assume e: "perform_http c n q = perform_mcp c n (allow_private q) (call_url q) headers (call_body q)"
  have hs: "mcp_handshake (call_url q) headers tr \<Longrightarrow> \<not> list_ex app_request tr" for tr
    by (force simp: mcp_handshake_def list_all_iff list_ex_iff app_request_def mcp_payloads)
  have tool: "app_request \<lparr>call = mcp_call (call_url q) headers session (call_body q), dialled = d\<rparr>" for session d
    using assms by (auto simp: app_request_def mcp_payloads)
  from perform_mcp_end [of "allow_private q" "call_url q" headers "call_body q" c n] e hs show ?thesis
    by (auto simp: mcp_end_def tool)
next
  fix h out tr
  assume "agent_send n (allow_private q) h [] = (out, tr)" "perform_http c n q = (outcome_result n out, tr)"
    "payload h \<in> {JsonBody (call_body q), NoBody, FormBody (opt_fields (as_object (call_body q)))}"
  with single_request_trace [OF this(1)] outcome_result_nonneg [of n out] assms show ?thesis
    by (auto simp: app_request_def)
qed simp

definition dead_net :: net where
  "dead_net = \<lparr>dns = (\<lambda>_ _. Inr [V4 0x7F000001]), exchange = (\<lambda>_ _ _. Inl Timeout), err_text = (\<lambda>_. ''e'')\<rparr>"

definition llm_call :: json where
  "llm_call = jobj [(''url'', JString ''http://x/''), (''body'', JNull)]"

theorem status_tells_dispatch_witness:
  "fst (fst (perform_http \<lparr>from_str = (\<lambda>_. None), to_str = (\<lambda>_. [])\<rparr> dead_net llm_call)) \<noteq> -1
   \<and> list_ex app_request (snd (perform_http \<lparr>from_str = (\<lambda>_. None), to_str = (\<lambda>_. [])\<rparr> dead_net llm_call))"
proof -
  have b: "call_body llm_call = JNull" by (simp add: call_body_def llm_call_def)
  then have "call_body llm_call \<notin> {mcp_initialize, mcp_initialized}"
    by (simp add: mcp_initialize_def mcp_initialized_def jobj_def)
  moreover have "fst (fst (perform_http \<lparr>from_str = (\<lambda>_. None), to_str = (\<lambda>_. [])\<rparr> dead_net llm_call)) = 0"
    by (simp add: perform_http_def llm_call_def get_str_def get_bool_def scheme_allowed_def to_ascii_lowercase_def
        byte_simps agent_send_def dead_net_def guarded_resolve_def outcome_result_def is_blocked_ipv4_def octet_def)
  ultimately show ?thesis using status_tells_dispatch [of llm_call] by (metis zero_neq_neg_one)
qed

text \<open>
  C35. Waiting for input ends whenever the clock advances, and how it ends is determined: at the first
  iteration that finds the flag set it returns the cancellation error; at the deadline it returns
  what the transport says to the caller's own time-out; before that only a real answer or a real
  error ends it, never the expiry of a slice or an empty wake-up.
\<close>

theorem await_input_ends:
  assumes "\<And>k. clock e k < clock e (Suc k)"
  shows "\<exists>m. (\<forall>j < m. \<not> cancelled e j \<and> clock e j < start + after)
    \<and> await_input e start after =
        Some (if cancelled e m then Inl cancel_error
              else if start + after \<le> clock e m then inner e m after
              else inner e m (sliced (start + after - clock e m)))
    \<and> (cancelled e m \<or> start + after \<le> clock e m
        \<or> inner e m (sliced (start + after - clock e m)) \<notin> {Inl Timeout, Inr False})"
proof -
  from await.ends [OF assms, of 0 "start + after" after] show ?thesis
    unfolding await_input_def await_retry_iff by (metis atLeastLessThan_iff le0)
qed

theorem await_input_ends_witness:
  "\<exists>r. await_input \<lparr>cancelled = (\<lambda>k. k = 2), clock = (\<lambda>k. 100 * k), inner = (\<lambda>_ _. Inl Timeout)\<rparr> 0 1000 = Some r"
  using await_input_ends [of "\<lparr>cancelled = (\<lambda>k. k = 2), clock = (\<lambda>k. 100 * k), inner = (\<lambda>_ _. Inl Timeout)\<rparr>" 0 1000]
  by auto

section \<open>Deviations from the comments\<close>

text \<open>
  A call whose host resolves to a blocked address reports status 0 although nothing was dialled.
\<close>

lemma refused_host_status_zero:
  "fst (fst (perform_http c dead_net llm_call)) = 0 \<and> list_all (\<lambda>s. dialled s = []) (snd (perform_http c dead_net llm_call))"
  by (simp add: perform_http_def llm_call_def get_str_def get_bool_def scheme_allowed_def to_ascii_lowercase_def
        byte_simps agent_send_def dead_net_def guarded_resolve_def outcome_result_def is_blocked_ipv4_def octet_def)

end
