(* ===== verification/Native_Functions.thy ===== *)
theory Native_Functions
  imports Sql_Parser Config Outbound_Http
begin

text \<open>
  The functions the extension exports to SQL and the registration of its two workers (\<open>lib.rs\<close>), with
  \<open>raw_parse_dump\<close> of \<open>sql_parser.rs\<close>. PostgreSQL's grammar (\<open>raw_parser\<close> and \<open>nodeToString\<close>), the two
  catalogue queries and the postmaster's answer to a registration are arguments.
\<close>

section \<open>Statement analysis\<close>

text \<open>
  \<open>parse\<close> raises a syntax error, or gives the node dump of the statement list, \<open>None\<close> when it is empty.
\<close>

definition raw_parse_dump :: "(string \<Rightarrow> string option result) \<Rightarrow> string \<Rightarrow> string result" where
  "raw_parse_dump parse sql =
     (if CHR 0x00 \<in> set sql then Inr []
      else case parse sql of
             Inl e \<Rightarrow> Inl e
           | Inr None \<Rightarrow> Inr []
           | Inr (Some s) \<Rightarrow> Inr (from_utf8_lossy s))"

definition analyze_sql :: "(string \<Rightarrow> string option result) \<Rightarrow> string \<Rightarrow> json outcome result" where
  "analyze_sql parse sql = map_sum id analyze_dump (raw_parse_dump parse sql)"

definition native_version :: string where
  "native_version = VERSION"

section \<open>Workers\<close>

datatype bgw_start_time = PostmasterStart | ConsistentState | RecoveryFinished

record worker_builder =
  bgw_name :: string
  bgw_function :: string
  bgw_library :: string
  bgw_start :: bgw_start_time
  bgw_restart_secs :: "nat option"
  bgw_spi :: bool

definition runtime_worker_builder :: worker_builder where
  "runtime_worker_builder =
     \<lparr>bgw_name = ''allgres runtime'', bgw_function = ''allgres_runtime_main'', bgw_library = ''allgres'',
      bgw_start = RecoveryFinished,
      bgw_restart_secs = Some 5, bgw_spi = True\<rparr>"

definition web_worker_builder :: worker_builder where
  "web_worker_builder =
     \<lparr>bgw_name = ''allgres web'', bgw_function = ''allgres_web_main'', bgw_library = ''allgres'',
      bgw_start = RecoveryFinished,
      bgw_restart_secs = Some 5, bgw_spi = False\<rparr>"

text \<open>The workers registered when the library is loaded.\<close>

definition PG_init :: "bool \<Rightarrow> worker_builder list" where
  "PG_init process_shared_preload_libraries_in_progress =
     (if \<not> process_shared_preload_libraries_in_progress then []
      else [runtime_worker_builder, web_worker_builder])"

definition preloaded :: "string option \<Rightarrow> bool" where
  "preloaded preload =
     list_ex (\<lambda>x. trim x = ''allgres'') (split_char (CHR '','') (case preload of Some s \<Rightarrow> s | None \<Rightarrow> []))"

text \<open>
  \<open>preload\<close> and \<open>running\<close> are the answers of the two queries, \<open>None\<close> when there is none.
\<close>

definition native_status :: "env \<Rightarrow> string option \<Rightarrow> string option \<Rightarrow> json" where
  "native_status env datadir preload =
     jobj [(''name'', JString ''Allgres''),
           (''tagline'', JString ''Postgres Is All You Need.''),
           (''version'', JString VERSION),
           (''preloaded'', JBool (preloaded preload)),
           (''runtime_worker'', JString ''allgres runtime''),
           (''web_worker'', JString ''allgres web''),
           (''web_default'', JString DEFAULT_HTTP_ADDR),
           (''rpc_socket'', JString (rpc_socket_path env datadir))]"

datatype start_outcome = Started nat | NotStarted string | Unregistered

definition start_report :: "string \<Rightarrow> start_outcome \<Rightarrow> json" where
  "start_report label outcome =
     (case outcome of
        Started pid \<Rightarrow> jobj [(''worker'', JString label), (''started'', JBool True), (''pid'', JNumber (PosInt pid))]
      | NotStarted why \<Rightarrow> jobj [(''worker'', JString label), (''started'', JBool False), (''reason'', JString why)]
      | Unregistered \<Rightarrow> jobj
          [(''worker'', JString label), (''started'', JBool False),
           (''reason'', JString ''postmaster could not register the worker -- check max_worker_processes'')])"

text \<open>The reply and the workers handed to the postmaster, in order.\<close>

definition native_start_dynamic_workers ::
    "string option \<Rightarrow> int option \<Rightarrow> (worker_builder \<Rightarrow> start_outcome) \<Rightarrow> json \<times> worker_builder list" where
  "native_start_dynamic_workers preload running load_dynamic =
     (if preloaded preload then
        (jobj [(''ok'', JBool False),
               (''reason'', JString (''allgres is already in shared_preload_libraries; the postmaster owns these workers, dynamic start does not apply''))], [])
      else if 0 < (case running of Some n \<Rightarrow> n | None \<Rightarrow> 0) then
        (jobj [(''ok'', JBool True), (''already_running'', JBool True)], [])
      else
        let builders = [(''allgres runtime'', runtime_worker_builder), (''allgres web'', web_worker_builder)] in
        (jobj [(''ok'', JBool True), (''already_running'', JBool False),
               (''results'', JArray (map (\<lambda>(label, b). start_report label (load_dynamic b)) builders))],
         map snd builders))"

section \<open>The synchronous call for procedures\<close>

definition native_llm_http_send :: "net \<Rightarrow> string \<Rightarrow> json \<Rightarrow> json \<Rightarrow> bool \<Rightarrow> json \<times> sent list" where
  "native_llm_http_send n u headers body allow =
     (let ((st, resp_body), tr) = guarded_post_json n u (as_object headers) body allow in
      (jobj [(''status'', JNumber (if st < 0 then NegInt st else PosInt (nat st))), (''body'', JString resp_body)], tr))"

section \<open>The SQL files of the extension\<close>

text \<open>
  The \<open>extension_sql_file!\<close> declarations, in the order of \<open>lib.rs\<close>. The two files without a \<open>name\<close> are
  referred to by the stem of their path.
\<close>

record sql_file =
  sql_name :: string
  sql_requires :: "string list"
  sql_finalize :: bool

definition extension_sql_files :: "sql_file list" where
  "extension_sql_files =
     [\<lparr>sql_name = ''control_plane'', sql_requires = [], sql_finalize = False\<rparr>,
      \<lparr>sql_name = ''execution_guards'', sql_requires = [''control_plane''], sql_finalize = False\<rparr>,
      \<lparr>sql_name = ''operator_agents_and_policies'', sql_requires = [''execution_guards''], sql_finalize = False\<rparr>,
      \<lparr>sql_name = ''capability_search'', sql_requires = [''operator_agents_and_policies''], sql_finalize = False\<rparr>,
      \<lparr>sql_name = ''operator_runtime_and_integrations'', sql_requires = [''capability_search''], sql_finalize = False\<rparr>,
      \<lparr>sql_name = ''operator_accounts_and_chat'', sql_requires = [''capability_search''], sql_finalize = False\<rparr>,
      \<lparr>sql_name = ''seed_data'', sql_requires = [''operator_accounts_and_chat''], sql_finalize = False\<rparr>,
      \<lparr>sql_name = ''selftest'', sql_requires = [''seed_data''], sql_finalize = False\<rparr>,
      \<lparr>sql_name = ''grants_and_facade'', sql_requires = [''selftest''], sql_finalize = True\<rparr>]"

text \<open>An order that the declarations allow: requirements first, the \<open>finalize\<close> file last.\<close>

fun loadable :: "string set \<Rightarrow> sql_file list \<Rightarrow> bool" where
  "loadable seen [] = True"
| "loadable seen (f # fs) =
     (set (sql_requires f) \<subseteq> seen \<and> (sql_finalize f \<longrightarrow> fs = []) \<and> loadable (insert (sql_name f) seen) fs)"

section \<open>Facts\<close>

text \<open>
  The two ways of starting register the same workers, and never both: with the library preloaded, or
  with the runtime worker running, the dynamic start registers nothing; otherwise it registers what
  preloading would have.
\<close>

lemma dynamic_start_registers:
  "snd (native_start_dynamic_workers preload running load_dynamic) =
     (if preloaded preload \<or> (\<exists>n > 0. running = Some n) then [] else PG_init True)"
  by (auto simp: native_start_dynamic_workers_def PG_init_def Let_def split: option.splits)

lemma raw_parse_dump_nul: "CHR 0x00 \<in> set sql \<Longrightarrow>
   analyze_sql parse sql = Inr (Done (jobj [(''ok'', JBool False), (''error'', JString ''unparseable'')]))"
  by (simp add: analyze_sql_def raw_parse_dump_def analyze_dump_def)

text \<open>
  The order of the declarations is allowed, but it is not the only one: nothing requires
  \<open>operator_runtime_and_integrations\<close>, so it may as well be loaded behind \<open>seed_data\<close>. Every allowed
  order loads a required file before the one that requires it.
\<close>

lemma loadable_required:
  "loadable seen (xs @ f # ys) \<Longrightarrow> set (sql_requires f) \<subseteq> seen \<union> sql_name ` set xs"
  by (induction xs arbitrary: seen) fastforce+

lemma loadable_declared: "loadable {} extension_sql_files"
  by (simp add: extension_sql_files_def)

lemma runtime_file_unordered:
  "loadable {} (map (\<lambda>i. extension_sql_files ! i) [0, 1, 2, 3, 5, 6, 7, 4, 8])"
  by (simp add: extension_sql_files_def)

end
