(* ===== verification/Float64.thy ===== *)
theory Float64
  imports Rust_Str Complex_Main "HOL-Library.Log_Nat"
begin

text \<open>
  Double-precision numbers (\<open>f64\<close>) as far as the program computes with them: non-negative finite values,
  rounded to nearest with ties to even, as bit patterns; and \<open>str::parse\<close> to a double. The pattern of
  a non-negative number is ordered as the number is. Facts: what rounding gives, that it is monotone,
  and that it keeps what is representable.
\<close>

section \<open>Bit patterns\<close>

definition F64_INFINITY :: nat where
  "F64_INFINITY = 0x7FF0000000000000"

definition F64_NAN :: nat where
  "F64_NAN = 0x7FF8000000000000"

text \<open>The value of a pattern without sign bit, for a finite number.\<close>

definition f64_val :: "nat \<Rightarrow> rat" where
  "f64_val b =
     (let e = b div 2 ^ 52; f = b mod 2 ^ 52 in
      if e = 0 then of_nat f * 2 powi (-1074) else of_nat (2 ^ 52 + f) * 2 powi (int e - 1075))"

text \<open>\<open>\<lfloor>log 2 x\<rfloor>\<close> for positive \<open>x\<close>.\<close>

definition ilog2 :: "rat \<Rightarrow> int" where
  "ilog2 x = (if 1 \<le> x then int (floorlog 2 (nat \<lfloor>x\<rfloor>)) - 1 else - int (floorlog 2 (nat (\<lceil>1 / x\<rceil> - 1))))"

definition round_even :: "rat \<Rightarrow> nat" where
  "round_even x =
     (let k = \<lfloor>x\<rfloor>; f = x - of_int k in nat (if f < 1 / 2 \<or> f = 1 / 2 \<and> even k then k else k + 1))"

text \<open>The exponent of the last bit: 53 significant bits, fewer below the normal range.\<close>

definition f64_exp :: "rat \<Rightarrow> int" where
  "f64_exp x = max (-1074) (ilog2 x - 52)"

definition f64_round :: "rat \<Rightarrow> nat" where
  "f64_round x =
     (if x = 0 then 0
      else min F64_INFINITY (nat (f64_exp x + 1074) * 2 ^ 52 + round_even (x / 2 powi f64_exp x)))"

definition f64_of_u64 :: "nat \<Rightarrow> nat" where
  "f64_of_u64 n = f64_round (of_nat n)"

text \<open>Quotient and product of non-negative finite numbers, the divisor not zero.\<close>

definition f64_div :: "nat \<Rightarrow> nat \<Rightarrow> nat" where
  "f64_div a b = f64_round (f64_val a / f64_val b)"

definition f64_mul :: "nat \<Rightarrow> nat \<Rightarrow> nat" where
  "f64_mul a b = f64_round (f64_val a * f64_val b)"

section \<open>Parsing\<close>

definition decimal_digits :: "string \<Rightarrow> nat" where
  "decimal_digits ds = (case digits_val 10 0 ds of Some n \<Rightarrow> n | None \<Rightarrow> 0)"

definition parse_sign :: "string \<Rightarrow> bool \<times> string" where
  "parse_sign s =
     (case s of
        c # r \<Rightarrow> if c = CHR ''-'' then (True, r) else if c = CHR ''+'' then (False, r) else (False, s)
      | [] \<Rightarrow> (False, []))"

text \<open>Digits with an optional point, at least one digit; then an optional exponent, up to the end.\<close>

definition parse_decimal :: "string \<Rightarrow> rat option" where
  "parse_decimal s =
     (let whole = takeWhile is_ascii_digit s; r = dropWhile is_ascii_digit s;
          (frac, r) = (case r of
                         c # r' \<Rightarrow> if c = CHR ''.'' then (takeWhile is_ascii_digit r', dropWhile is_ascii_digit r') else ([], r)
                       | [] \<Rightarrow> ([], []));
          m = of_nat (decimal_digits (whole @ frac)); scale = - int (length frac)
      in if whole @ frac = [] then None
         else case r of
                [] \<Rightarrow> Some (m * 10 powi scale)
              | c # r \<Rightarrow>
                  if c = CHR ''e'' \<or> c = CHR ''E'' then
                    (let (neg, ds) = parse_sign r; e = int (decimal_digits ds) in
                     if ds \<noteq> [] \<and> list_all is_ascii_digit ds
                     then Some (m * 10 powi ((if neg then - e else e) + scale))
                     else None)
                  else None)"

definition parse_f64 :: "string \<Rightarrow> nat option" where
  "parse_f64 s =
     (let (neg, t) = parse_sign s; signed = (\<lambda>b. if neg then 2 ^ 63 + b else b) in
      if t = [] then None
      else case parse_decimal t of
             Some x \<Rightarrow> Some (signed (f64_round x))
           | None \<Rightarrow>
               if eq_ignore_ascii_case t ''nan'' then Some (signed F64_NAN)
               else if eq_ignore_ascii_case t ''inf'' \<or> eq_ignore_ascii_case t ''infinity''
               then Some (signed F64_INFINITY)
               else None)"

section \<open>Rounding\<close>

lemma ilog2_bounds:
  assumes "0 < x"
  shows "2 powi ilog2 x \<le> x" and "x < 2 powi (ilog2 x + 1)"
proof -
  have "2 powi ilog2 x \<le> x \<and> x < 2 powi (ilog2 x + 1)"
  proof (cases "1 \<le> x")
    case True
    define n where "n = nat \<lfloor>x\<rfloor>"
    from True have n: "0 < n" "of_nat n \<le> x" "x < of_nat n + 1" unfolding n_def by (simp_all add: of_nat_nat) linarith
    from floorlog_bounds [of n 2] n(1) have b: "2 ^ (floorlog 2 n - 1) \<le> n" "n + 1 \<le> 2 ^ floorlog 2 n" by simp_all
    have "floorlog 2 n > 0" using n(1) by (simp add: floorlog_def)
    then have e: "ilog2 x = int (floorlog 2 n - 1)" "ilog2 x + 1 = int (floorlog 2 n)"
      using True by (simp_all add: ilog2_def n_def)
    from b have "(2::rat) ^ (floorlog 2 n - 1) \<le> of_nat n" "of_nat n + 1 \<le> (2::rat) ^ floorlog 2 n"
      by (metis of_nat_le_iff of_nat_power of_nat_numeral, metis of_nat_le_iff of_nat_power of_nat_numeral of_nat_add of_nat_1)
    with n show ?thesis unfolding e(2) unfolding e(1) power_int_of_nat by linarith
  next
    case False
    define n where "n = nat (\<lceil>1 / x\<rceil> - 1)"
    have "1 < 1 / x" using False assms by simp
    then have "1 < \<lceil>1 / x\<rceil>" by linarith
    then have n: "0 < n" "of_nat n < 1 / x" "1 / x \<le> of_nat n + 1" unfolding n_def by (simp_all add: of_nat_nat) linarith+
    from floorlog_bounds [of n 2] n(1) have b: "2 ^ (floorlog 2 n - 1) \<le> n" "n + 1 \<le> 2 ^ floorlog 2 n" by simp_all
    have "floorlog 2 n > 0" using n(1) by (simp add: floorlog_def)
    then have e: "ilog2 x = - int (floorlog 2 n)" "ilog2 x + 1 = - int (floorlog 2 n - 1)"
      using False by (simp_all add: ilog2_def n_def)
    from b have "(2::rat) ^ (floorlog 2 n - 1) \<le> of_nat n" "of_nat n + 1 \<le> (2::rat) ^ floorlog 2 n"
      by (metis of_nat_le_iff of_nat_power of_nat_numeral, metis of_nat_le_iff of_nat_power of_nat_numeral of_nat_add of_nat_1)
    with n have "(2::rat) ^ (floorlog 2 n - 1) < 1 / x" "1 / x \<le> (2::rat) ^ floorlog 2 n" by linarith+
    with assms show ?thesis unfolding e(2) unfolding e(1) power_int_minus power_int_of_nat by (simp add: field_simps)
  qed
  then show "2 powi ilog2 x \<le> x" "x < 2 powi (ilog2 x + 1)" by simp_all
qed

lemma round_even_nearest:
  assumes "0 \<le> x"
  shows "\<bar>of_nat (round_even x) - x\<bar> \<le> 1 / 2"
proof -
  have k: "0 \<le> \<lfloor>x\<rfloor>" "of_int \<lfloor>x\<rfloor> \<le> x" "x < of_int \<lfloor>x\<rfloor> + 1" using assms by simp_all linarith
  show ?thesis
  proof (cases "x - of_int \<lfloor>x\<rfloor> < 1 / 2 \<or> x - of_int \<lfloor>x\<rfloor> = 1 / 2 \<and> even \<lfloor>x\<rfloor>")
    case True
    then have "round_even x = nat \<lfloor>x\<rfloor>" by (simp add: round_even_def Let_def)
    with True k show ?thesis by (auto simp: of_nat_nat)
  next
    case False
    then have "round_even x = nat (\<lfloor>x\<rfloor> + 1)" by (auto simp: round_even_def Let_def)
    with k have "of_nat (round_even x) = (of_int \<lfloor>x\<rfloor> + 1 :: rat)" by (simp add: of_nat_nat)
    moreover from False have "1 / 2 \<le> x - of_int \<lfloor>x\<rfloor>" by linarith
    ultimately show ?thesis using k by linarith
  qed
qed

lemma round_even_of_nat [simp]: "round_even (of_nat n) = n"
  by (simp add: round_even_def)

lemma round_even_mono:
  assumes "0 \<le> x" "x \<le> y"
  shows "round_even x \<le> round_even y"
proof (rule ccontr)
  assume "\<not> ?thesis"
  then have l: "of_nat (round_even y) + 1 \<le> (of_nat (round_even x) :: rat)" by (simp flip: of_nat_Suc add: not_le)
  from round_even_nearest [of x] round_even_nearest [of y] assms have
    "of_nat (round_even x) - x \<le> 1 / 2" "y - of_nat (round_even y) \<le> 1 / 2" by linarith+
  with l assms have eq: "x = y" by linarith
  with \<open>\<not> ?thesis\<close> show False by simp
qed

lemma ilog2_unique:
  assumes "2 powi k \<le> x" "x < 2 powi (k + 1)"
  shows "ilog2 x = k"
proof -
  have "0 < x" using assms(1) by (rule less_le_trans [rotated]) simp
  note b = ilog2_bounds [OF this]
  have "2 powi k < (2 powi (ilog2 x + 1) :: rat)" "2 powi ilog2 x < (2 powi (k + 1) :: rat)"
    using b assms by linarith+
  then have "k < ilog2 x + 1" "ilog2 x < k + 1"
    using power_int_increasing [of "ilog2 x + 1" k "2 :: rat"] power_int_increasing [of "k + 1" "ilog2 x" "2 :: rat"] by fastforce+
  then show ?thesis by linarith
qed

lemma significand:
  assumes "0 < x"
  shows "x / 2 powi f64_exp x < 2 ^ 53" and "f64_exp x > -1074 \<Longrightarrow> 2 ^ 52 \<le> x / 2 powi f64_exp x"
    and "-1074 \<le> f64_exp x" and "0 \<le> x / 2 powi f64_exp x"
proof -
  note b = ilog2_bounds [OF assms]
  have "2 powi (ilog2 x + 1) \<le> (2 powi (f64_exp x + 53) :: rat)" by (rule power_int_increasing) (simp_all add: f64_exp_def)
  with b(2) have "x < 2 powi (f64_exp x + 53)" by linarith
  also have "\<dots> = 2 powi f64_exp x * 2 ^ 53" by (simp add: power_int_add)
  finally show "x / 2 powi f64_exp x < 2 ^ 53" by (simp add: field_simps)
  show "2 ^ 52 \<le> x / 2 powi f64_exp x" if "f64_exp x > -1074"
  proof -
    from that have "ilog2 x = f64_exp x + 52" by (simp add: f64_exp_def split: if_splits)
    with b(1) have "2 powi f64_exp x * 2 ^ 52 \<le> x" by (simp add: power_int_add)
    then show ?thesis by (simp add: field_simps)
  qed
qed (use assms in \<open>simp_all add: f64_exp_def\<close>)

lemma significand_rounded:
  assumes "0 < x"
  shows "round_even (x / 2 powi f64_exp x) \<le> 2 ^ 53"
    and "f64_exp x > -1074 \<Longrightarrow> 2 ^ 52 \<le> round_even (x / 2 powi f64_exp x)"
proof -
  note s = significand [OF assms]
  have "round_even (x / 2 powi f64_exp x) \<le> round_even (of_nat (2 ^ 53))" using s(1,4) by (intro round_even_mono) simp_all
  then show "round_even (x / 2 powi f64_exp x) \<le> 2 ^ 53" by (simp only: round_even_of_nat)
  assume "f64_exp x > -1074"
  then have "round_even (of_nat (2 ^ 52)) \<le> round_even (x / 2 powi f64_exp x)" using s(2) by (intro round_even_mono) simp_all
  then show "2 ^ 52 \<le> round_even (x / 2 powi f64_exp x)" by (simp only: round_even_of_nat)
qed

lemma f64_round_mono:
  assumes "0 \<le> x" "x \<le> y"
  shows "f64_round x \<le> f64_round y"
proof (cases "x = 0")
  case False
  with assms have pos: "0 < x" "0 < y" by simp_all
  let ?m = "\<lambda>x. round_even (x / 2 powi f64_exp x)"
  have "f64_exp x \<le> f64_exp y"
  proof -
    have "2 powi ilog2 x < (2 powi (ilog2 y + 1) :: rat)"
      using ilog2_bounds [OF pos(1)] ilog2_bounds [OF pos(2)] assms(2) by linarith
    then have "ilog2 x < ilog2 y + 1" using power_int_increasing [of "ilog2 y + 1" "ilog2 x" "2 :: rat"] by fastforce
    then show ?thesis by (simp add: f64_exp_def)
  qed
  then consider "f64_exp x = f64_exp y" | "f64_exp x + 1 \<le> f64_exp y" by linarith
  then have "nat (f64_exp x + 1074) * 2 ^ 52 + ?m x \<le> nat (f64_exp y + 1074) * 2 ^ 52 + ?m y"
  proof cases
    case 1
    with assms show ?thesis by (simp add: divide_right_mono round_even_mono)
  next
    case 2
    with significand(3) [OF pos(1)] have "nat (f64_exp x + 1074) + 1 \<le> nat (f64_exp y + 1074)" "f64_exp y > -1074" by linarith+
    with significand_rounded(1) [OF pos(1)] significand_rounded(2) [OF pos(2)] show ?thesis by simp
  qed
  with pos show ?thesis by (simp add: f64_round_def min.coboundedI2 min.mono)
qed (simp add: f64_round_def)

lemma f64_val_fields:
  assumes "f < 2 ^ 52"
  shows "f64_val (e * 2 ^ 52 + f) = (if e = 0 then of_nat f * 2 powi (-1074) else of_nat (2 ^ 52 + f) * 2 powi (int e - 1075))"
proof -
  have "(e * k + f) div k = e" "(e * k + f) mod k = f" if "f < k" for k :: nat using that by simp_all
  from this [OF assms] show ?thesis by (simp only: f64_val_def Let_def)
qed

lemma f64_val_step:
  assumes "-1074 \<le> e" "m \<le> 2 ^ 53" "e > -1074 \<Longrightarrow> 2 ^ 52 \<le> m"
  shows "f64_val (nat (e + 1074) * 2 ^ 52 + m) = of_nat m * 2 powi e"
proof -
  consider "m < 2 ^ 52" | "2 ^ 52 \<le> m" "m < 2 ^ 53" | "m = 2 ^ 53" using assms(2) by linarith
  then show ?thesis
  proof cases
    case 1
    with assms have "e = -1074" by fastforce
    with 1 show ?thesis by (simp add: f64_val_def)
  next
    case 2
    let ?n = "nat (e + 1074) + 1"
    define f where "f = m - 2 ^ 52"
    with 2 have f: "m = 2 ^ 52 + f" "f < 2 ^ 52" by simp_all
    then have "nat (e + 1074) * 2 ^ 52 + m = ?n * 2 ^ 52 + f" by simp
    with f64_val_fields [OF f(2), of ?n] show ?thesis using assms(1) f(1) by (simp only:) simp
  next
    case 3
    let ?n = "nat (e + 1074) + 2"
    have "nat (e + 1074) * 2 ^ 52 + m = ?n * 2 ^ 52 + 0" using 3 by simp
    moreover have "(2::rat) ^ 53 * 2 powi e = 2 ^ 52 * 2 powi (e + 1)" by (simp add: power_int_add)
    ultimately show ?thesis using assms(1) 3 f64_val_fields [of 0 ?n] by (simp only:) (simp add: add.commute)
  qed
qed

lemma f64_val_Suc: "f64_val b \<le> f64_val (Suc b)"
proof -
  define e f where "e = b div 2 ^ 52" and "f = b mod 2 ^ 52"
  then have b: "b = e * 2 ^ 52 + f" "f < 2 ^ 52" by simp_all
  show ?thesis
  proof (cases "Suc f < 2 ^ 52")
    case True
    have "Suc b = e * 2 ^ 52 + Suc f" using b(1) by simp
    with b(1) f64_val_fields [OF b(2), of e] f64_val_fields [OF True, of e] show ?thesis
      by (simp only:) (simp add: mult_right_mono)
  next
    case False
    with b have f: "f = 2 ^ 52 - 1" "Suc b = Suc e * 2 ^ 52 + 0" by simp_all
    have "(2::rat) powi (int e - 1074) = 2 powi (int e - 1075) * 2"
      using power_int_add [of "2 :: rat" "int e - 1075" 1] by simp
    with b f f64_val_fields [OF b(2), of e] f64_val_fields [of 0 "Suc e"] show ?thesis
      by (simp only:) (simp add: mult_right_mono)
  qed
qed

lemma f64_val_mono: "a \<le> b \<Longrightarrow> f64_val a \<le> f64_val b"
  by (rule lift_Suc_mono_le [of f64_val, OF f64_val_Suc])

lemma f64_val_round:
  assumes "0 < x" "f64_round x < F64_INFINITY"
  shows "f64_val (f64_round x) = of_nat (round_even (x / 2 powi f64_exp x)) * 2 powi f64_exp x"
proof -
  from assms have "f64_round x = nat (f64_exp x + 1074) * 2 ^ 52 + round_even (x / 2 powi f64_exp x)"
    by (auto simp: f64_round_def min_def split: if_splits)
  with f64_val_step [OF significand(3) significand_rounded] assms(1) show ?thesis by simp
qed

lemma f64_round_exact:
  assumes "2 ^ 52 \<le> m" "m < 2 ^ 53" "-1074 \<le> e"
  shows "f64_round (of_nat m * 2 powi e) = min F64_INFINITY (nat (e + 1074) * 2 ^ 52 + m)"
proof -
  have m: "(2::rat) ^ 52 \<le> of_nat m" "of_nat m < (2::rat) ^ 53"
    using assms(1,2) by (metis of_nat_le_iff of_nat_power of_nat_numeral, metis of_nat_less_iff of_nat_power of_nat_numeral)
  have "2 powi (e + 52) = 2 ^ 52 * (2 powi e :: rat)" "2 powi (e + 52 + 1) = 2 ^ 53 * (2 powi e :: rat)"
    by (simp_all add: power_int_add)
  with m have "ilog2 (of_nat m * 2 powi e) = e + 52"
    by (intro ilog2_unique) (simp_all add: mult_right_mono)
  with assms(3) have "f64_exp (of_nat m * 2 powi e) = e" by (simp add: f64_exp_def)
  moreover have "of_nat m * 2 powi e \<noteq> (0::rat)" using assms(1) by auto
  ultimately show ?thesis by (simp add: f64_round_def)
qed

text \<open>Rounding errs by at most half a unit in the last place, a relative error of \<open>2\<^sup>-\<^sup>5\<^sup>3\<close> in the normal range.\<close>

lemma f64_round_error:
  assumes "2 powi (-1022) \<le> x" "f64_round x < F64_INFINITY"
  shows "\<bar>f64_val (f64_round x) - x\<bar> \<le> x / 2 ^ 53"
proof -
  have x: "0 < x" using assms(1) by (rule less_le_trans [rotated]) simp
  have "2 powi (-1022) < (2 powi (ilog2 x + 1) :: rat)" using ilog2_bounds(2) [OF x] assms(1) by linarith
  then have l: "-1022 \<le> ilog2 x" using power_int_increasing [of "ilog2 x + 1" "-1022" "2 :: rat"] by fastforce
  let ?q = "x / 2 powi f64_exp x"
  have "\<bar>of_nat (round_even ?q) - ?q\<bar> \<le> 1 / 2" using significand(4) [OF x] by (rule round_even_nearest)
  moreover have "2 ^ 52 \<le> ?q"
  proof -
    from l have "2 powi f64_exp x * 2 ^ 52 = (2 powi ilog2 x :: rat)" using power_int_add [of "2 :: rat" "f64_exp x" 52]
      by (simp add: f64_exp_def)
    with ilog2_bounds(1) [OF x] show ?thesis by (simp add: field_simps)
  qed
  ultimately have "\<bar>of_nat (round_even ?q) - ?q\<bar> \<le> ?q / 2 ^ 53" by simp
  then have "\<bar>of_nat (round_even ?q) - ?q\<bar> * 2 powi f64_exp x \<le> ?q / 2 ^ 53 * 2 powi f64_exp x"
    by (rule mult_right_mono) simp
  moreover have "\<bar>of_nat (round_even ?q) - ?q\<bar> * 2 powi f64_exp x = \<bar>of_nat (round_even ?q) * 2 powi f64_exp x - x\<bar>"
    using abs_mult [of "of_nat (round_even ?q) - ?q" "2 powi f64_exp x"] by (simp add: left_diff_distrib)
  ultimately show ?thesis unfolding f64_val_round [OF x assms(2)] by simp
qed

text \<open>Two known patterns: \<open>1.0\<close>, which is exact, and \<open>0.05\<close>, which is rounded up.\<close>

lemma parse_f64_known:
  "parse_f64 ''1.0'' = Some 0x3FF0000000000000" "parse_f64 ''0.05'' = Some 0x3FA999999999999A"
proof -
  have d: "parse_sign ''1.0'' = (False, ''1.0'')" "parse_sign ''0.05'' = (False, ''0.05'')" by code_simp+
  have "decimal_digits ''10'' = 10" "decimal_digits ''005'' = 5"
    by (simp_all add: decimal_digits_def digit_val_def is_ascii_digit_def)
  then have p: "parse_decimal ''1.0'' = Some 1" "parse_decimal ''0.05'' = Some (1 / 20)"
    by (simp_all add: parse_decimal_def is_ascii_digit_def)
  have one: "f64_round 1 = 0x3FF0000000000000"
    using f64_round_exact [of "2 ^ 52" "-52"] by (simp add: F64_INFINITY_def)
  have "ilog2 (1 / 20) = -5" by (rule ilog2_unique) simp_all
  moreover have fl: "\<lfloor>36028797018963968 / 5 :: rat\<rfloor> = 7205759403792793" by (rule floor_unique) simp_all
  ultimately have "f64_round (1 / 20) = 0x3FA999999999999A"
    by (simp add: f64_round_def f64_exp_def round_even_def F64_INFINITY_def Let_def fl)
  with one show "parse_f64 ''1.0'' = Some 0x3FF0000000000000" "parse_f64 ''0.05'' = Some 0x3FA999999999999A"
    by (simp_all add: parse_f64_def d p)
qed

end
