(* ===== verification/Host_Stats.thy ===== *)
theory Host_Stats
  imports Json Float64
begin

text \<open>
  The host metrics of the dashboard (\<open>native_host_stats\<close> of \<open>lib.rs\<close>): load averages and memory read from
  \<open>/proc\<close>. The contents of the two files are arguments, \<open>None\<close> where \<open>fs::read_to_string\<close> fails, and so
  is what \<open>available_parallelism\<close> reports.
\<close>

section \<open>Model\<close>

text \<open>A double as a JSON value; infinities and NaN become \<open>null\<close>.\<close>

definition json_f64 :: "nat \<Rightarrow> json" where
  "json_f64 b = (if F64_INFINITY \<le> b mod 2 ^ 63 then JNull else JNumber (Float (word_of_nat b)))"

definition json_opt :: "json option \<Rightarrow> json" where
  "json_opt v = (case v of Some x \<Rightarrow> x | None \<Rightarrow> JNull)"

definition load_section :: "string \<Rightarrow> json option" where
  "load_section s =
     (case split_whitespace s of
        one # five # fifteen # _ \<Rightarrow>
          (case (parse_f64 one, parse_f64 five, parse_f64 fifteen) of
             (Some a, Some b, Some c) \<Rightarrow>
               Some (jobj [(''load1'', json_f64 a), (''load5'', json_f64 b), (''load15'', json_f64 c)])
           | _ \<Rightarrow> None)
      | _ \<Rightarrow> None)"

text \<open>One line of \<open>/proc/meminfo\<close>; a line without a colon or a number gives up on the section.\<close>

definition meminfo_line :: "string \<Rightarrow> (string \<times> nat) option" where
  "meminfo_line line =
     (case split_once (CHR '':'') line of
        None \<Rightarrow> None
      | Some (key, rest) \<Rightarrow>
          (case split_whitespace (trim rest) of
             [] \<Rightarrow> None
           | w # _ \<Rightarrow> map_option (\<lambda>n. (key, n)) (parse_usize w)))"

fun meminfo :: "string list \<Rightarrow> (string \<rightharpoonup> nat) \<Rightarrow> (string \<rightharpoonup> nat) option" where
  "meminfo [] kv = Some kv"
| "meminfo (l # ls) kv =
     (case meminfo_line l of None \<Rightarrow> None | Some (key, n) \<Rightarrow> meminfo ls (kv(key \<mapsto> n)))"

definition F64_100 :: nat where
  "F64_100 = 0x4059000000000000"

definition used_pct :: "nat \<Rightarrow> nat \<Rightarrow> nat" where
  "used_pct used_kb total_kb =
     (if 0 < total_kb then f64_mul (f64_div (f64_of_u64 used_kb) (f64_of_u64 total_kb)) F64_100 else 0)"

definition memory_section :: "string \<Rightarrow> json option" where
  "memory_section s =
     (case meminfo (str_lines s) Map.empty of
        None \<Rightarrow> None
      | Some kv \<Rightarrow>
          (case (kv ''MemTotal'', kv ''MemAvailable'') of
             (Some total_kb, Some avail_kb) \<Rightarrow>
               let used_kb = total_kb - avail_kb in
               Some (jobj
                 [(''total_mb'', JNumber (PosInt (total_kb div 1024))),
                  (''used_mb'', JNumber (PosInt (used_kb div 1024))),
                  (''available_mb'', JNumber (PosInt (avail_kb div 1024))),
                  (''used_pct'', json_f64 (used_pct used_kb total_kb))])
           | _ \<Rightarrow> None))"

definition native_host_stats :: "string option \<Rightarrow> string option \<Rightarrow> nat option \<Rightarrow> json" where
  "native_host_stats loadavg meminfo_text parallelism =
     jobj [(''load'', json_opt (Option.bind loadavg load_section)),
           (''memory'', json_opt (Option.bind meminfo_text memory_section)),
           (''cpu_count'', JNumber (PosInt (case parallelism of Some n \<Rightarrow> n | None \<Rightarrow> 0)))]"

section \<open>The percentage\<close>

lemma f64_100: "f64_val F64_100 = 100"
  by (simp add: f64_val_def F64_100_def Let_def)

lemma f64_round_small:
  assumes "0 \<le> x" "x \<le> 2 ^ 64"
  shows "f64_round x < F64_INFINITY"
proof -
  have "f64_round x \<le> f64_round (of_nat (2 ^ 52) * 2 powi 12)" using assms by (intro f64_round_mono) simp_all
  also have "\<dots> = nat (12 + 1074) * 2 ^ 52 + 2 ^ 52"
    by (subst f64_round_exact) (simp_all add: F64_INFINITY_def)
  finally show ?thesis by (simp add: F64_INFINITY_def)
qed

lemma f64_round_upper:
  assumes "0 \<le> x" "x \<le> of_nat m * 2 powi e" "2 ^ 52 \<le> m" "m < 2 ^ 53" "-1074 \<le> e" "f64_round x < F64_INFINITY"
  shows "f64_val (f64_round x) \<le> of_nat m * 2 powi e"
proof -
  have "f64_round x \<le> nat (e + 1074) * 2 ^ 52 + m"
    using f64_round_mono [OF assms(1,2)] f64_round_exact [OF assms(3,4,5)] by simp
  from f64_val_mono [OF this] f64_val_step [OF assms(5), of m] assms(3,4) show ?thesis by simp
qed

lemma f64_round_factor:
  assumes "1 / 2 ^ 66 \<le> x" "x \<le> 2 ^ 64"
  shows "f64_val (f64_round x) \<le> (1 + 1 / 2 ^ 53) * x" and "(1 - 1 / 2 ^ 53) * x \<le> f64_val (f64_round x)"
proof -
  have "0 \<le> x" "2 powi (-1022) \<le> x" by (rule order_trans [OF _ assms(1)], simp)+
  from f64_round_error [OF this(2) f64_round_small [OF this(1) assms(2)]]
  have "f64_val (f64_round x) - x \<le> x / 2 ^ 53" "x - f64_val (f64_round x) \<le> x / 2 ^ 53" by linarith+
  then show "f64_val (f64_round x) \<le> (1 + 1 / 2 ^ 53) * x" "(1 - 1 / 2 ^ 53) * x \<le> f64_val (f64_round x)"
    by (simp_all add: algebra_simps)
qed

lemma f64_u64_factor:
  assumes "0 < n" "n < 2 ^ 64"
  shows "f64_val (f64_of_u64 n) \<le> (1 + 1 / 2 ^ 53) * of_nat n" and "(1 - 1 / 2 ^ 53) * of_nat n \<le> f64_val (f64_of_u64 n)"
proof -
  have "1 \<le> (of_nat n :: rat)" using assms(1) by simp
  then have l: "1 / 2 ^ 66 \<le> (of_nat n :: rat)" by (rule order_trans [rotated]) simp
  have "of_nat n \<le> (2 :: rat) ^ 64" using assms(2) by (metis less_imp_le of_nat_le_iff of_nat_power of_nat_numeral)
  from f64_round_factor [OF l this]
  show "f64_val (f64_of_u64 n) \<le> (1 + 1 / 2 ^ 53) * of_nat n" "(1 - 1 / 2 ^ 53) * of_nat n \<le> f64_val (f64_of_u64 n)"
    by (simp_all only: f64_of_u64_def)
qed

lemma f64_val_nonneg [simp]: "0 \<le> f64_val b"
  using f64_val_mono [of 0 b] by (simp add: f64_val_def)

lemma f64_u64_le: "m \<le> n \<Longrightarrow> f64_val (f64_of_u64 m) \<le> f64_val (f64_of_u64 n)"
  unfolding f64_of_u64_def by (intro f64_val_mono f64_round_mono) simp_all

text \<open>The quotient of the two sizes is at most 1, and the percentage at most 100, exactly.\<close>

lemma used_fraction:
  assumes "0 < total_kb" "used_kb \<le> total_kb" "total_kb < 2 ^ 64"
  defines "q \<equiv> f64_div (f64_of_u64 used_kb) (f64_of_u64 total_kb)"
  shows "q < F64_INFINITY" and "f64_val q \<le> 1" and "0 < f64_val (f64_of_u64 total_kb)"
proof -
  show t: "0 < f64_val (f64_of_u64 total_kb)"
    by (rule less_le_trans [OF _ f64_u64_factor(2) [OF assms(1,3)]]) (use assms(1) in simp)
  with f64_u64_le [OF assms(2)] have x: "f64_val (f64_of_u64 used_kb) / f64_val (f64_of_u64 total_kb) \<le> 1" by simp
  show f: "q < F64_INFINITY" unfolding q_def f64_div_def
    by (rule f64_round_small) (use x in \<open>auto intro: order_trans\<close>)
  have "f64_val (f64_round (f64_val (f64_of_u64 used_kb) / f64_val (f64_of_u64 total_kb))) \<le> of_nat (2 ^ 52) * 2 powi (-52)"
    by (rule f64_round_upper) (use x f in \<open>simp_all add: q_def f64_div_def\<close>)
  then show "f64_val q \<le> 1" by (simp add: q_def f64_div_def)
qed

lemma used_pct_le_100:
  assumes "used_kb \<le> total_kb" "total_kb < 2 ^ 64"
  shows "used_pct used_kb total_kb < F64_INFINITY" and "f64_val (used_pct used_kb total_kb) \<le> 100"
proof -
  let ?q = "f64_div (f64_of_u64 used_kb) (f64_of_u64 total_kb)"
  have "used_pct used_kb total_kb < F64_INFINITY \<and> f64_val (used_pct used_kb total_kb) \<le> 100"
  proof (cases "0 < total_kb")
    case True
    note q = used_fraction [OF True assms]
    have f: "f64_round (f64_val ?q * 100) < F64_INFINITY"
      by (rule f64_round_small) (use q(2) in \<open>simp_all\<close>)
    have "f64_val (f64_round (f64_val ?q * 100)) \<le> of_nat (100 * 2 ^ 46) * 2 powi (-46)"
      by (rule f64_round_upper) (use q(2) f in simp_all)
    with True f show ?thesis by (simp add: used_pct_def f64_mul_def f64_100)
  qed (simp add: used_pct_def F64_INFINITY_def f64_val_def)
  then show "used_pct used_kb total_kb < F64_INFINITY" "f64_val (used_pct used_kb total_kb) \<le> 100" by simp_all
qed

text \<open>
  Four roundings lie between the sizes and the percentage; each errs by a factor between \<open>1 - u\<close> and
  \<open>1 + u\<close> with \<open>u = 2\<^sup>-\<^sup>5\<^sup>3\<close>.
\<close>

lemma used_fraction_factor:
  assumes "0 < used_kb" "used_kb \<le> total_kb" "total_kb < 2 ^ 64"
  defines "x \<equiv> f64_val (f64_of_u64 used_kb) / f64_val (f64_of_u64 total_kb)"
    and "r \<equiv> of_nat used_kb / of_nat total_kb :: rat"
  shows "x \<le> (1 + 1 / 2 ^ 53) / (1 - 1 / 2 ^ 53) * r" and "(1 - 1 / 2 ^ 53) / (1 + 1 / 2 ^ 53) * r \<le> x" and "1 / 2 ^ 64 \<le> r"
proof -
  have t: "0 < total_kb" and u: "used_kb < 2 ^ 64" using assms(1-3) by linarith+
  note a = f64_u64_factor [OF assms(1) u] and b = f64_u64_factor [OF t assms(3)]
  have pos: "0 < (of_nat used_kb :: rat)" "0 < (of_nat total_kb :: rat)" using assms(1) t by simp_all
  have "x \<le> ((1 + 1 / 2 ^ 53) * of_nat used_kb) / ((1 - 1 / 2 ^ 53) * of_nat total_kb)"
    unfolding x_def using a b pos by (intro frac_le) simp_all
  then show "x \<le> (1 + 1 / 2 ^ 53) / (1 - 1 / 2 ^ 53) * r" unfolding r_def by (simp only: times_divide_times_eq)
  have "((1 - 1 / 2 ^ 53) * of_nat used_kb) / ((1 + 1 / 2 ^ 53) * of_nat total_kb) \<le> x"
    unfolding x_def using a b pos used_fraction(3) [OF t assms(2,3)] by (intro frac_le) simp_all
  then show "(1 - 1 / 2 ^ 53) / (1 + 1 / 2 ^ 53) * r \<le> x" unfolding r_def by (simp only: times_divide_times_eq)
  have "of_nat total_kb \<le> (2 :: rat) ^ 64" using assms(3) by (metis less_imp_le of_nat_le_iff of_nat_power of_nat_numeral)
  moreover have "1 \<le> (of_nat used_kb :: rat)" using assms(1) by simp
  ultimately show "1 / 2 ^ 64 \<le> r" unfolding r_def using pos by (intro frac_le) simp_all
qed

lemma used_pct_accurate:
  assumes "0 < total_kb" "used_kb \<le> total_kb" "total_kb < 2 ^ 64"
  defines "r \<equiv> of_nat used_kb / of_nat total_kb :: rat"
  shows "\<bar>f64_val (used_pct used_kb total_kb) - 100 * r\<bar> \<le> 100 * r / 2 ^ 50"
proof (cases "used_kb = 0")
  case True
  with assms(1) show ?thesis by (simp add: r_def used_pct_def f64_of_u64_def f64_div_def f64_mul_def f64_round_def f64_val_def)
next
  case False
  let ?u = "1 / 2 ^ 53 :: rat"
  let ?x = "f64_val (f64_of_u64 used_kb) / f64_val (f64_of_u64 total_kb)"
  let ?q = "f64_val (f64_round ?x)"
  from False have "0 < used_kb" by simp
  note x = used_fraction_factor [OF this assms(2,3), folded r_def]
  have r: "0 < r" using x(3) by (rule less_le_trans [rotated]) simp
  have l: "1 / 2 ^ 65 \<le> ?x" using x(2,3) by (simp add: field_simps)
  have "?x \<le> 1" using f64_u64_le [OF assms(2)] used_fraction(3) [OF assms(1-3)] by simp
  then have "?x \<le> 2 ^ 64" by (rule order_trans) simp
  moreover have "1 / 2 ^ 66 \<le> ?x" by (rule order_trans [OF _ l]) simp
  ultimately have q: "?q \<le> (1 + ?u) * ?x" "(1 - ?u) * ?x \<le> ?q" by (intro f64_round_factor; simp)+
  have "1 / 2 ^ 66 \<le> (1 - ?u) * (1 / 2 ^ 65)" by simp
  also have "\<dots> \<le> (1 - ?u) * ?x" using l by (rule mult_left_mono) simp
  also note q(2)
  also have "?q \<le> ?q * 100" by simp
  finally have "1 / 2 ^ 66 \<le> ?q * 100" .
  moreover have "?q * 100 \<le> 2 ^ 64"
    by (rule order_trans [OF mult_right_mono [OF order_trans [OF q(1) mult_left_mono [OF \<open>?x \<le> 1\<close>]]]]) simp_all
  ultimately
  have p: "f64_val (f64_round (?q * 100)) \<le> (1 + ?u) * (?q * 100)" "(1 - ?u) * (?q * 100) \<le> f64_val (f64_round (?q * 100))"
    by (intro f64_round_factor; simp)+
  have "f64_val (f64_round (?q * 100)) \<le> (1 + ?u) * ((1 + ?u) * ((1 + ?u) / (1 - ?u) * r) * 100)"
    by (rule order_trans [OF p(1)]) (intro mult_left_mono mult_right_mono order_trans [OF q(1)] x(1); simp)
  also have "\<dots> \<le> (100 + 100 / 2 ^ 50) * r" using r by simp
  finally have hi: "f64_val (f64_round (?q * 100)) - 100 * r \<le> 100 * r / 2 ^ 50" by (simp add: algebra_simps)
  have "(100 - 100 / 2 ^ 50) * r \<le> (1 - ?u) * ((1 - ?u) * ((1 - ?u) / (1 + ?u) * r) * 100)" using r by simp
  also have "\<dots> \<le> f64_val (f64_round (?q * 100))"
    by (rule order_trans [OF _ p(2)]) (intro mult_left_mono mult_right_mono order_trans [OF _ q(2)] x(2); simp)
  finally have lo: "- (f64_val (f64_round (?q * 100)) - 100 * r) \<le> 100 * r / 2 ^ 50" by (simp add: algebra_simps)
  have "used_pct used_kb total_kb = f64_round (?q * 100)"
    using assms(1) by (simp add: used_pct_def f64_mul_def f64_div_def f64_100)
  with hi lo show ?thesis by (simp only: abs_leI)
qed

section \<open>The report\<close>

lemma meminfo_line_u64: "meminfo_line l = Some (key, n) \<Longrightarrow> n < 2 ^ 64"
  by (auto simp: meminfo_line_def parse_usize_def dest: from_str_radix_bound split: option.splits list.splits)

lemma meminfo_u64: "meminfo ls kv = Some kv' \<Longrightarrow> (\<And>k n. kv k = Some n \<Longrightarrow> n < 2 ^ 64) \<Longrightarrow> kv' k = Some n \<Longrightarrow> n < 2 ^ 64"
proof (induction ls kv rule: meminfo.induct)
  case (2 l ls kv)
  from "2.prems"(1) obtain key m where l: "meminfo_line l = Some (key, m)" and r: "meminfo ls (kv(key \<mapsto> m)) = Some kv'"
    by (auto split: option.splits)
  from meminfo_line_u64 [OF l] "2.prems"(2) have "(kv(key \<mapsto> m)) k = Some n \<Longrightarrow> n < 2 ^ 64" for k n
    by (auto split: if_splits)
  with "2.IH" [OF l refl r] "2.prems"(3) show ?case by blast
qed simp

lemma json_f64_finite:
  assumes "b < F64_INFINITY"
  shows "json_f64 b = JNumber (Float (word_of_nat b))" and "unat (word_of_nat b :: 64 word) = b"
  using assms by (simp_all add: json_f64_def F64_INFINITY_def unat_of_nat)

lemma memory_section_cases:
  assumes "memory_section s = Some v"
  obtains kv total_kb avail_kb where "meminfo (str_lines s) Map.empty = Some kv"
    "kv ''MemTotal'' = Some total_kb" "kv ''MemAvailable'' = Some avail_kb"
    "v = jobj [(''total_mb'', JNumber (PosInt (total_kb div 1024))),
               (''used_mb'', JNumber (PosInt ((total_kb - avail_kb) div 1024))),
               (''available_mb'', JNumber (PosInt (avail_kb div 1024))),
               (''used_pct'', json_f64 (used_pct (total_kb - avail_kb) total_kb))]"
  using assms by (auto simp: memory_section_def Let_def split: option.splits)

lemma native_host_stats_memory:
  "json_get ''memory'' (native_host_stats loadavg proc par) = Some (json_opt (Option.bind proc memory_section))"
  by (simp add: native_host_stats_def)

text \<open>
  C28. The memory report is sound: when it is there, its total, used and available sizes are the \<open>MemTotal\<close>
  line of the file, the difference to the \<open>MemAvailable\<close> line (none if the kernel reports more available
  than there is) and that line, in whole megabytes, and the percentage is a number between 0 and 100
  that differs from the exact quotient of the two sizes by at most \<open>100 / 2\<^sup>5\<^sup>0\<close>, after the four
  roundings of double precision.
\<close>

theorem memory_report_sound:
  assumes "json_get ''memory'' (native_host_stats loadavg proc par) = Some v" and "v \<noteq> JNull"
  shows "\<exists>s kv total_kb avail_kb w. proc = Some s \<and> meminfo (str_lines s) Map.empty = Some kv
    \<and> kv ''MemTotal'' = Some total_kb \<and> kv ''MemAvailable'' = Some avail_kb
    \<and> json_get ''total_mb'' v = Some (JNumber (PosInt (total_kb div 1024)))
    \<and> json_get ''used_mb'' v = Some (JNumber (PosInt ((total_kb - avail_kb) div 1024)))
    \<and> json_get ''available_mb'' v = Some (JNumber (PosInt (avail_kb div 1024)))
    \<and> json_get ''used_pct'' v = Some (JNumber (Float w))
    \<and> 0 \<le> f64_val (unat w) \<and> f64_val (unat w) \<le> 100
    \<and> (0 < total_kb \<longrightarrow>
        \<bar>f64_val (unat w) - 100 * of_nat (total_kb - avail_kb) / of_nat total_kb\<bar> \<le> 100 / 2 ^ 50)"
proof -
  from assms obtain s where proc: "proc = Some s" and "memory_section s = Some v"
    by (auto simp: native_host_stats_memory json_opt_def split: option.splits bind_splits)
  from this(2) obtain kv total_kb avail_kb where kv: "meminfo (str_lines s) Map.empty = Some kv"
    "kv ''MemTotal'' = Some total_kb" "kv ''MemAvailable'' = Some avail_kb"
    and v: "v = jobj [(''total_mb'', JNumber (PosInt (total_kb div 1024))),
               (''used_mb'', JNumber (PosInt ((total_kb - avail_kb) div 1024))),
               (''available_mb'', JNumber (PosInt (avail_kb div 1024))),
               (''used_pct'', json_f64 (used_pct (total_kb - avail_kb) total_kb))]"
    by (rule memory_section_cases)
  let ?used = "total_kb - avail_kb" and ?p = "used_pct (total_kb - avail_kb) total_kb"
  have t: "total_kb < 2 ^ 64" using meminfo_u64 [OF kv(1) _ kv(2)] by simp
  note p = used_pct_le_100 [of ?used total_kb, OF diff_le_self t]
  have "\<bar>f64_val ?p - 100 * of_nat ?used / of_nat total_kb\<bar> \<le> 100 / 2 ^ 50" if "0 < total_kb"
  proof -
    have "of_nat ?used / of_nat total_kb \<le> (1 :: rat)" using that by simp
    then have "100 * (of_nat ?used / of_nat total_kb) / 2 ^ 50 \<le> (100 * 1 / 2 ^ 50 :: rat)"
      by (intro divide_right_mono mult_left_mono) simp_all
    with used_pct_accurate [OF that diff_le_self t, of avail_kb] show ?thesis by simp
  qed
  with proc kv v p(2) json_f64_finite [OF p(1)] show ?thesis
    by (intro exI [of _ s] exI [of _ kv] exI [of _ total_kb] exI [of _ avail_kb] exI [of _ "word_of_nat ?p"]) simp
qed

text \<open>A host with 8 kB, of which 2 kB are available.\<close>

definition sample_meminfo :: string where
  "sample_meminfo = ''MemTotal:  8 kB'' @ [nl] @ ''MemAvailable: 2 kB'' @ [nl]"

lemma sample_meminfo_kv:
  "meminfo (str_lines sample_meminfo) Map.empty = Some [''MemTotal'' \<mapsto> 8, ''MemAvailable'' \<mapsto> 2]"
proof -
  have "str_lines sample_meminfo = [''MemTotal:  8 kB'', ''MemAvailable: 2 kB'']" by code_simp
  moreover have "split_once (CHR '':'') ''MemTotal:  8 kB'' = Some (''MemTotal'', ''  8 kB'')"
    "split_once (CHR '':'') ''MemAvailable: 2 kB'' = Some (''MemAvailable'', '' 2 kB'')"
    "split_whitespace (trim ''  8 kB'') = [''8'', ''kB'']" "split_whitespace (trim '' 2 kB'') = [''2'', ''kB'']" by code_simp+
  moreover have "parse_usize ''8'' = Some 8" "parse_usize ''2'' = Some 2"
    by (simp_all add: parse_usize_def from_str_radix_def digit_val_def is_ascii_digit_def)
  ultimately show ?thesis by (simp add: meminfo_line_def)
qed

theorem memory_report_sound_witness:
  "\<exists>v w. json_get ''memory'' (native_host_stats None (Some sample_meminfo) None) = Some v
    \<and> json_get ''used_pct'' v = Some (JNumber (Float w)) \<and> \<bar>f64_val (unat w) - 75\<bar> \<le> 100 / 2 ^ 50"
proof -
  obtain v where v: "memory_section sample_meminfo = Some v" "v \<noteq> JNull"
    by (simp add: memory_section_def sample_meminfo_kv jobj_def Let_def)
  then have m: "json_get ''memory'' (native_host_stats None (Some sample_meminfo) None) = Some v"
    by (simp add: native_host_stats_memory json_opt_def)
  from memory_report_sound [OF this v(2)] obtain w where "json_get ''used_pct'' v = Some (JNumber (Float w))"
    "\<bar>f64_val (unat w) - 100 * of_nat (8 - 2) / of_nat 8\<bar> \<le> 100 / 2 ^ 50"
    by (auto simp: sample_meminfo_kv)
  with m show ?thesis by (intro exI [of _ v] exI [of _ w]) simp
qed

end
