(* ===== verification/Http_Protocol.thy ===== *)
theory Http_Protocol
  imports Lib_Helpers
begin

text \<open>
  The hand-written HTTP/1.1 request reader of \<open>http_protocol.rs\<close>: the parsed request and its
  accessors, the parser, the form decoder and the loop that reads a request off a socket. The
  socket is the function \<open>reads\<close>: in iteration \<open>k\<close> of the loop the clock shows \<open>fst (reads k)\<close> and
  \<open>read\<close> yields \<open>snd (reads k)\<close>, where \<open>None\<close> is an error or a time-out and \<open>Some []\<close> the end of the
  stream; one call returns at most 8192 bytes. \<open>usize\<close> has 64 bits and the release build does not
  check overflow, so a sum of two lengths is taken modulo \<open>2 ^ 64\<close>.
\<close>

section \<open>Requests\<close>

record http_request =
  req_method :: string
  path :: string
  headers :: "(string \<times> string) list"
  body :: string

definition route :: "http_request \<Rightarrow> string" where
  "route r = hd (split_char (CHR ''?'') (path r))"

definition query :: "http_request \<Rightarrow> string" where
  "query r = (case split_once (CHR ''?'') (path r) of Some (_, q) \<Rightarrow> q | None \<Rightarrow> [])"

definition header :: "http_request \<Rightarrow> string \<Rightarrow> string option" where
  "header r name = map_option snd (find (\<lambda>(k, _). eq_ignore_ascii_case k name) (headers r))"

section \<open>Parsing\<close>

definition crlf2 :: string where
  "crlf2 = [cr, nl, cr, nl]"

definition header_line :: "string \<Rightarrow> (string \<times> string) option" where
  "header_line l = map_option (\<lambda>(k, v). (to_ascii_lowercase (trim k), trim v)) (split_once (CHR '':'') l)"

definition parse_http_request :: "string \<Rightarrow> http_request option" where
  "parse_http_request data =
     (case find_sub crlf2 data of
        None \<Rightarrow> None
      | Some p \<Rightarrow>
          let split = p + 4; head = from_utf8_lossy (take split data) in
          (case str_lines head of
             [] \<Rightarrow> None
           | first # lines \<Rightarrow>
               (case split_whitespace first of
                  m # pa # _ \<Rightarrow>
                    Some \<lparr>req_method = m, path = pa, headers = List.map_filter header_line lines,
                          body = from_utf8_lossy (drop split data)\<rparr>
                | _ \<Rightarrow> None)))"

fun content_length_lines :: "string list \<Rightarrow> nat" where
  "content_length_lines [] = 0"
| "content_length_lines (l # ls) =
     (case split_once (CHR '':'') l of
        Some (k, v) \<Rightarrow>
          if eq_ignore_ascii_case k ''content-length''
          then (case parse_usize (trim v) of Some n \<Rightarrow> n | None \<Rightarrow> 0)
          else content_length_lines ls
      | None \<Rightarrow> content_length_lines ls)"

definition content_length :: "string \<Rightarrow> nat \<Rightarrow> nat" where
  "content_length data header_end =
     content_length_lines (str_lines (from_utf8_lossy (take header_end data)))"

section \<open>Form bodies\<close>

definition from_utf8_hex :: "string \<Rightarrow> nat option" where
  "from_utf8_hex h = (if utf8_valid h then from_str_radix 16 256 h else None)"

fun decode_bytes :: "string \<Rightarrow> string" where
  "decode_bytes [] = []"
| "decode_bytes (c # r) =
     (if c = CHR ''+'' then CHR '' '' # decode_bytes r
      else if c = CHR ''%'' \<and> 2 \<le> length r then
        (case from_utf8_hex (take 2 r) of
           Some b \<Rightarrow> char_of b # decode_bytes (drop 2 r)
         | None \<Rightarrow> c # decode_bytes r)
      else c # decode_bytes r)"

definition decode :: "string \<Rightarrow> string" where
  "decode s = from_utf8_lossy (decode_bytes s)"

definition parse_form_body :: "string \<Rightarrow> (string \<rightharpoonup> string)" where
  "parse_form_body b =
     foldl (\<lambda>m (k, v). m(decode k \<mapsto> decode v)) Map.empty
       (List.map_filter (split_once (CHR ''='')) (split_char (CHR ''&'') b))"

section \<open>Reading a request off a connection\<close>

type_synonym reads = "nat \<Rightarrow> nat \<times> string option"

definition BUF_BYTES :: nat where
  "BUF_BYTES = 8192"

definition find_header_end :: "nat option \<Rightarrow> nat \<Rightarrow> string \<Rightarrow> nat option \<times> nat" where
  "find_header_end header_end want data =
     (case header_end of
        Some h \<Rightarrow> (Some h, want)
      | None \<Rightarrow>
          (case find_sub crlf2 data of
             Some p \<Rightarrow> (Some (p + 4), content_length data (p + 4))
           | None \<Rightarrow> (None, want)))"

definition complete :: "nat option \<Rightarrow> nat \<Rightarrow> string \<Rightarrow> bool" where
  "complete header_end want data =
     (case header_end of Some h \<Rightarrow> (h + want) mod 2 ^ 64 \<le> length data | None \<Rightarrow> False)"

function read_loop ::
    "reads \<Rightarrow> nat \<Rightarrow> nat \<Rightarrow> string \<Rightarrow> nat option \<Rightarrow> nat \<Rightarrow> http_request option" where
  "read_loop reads deadline k data header_end want =
     (if deadline < fst (reads k) then None
      else case snd (reads k) of
             None \<Rightarrow> None
           | Some chunk \<Rightarrow>
               if chunk = [] then parse_http_request data
               else
                 let data = data @ take BUF_BYTES chunk in
                 if MAX_REQUEST_BYTES < length data then None
                 else
                   let (header_end, want) = find_header_end header_end want data in
                   if complete header_end want data then parse_http_request data
                   else read_loop reads deadline (k + 1) data header_end want)"
  by pat_completeness auto
termination
  by (relation "measure (\<lambda>(reads, deadline, k, data, header_end, want). MAX_REQUEST_BYTES + 1 - length data)")
    (auto simp: BUF_BYTES_def min_def simp flip: length_greater_0_conv)

declare read_loop.simps [simp del]

text \<open>The first clock reading, \<open>t0\<close>, fixes the deadline.\<close>

definition read_http_request :: "nat \<Rightarrow> reads \<Rightarrow> http_request option" where
  "read_http_request t0 reads = read_loop reads (t0 + REQUEST_DEADLINE) 0 [] None 0"

section \<open>Facts about the parser\<close>

lemma route_query:
  "path r = (if CHR ''?'' \<in> set (path r) then route r @ CHR ''?'' # query r else route r)"
proof (cases "CHR ''?'' \<in> set (path r)")
  case True
  then obtain k v where "path r = k @ CHR ''?'' # v" "CHR ''?'' \<notin> set k" by (meson split_list_first)
  then have "split_once (CHR ''?'') (path r) = Some (k, v)"
    and "takeWhile (\<lambda>x. x \<noteq> CHR ''?'') (path r) = k"
    by (auto simp: split_once_append intro: takeWhile_stop)
  with \<open>path r = k @ CHR ''?'' # v\<close> show ?thesis
    by (simp add: route_def query_def split_char_def)
next
  case False
  then have all: "takeWhile (\<lambda>x. x \<noteq> CHR ''?'') (path r) = path r"
    by (auto simp: takeWhile_eq_all_conv)
  from False show ?thesis by (simp add: route_def split_char_def all)
qed

lemma route_no_query: "CHR ''?'' \<notin> set (route r)"
  using set_takeWhileD by (fastforce simp: route_def split_char_def)

lemma parse_needs_header_end: "\<not> sublist crlf2 data \<Longrightarrow> parse_http_request data = None"
  by (simp add: parse_http_request_def flip: find_sub_None)

section \<open>Printing a request\<close>

text \<open>
  \<open>print_request\<close> is what a client puts on the wire; \<open>wf_request\<close> is the syntax of RFC 9112 as far
  as the parser depends on it: visible ASCII in the request line, lower-case header names, header
  values without control characters and without spaces around them.
\<close>

definition visible :: "char \<Rightarrow> bool" where
  "visible c \<longleftrightarrow> 32 < u8 c \<and> u8 c < 127"

definition wf_method :: "string \<Rightarrow> bool" where
  "wf_method m \<longleftrightarrow> m \<noteq> [] \<and> list_all visible m \<and> CHR '':'' \<notin> set m"

definition wf_target :: "string \<Rightarrow> bool" where
  "wf_target p \<longleftrightarrow> p \<noteq> [] \<and> list_all visible p"

definition wf_field_name :: "string \<Rightarrow> bool" where
  "wf_field_name k \<longleftrightarrow>
     k \<noteq> [] \<and> list_all (\<lambda>c. visible c \<and> \<not> is_ascii_uppercase c \<and> c \<noteq> CHR '':'') k"

definition wf_field_value :: "string \<Rightarrow> bool" where
  "wf_field_value v \<longleftrightarrow>
     list_all (\<lambda>c. visible c \<or> c = CHR '' '') v
     \<and> (v \<noteq> [] \<longrightarrow> hd v \<noteq> CHR '' '' \<and> last v \<noteq> CHR '' '')"

definition wf_request :: "http_request \<Rightarrow> bool" where
  "wf_request r \<longleftrightarrow>
     wf_method (req_method r) \<and> wf_target (path r)
     \<and> list_all (\<lambda>(k, v). wf_field_name k \<and> wf_field_value v) (headers r)
     \<and> utf8_valid (body r)"

definition field_line :: "string \<times> string \<Rightarrow> string" where
  "field_line kv = fst kv @ '': '' @ snd kv"

definition print_field :: "string \<times> string \<Rightarrow> string" where
  "print_field kv = field_line kv @ [cr, nl]"

definition request_line :: "http_request \<Rightarrow> string" where
  "request_line r = req_method r @ '' '' @ path r @ '' HTTP/1.1''"

definition print_head :: "http_request \<Rightarrow> string" where
  "print_head r = request_line r @ [cr, nl] @ concat (map print_field (headers r)) @ [cr, nl]"

definition print_request :: "http_request \<Rightarrow> string" where
  "print_request r = print_head r @ body r"

lemmas wf_defs = wf_request_def wf_method_def wf_target_def wf_field_name_def wf_field_value_def

lemma visible_facts [simp]:
  "visible c \<Longrightarrow> is_ascii c" "visible c \<Longrightarrow> \<not> is_whitespace [c]"
  "\<not> visible cr" "\<not> visible nl" "\<not> visible (CHR '' '')"
  by (auto simp: visible_def is_ascii_def)

lemma split_whitespace_words:
  assumes "list_all visible a" "list_all visible b" "list_all visible c"
    and "a \<noteq> []" "b \<noteq> []" "c \<noteq> []"
  shows "split_whitespace (a @ '' '' @ b @ '' '' @ c) = [a, b, c]"
proof -
  let ?s = "\<lambda>s. map (\<lambda>x. [x]) s"
  have asc: "list_all is_ascii (a @ '' '' @ b @ '' '' @ c)"
    using assms by (auto simp: list_all_iff is_ascii_def visible_def)
  have nws: "list_all visible x \<Longrightarrow> w \<in> set (?s x) \<Longrightarrow> \<not> is_whitespace w" for x w
    by (auto simp: list_all_iff simp del: is_whitespace_ascii)
  have sp: "is_whitespace '' ''" by simp
  have "split_by is_whitespace (?s a @ '' '' # ?s b @ '' '' # ?s c) = [?s a, ?s b, ?s c]"
    using split_by_append [of "?s a" is_whitespace "'' ''" "?s b @ '' '' # ?s c", OF nws [OF assms(1)] sp]
      split_by_append [of "?s b" is_whitespace "'' ''" "?s c", OF nws [OF assms(2)] sp]
      split_by_none [of "?s c" is_whitespace, OF nws [OF assms(3)]]
    by simp
  then show ?thesis
    using asc assms(4-6) by (simp add: split_whitespace_def chars_ascii)
qed

lemma trim_ascii:
  assumes "list_all is_ascii v" and "v \<noteq> []" and "\<not> is_whitespace [hd v]" "\<not> is_whitespace [last v]"
  shows "trim v = v" and "trim (CHR '' '' # v) = v"
proof -
  have c: "chars v = map (\<lambda>c. [c]) v" by (rule chars_ascii [OF assms(1)])
  have c': "chars (CHR '' '' # v) = '' '' # map (\<lambda>c. [c]) v"
    using assms(1) by (subst chars_ascii) (auto simp: is_ascii_def)
  obtain x xs where v: "v = x # xs" using assms(2) by (cases v) auto
  obtain y ys where v': "v = ys @ [y]" using assms(2) by (metis append_butlast_last_id)
  have d: "dropWhile is_whitespace (map (\<lambda>c. [c]) v) = map (\<lambda>c. [c]) v"
    using assms(3) v by (simp del: is_whitespace_ascii)
  have d': "dropWhile is_whitespace (rev (map (\<lambda>c. [c]) v)) = rev (map (\<lambda>c. [c]) v)"
    using assms(4) v' by (simp del: is_whitespace_ascii)
  show "trim v = v" by (simp add: trim_def c d d')
  show "trim (CHR '' '' # v) = v" by (simp add: trim_def c' d d')
qed

lemma wf_field_value_trim: "wf_field_value v \<Longrightarrow> trim (CHR '' '' # v) = v"
proof (cases "v = []")
  case True
  have "list_all is_ascii '' ''" by (simp add: is_ascii_def)
  with True show ?thesis by (simp add: trim_def chars_ascii)
next
  case False
  assume wf: "wf_field_value v"
  with False have "visible (hd v)" "visible (last v)"
    by (auto simp: wf_field_value_def list_all_iff)
  moreover have "list_all is_ascii v"
    using wf by (auto simp: wf_field_value_def list_all_iff is_ascii_def visible_def)
  ultimately show ?thesis using False by (intro trim_ascii) (simp_all del: is_whitespace_ascii)
qed

lemma wf_field_name_trim: "wf_field_name k \<Longrightarrow> trim k = k"
  by (rule trim_ascii(1)) (auto simp: wf_field_name_def list_all_iff simp del: is_whitespace_ascii)

lemma wf_field_name_lower: "wf_field_name k \<Longrightarrow> to_ascii_lowercase k = k"
  unfolding wf_field_name_def to_ascii_lowercase_def list_all_iff
  by (intro map_idI) (auto simp: byte_lower_def)

lemma find_crlf2_skip:
  "cr \<notin> set l \<Longrightarrow> find_sub crlf2 (l @ t) = map_option ((+) (length l)) (find_sub crlf2 t)"
  unfolding crlf2_def by (rule find_sub_skip)

lemma find_crlf2_line:
  "c \<noteq> cr \<Longrightarrow> find_sub crlf2 (cr # nl # c # t) = map_option ((+) 2) (find_sub crlf2 (c # t))"
  by (auto simp: crlf2_def option.map_comp comp_def)

definition wf_fields :: "(string \<times> string) list \<Rightarrow> bool" where
  "wf_fields hs \<longleftrightarrow> list_all (\<lambda>(k, v). wf_field_name k \<and> wf_field_value v) hs"

lemma wf_fields_Cons [simp]:
  "wf_fields (kv # hs) \<longleftrightarrow> wf_field_name (fst kv) \<and> wf_field_value (snd kv) \<and> wf_fields hs"
  by (auto simp: wf_fields_def split_def)

lemma wf_field_chars:
  assumes "wf_field_name (fst kv)" "wf_field_value (snd kv)" and "c \<in> {cr, nl}"
  shows "c \<notin> set (field_line kv)"
proof -
  have "\<not> visible c" "c \<notin> set '': ''" using assms(3) by auto
  with assms show ?thesis
    by (auto simp: wf_field_name_def wf_field_value_def list_all_iff field_line_def)
qed

lemma wf_field_first:
  assumes "wf_field_name (fst kv)"
  obtains c l where "field_line kv = c # l" and "c \<noteq> cr"
proof (cases "fst kv")
  case (Cons c k')
  with assms have "visible c" by (simp add: wf_field_name_def)
  then have "c \<noteq> cr" by auto
  with Cons that show thesis by (simp add: field_line_def)
qed (use assms in \<open>simp add: wf_field_name_def\<close>)

lemma find_crlf2_fields:
  "wf_fields hs \<Longrightarrow>
     find_sub crlf2 (cr # nl # concat (map print_field hs) @ cr # nl # b) =
       Some (length (concat (map print_field hs)))"
proof (induction hs)
  case Nil
  show ?case by (simp add: crlf2_def)
next
  case (Cons kv hs)
  then have wf: "wf_field_name (fst kv)" "wf_field_value (snd kv)" "wf_fields hs" by auto
  let ?t = "cr # nl # concat (map print_field hs) @ cr # nl # b"
  obtain c l where l: "field_line kv = c # l" and "c \<noteq> cr" by (rule wf_field_first [OF wf(1)])
  have "find_sub crlf2 (cr # nl # field_line kv @ ?t) = map_option ((+) 2) (find_sub crlf2 (field_line kv @ ?t))"
    using find_crlf2_line [OF \<open>c \<noteq> cr\<close>] by (simp add: l del: find_sub.simps)
  also have "\<dots> = Some (2 + (length (field_line kv) + length (concat (map print_field hs))))"
    using wf_field_chars [OF wf(1,2), of cr] Cons.IH [OF wf(3)]
    by (subst find_crlf2_skip) (simp_all del: find_sub.simps)
  finally show ?case by (simp add: print_field_def [of kv] del: find_sub.simps)
qed

lemma wf_request_line_chars: "wf_request r \<Longrightarrow> c \<in> {cr, nl} \<Longrightarrow> c \<notin> set (request_line r)"
  by (auto simp: wf_defs request_line_def list_all_iff visible_def)

lemma wf_request_fields: "wf_request r \<Longrightarrow> wf_fields (headers r)"
  by (simp add: wf_request_def wf_fields_def)

lemma find_header_end_print:
  assumes "wf_request r"
  shows "find_sub crlf2 (print_head r @ b) = Some (length (print_head r) - 4)"
proof -
  have "find_sub crlf2 (request_line r @ cr # nl # concat (map print_field (headers r)) @ cr # nl # b)
        = Some (length (request_line r) + length (concat (map print_field (headers r))))"
    using wf_request_line_chars [OF assms, of cr]
    by (subst find_crlf2_skip) (simp_all only: find_crlf2_fields [OF wf_request_fields [OF assms]], simp_all)
  then show ?thesis by (simp add: print_head_def del: find_sub.simps)
qed

lemma print_head_ascii: "wf_request r \<Longrightarrow> list_all is_ascii (print_head r)"
  by (fastforce simp: wf_defs print_head_def request_line_def print_field_def field_line_def
      list_all_iff is_ascii_def visible_def)

lemma str_lines_fields:
  "wf_fields hs \<Longrightarrow>
     str_lines (concat (map print_field hs) @ [cr, nl]) = map field_line hs @ [[]]"
proof (induction hs)
  case Nil
  show ?case using str_lines_crlf [of "[]" "[]"] by simp
next
  case (Cons kv hs)
  then have "nl \<notin> set (field_line kv)"
    by (intro wf_field_chars) simp_all
  from str_lines_crlf [OF this, of "concat (map print_field hs) @ [cr, nl]"] Cons
  show ?case by (simp add: print_field_def [of kv])
qed

lemma str_lines_print_head:
  assumes "wf_request r"
  shows "str_lines (print_head r) = request_line r # map field_line (headers r) @ [[]]"
  using str_lines_crlf [of "request_line r"] wf_request_line_chars [OF assms, of nl]
    str_lines_fields [OF wf_request_fields [OF assms]]
  by (simp add: print_head_def)

lemma wf_field_split:
  "wf_field_name (fst kv) \<Longrightarrow> split_once (CHR '':'') (field_line kv) = Some (fst kv, CHR '' '' # snd kv)"
  using split_once_append [of "CHR '':''" "fst kv" "CHR '' '' # snd kv"]
  by (auto simp: field_line_def wf_field_name_def list_all_iff)

lemma header_line_field:
  "wf_field_name (fst kv) \<Longrightarrow> wf_field_value (snd kv) \<Longrightarrow> header_line (field_line kv) = Some kv"
  by (simp add: header_line_def wf_field_split wf_field_name_trim wf_field_value_trim wf_field_name_lower)

lemma header_lines:
  "wf_fields hs \<Longrightarrow> List.map_filter header_line (map field_line hs @ [[]]) = hs"
proof (induction hs)
  case Nil
  show ?case by (simp add: List.map_filter_def header_line_def split_once_def)
next
  case (Cons kv hs)
  then show ?case by (simp add: List.map_filter_def header_line_field)
qed

lemma length_print_head: "length (print_head r) - 4 + 4 = length (print_head r)"
  by (simp add: print_head_def request_line_def)

lemma split_request_line:
  "wf_request r \<Longrightarrow> split_whitespace (request_line r) = [req_method r, path r, ''HTTP/1.1'']"
  using split_whitespace_words [of "req_method r" "path r" "''HTTP/1.1''"]
  by (simp add: request_line_def wf_defs visible_def)

lemma parse_print_head:
  assumes "wf_request r"
  shows "parse_http_request (print_head r @ b) = Some (r\<lparr>body := from_utf8_lossy b\<rparr>)"
  using from_utf8_lossy_valid [OF utf8_valid_ascii [OF print_head_ascii [OF assms]]]
  by (simp add: parse_http_request_def find_header_end_print [OF assms] length_print_head
      str_lines_print_head [OF assms] split_request_line [OF assms]
      header_lines [OF wf_request_fields [OF assms]] Let_def)

section \<open>Facts about the read loop\<close>

definition declared_length :: "http_request \<Rightarrow> nat" where
  "declared_length r =
     (case header r ''content-length'' of
        Some v \<Rightarrow> (case parse_usize v of Some n \<Rightarrow> n | None \<Rightarrow> 0)
      | None \<Rightarrow> 0)"

lemma content_length_fields:
  "wf_fields hs \<Longrightarrow>
     content_length_lines (map field_line hs @ [[]]) =
       (case map_option snd (find (\<lambda>(k, _). eq_ignore_ascii_case k ''content-length'') hs) of
          Some v \<Rightarrow> (case parse_usize v of Some n \<Rightarrow> n | None \<Rightarrow> 0)
        | None \<Rightarrow> 0)"
  by (induction hs) (simp_all add: split_once_def [of _ "[]"] wf_field_split wf_field_value_trim split_def)

lemma content_length_request_line:
  assumes "wf_request r"
  shows "content_length_lines (request_line r # ls) = content_length_lines ls"
proof (cases "split_once (CHR '':'') (request_line r)")
  case (Some kv)
  obtain k v where kv: "kv = (k, v)" by (cases kv)
  with Some have rl: "request_line r = k @ CHR '':'' # v" and "CHR '':'' \<notin> set k"
    by (simp_all add: split_once_Some)
  have "CHR '' '' \<in> set k"
  proof (rule ccontr)
    assume "CHR '' '' \<notin> set k"
    with rl have "takeWhile (\<lambda>c. c \<noteq> CHR '' '') (request_line r)
                  = k @ CHR '':'' # takeWhile (\<lambda>c. c \<noteq> CHR '' '') v"
      by (auto simp: takeWhile_append)
    moreover have "takeWhile (\<lambda>c. c \<noteq> CHR '' '') (request_line r) = req_method r"
      using assms unfolding request_line_def
      by (auto intro!: takeWhile_stop simp: wf_defs list_all_iff)
    ultimately show False using assms by (simp add: wf_defs)
  qed
  then have "CHR '' '' \<in> set (to_ascii_lowercase k)"
    by (force simp: to_ascii_lowercase_def byte_simps)
  then have "\<not> eq_ignore_ascii_case k ''content-length''"
    by (auto simp: eq_ignore_ascii_case_def) (simp add: to_ascii_lowercase_def byte_simps)
  with Some kv show ?thesis by simp
next
  case None
  then show ?thesis by (simp del: split_once_None)
qed

lemma content_length_print:
  assumes "wf_request r"
  shows "content_length (print_head r @ b) (length (print_head r)) = declared_length r"
  using from_utf8_lossy_valid [OF utf8_valid_ascii [OF print_head_ascii [OF assms]]]
  by (simp add: content_length_def str_lines_print_head [OF assms] content_length_request_line [OF assms]
      content_length_fields [OF wf_request_fields [OF assms]] declared_length_def header_def
      del: content_length_lines.simps)

text \<open>\<open>delivers\<close>: the next reads yield the chunks \<open>cs\<close>, each in time and within the buffer.\<close>

definition delivers :: "reads \<Rightarrow> nat \<Rightarrow> nat \<Rightarrow> string list \<Rightarrow> bool" where
  "delivers reads deadline k cs \<longleftrightarrow>
     list_all (\<lambda>i. fst (reads (k + i)) \<le> deadline \<and> snd (reads (k + i)) = Some (cs ! i)) [0..<length cs]
     \<and> list_all (\<lambda>c. c \<noteq> [] \<and> length c \<le> BUF_BYTES) cs"

lemma delivers_Cons:
  assumes "delivers reads d k (c # cs)"
  shows "fst (reads k) \<le> d" "snd (reads k) = Some c" "c \<noteq> []" "length c \<le> BUF_BYTES"
    "delivers reads d (k + 1) cs"
proof -
  from assms have at: "i < Suc (length cs) \<Longrightarrow>
      fst (reads (k + i)) \<le> d \<and> snd (reads (k + i)) = Some ((c # cs) ! i)" for i
    by (simp add: delivers_def list_all_iff del: upt_Suc)
  from at [of 0] assms show "fst (reads k) \<le> d" "snd (reads k) = Some c" "c \<noteq> []" "length c \<le> BUF_BYTES"
    by (simp_all add: delivers_def)
  have "fst (reads (k + 1 + i)) \<le> d \<and> snd (reads (k + 1 + i)) = Some (cs ! i)" if "i < length cs" for i
    using at [of "Suc i"] that by simp
  with assms show "delivers reads d (k + 1) cs"
    by (simp add: delivers_def list_all_iff)
qed

text \<open>What the loop knows after reading the prefix \<open>data\<close> of a whole request.\<close>

definition scanned :: "nat \<Rightarrow> nat \<Rightarrow> string \<Rightarrow> nat option \<Rightarrow> nat \<Rightarrow> bool" where
  "scanned h want data he w \<longleftrightarrow>
     (he = None \<and> find_sub crlf2 data = None) \<or> (he = Some h \<and> w = want)"

lemma find_header_end_scanned:
  assumes find: "find_sub crlf2 whole = Some p" "want = content_length whole (p + 4)"
    and pre: "whole = data @ rest"
    and old: "he = None \<or> (he = Some (p + 4) \<and> w = want)"
    and new: "find_header_end he w data = (he', w')"
  shows "scanned (p + 4) want data he' w'"
proof (cases he)
  case None
  show ?thesis
  proof (cases "find_sub crlf2 data")
    case (Some j)
    then have "j = p" using find_sub_append [OF Some, of rest] find(1) pre by simp
    moreover have "take (p + 4) data = take (p + 4) whole"
      using find_sub_Some [OF Some] \<open>j = p\<close> by (simp add: pre crlf2_def)
    ultimately show ?thesis
      using None Some new find(2) by (auto simp: find_header_end_def scanned_def content_length_def)
  qed (use None new in \<open>auto simp: find_header_end_def scanned_def\<close>)
qed (use old new in \<open>auto simp: find_header_end_def scanned_def\<close>)

lemma read_loop_delivers:
  assumes find: "find_sub crlf2 whole = Some p" "want = content_length whole (p + 4)"
    and len: "length whole = p + 4 + want" "length whole \<le> MAX_REQUEST_BYTES"
  shows "delivers reads d k cs \<Longrightarrow> whole = data @ concat cs \<Longrightarrow> cs \<noteq> [] \<Longrightarrow>
           he = None \<or> (he = Some (p + 4) \<and> w = want) \<Longrightarrow>
           read_loop reads d k data he w = parse_http_request whole"
proof (induction cs arbitrary: k data he w)
  case (Cons c cs)
  note c = delivers_Cons [OF Cons.prems(1)]
  let ?data = "data @ c"
  have pre: "whole = ?data @ concat cs" using Cons.prems(2) by simp
  obtain he' w' where new: "find_header_end he w ?data = (he', w')" by fastforce
  have sc: "scanned (p + 4) want ?data he' w'"
    by (rule find_header_end_scanned [OF find pre Cons.prems(4) new])
  have short: "length ?data \<le> MAX_REQUEST_BYTES" using pre len(2) by simp
  have step: "read_loop reads d k data he w =
      (if complete he' w' ?data then parse_http_request ?data
       else read_loop reads d (k + 1) ?data he' w')"
    using c short by (subst read_loop.simps) (simp add: new)
  have all: "?data = whole" if "cs = []" using pre that by simp
  have nowrap: "(p + 4 + want) mod 2 ^ 64 = p + 4 + want"
    using len by (simp add: MAX_REQUEST_BYTES_def)
  have "?data = whole \<longleftrightarrow> length whole \<le> length ?data" using pre by auto
  with sc find(1) len(1) nowrap have fin: "complete he' w' ?data \<longleftrightarrow> ?data = whole"
    by (auto simp: scanned_def complete_def)
  show ?case
  proof (cases "?data = whole")
    case False
    then have "cs \<noteq> []" using all by blast
    with Cons.IH [OF c(5) pre this] sc False fin step show ?thesis
      by (auto simp: scanned_def)
  qed (use step fin in simp)
qed simp

text \<open>What the loop returns is the parse of what it read, in time and within the size limit.\<close>

definition chunk_at :: "reads \<Rightarrow> nat \<Rightarrow> string" where
  "chunk_at reads i = (case snd (reads i) of Some c \<Rightarrow> take BUF_BYTES c | None \<Rightarrow> [])"

lemma read_chunk:
  assumes "\<not> d < fst (reads k)" "snd (reads k) = Some c" "c \<noteq> []"
    and "find_header_end he w (data @ take BUF_BYTES c) = (he', w')"
  shows "read_loop reads d k data he w =
    (let data = data @ take BUF_BYTES c in
     if MAX_REQUEST_BYTES < length data then None
     else if complete he' w' data then parse_http_request data
     else read_loop reads d (k + 1) data he' w')"
  using assms by (subst read_loop.simps) (simp add: Let_def)

definition parsed_in_time :: "reads \<Rightarrow> nat \<Rightarrow> nat \<Rightarrow> string \<Rightarrow> http_request \<Rightarrow> nat \<Rightarrow> bool" where
  "parsed_in_time reads d k data r n \<longleftrightarrow> k \<le> n
     \<and> parse_http_request (data @ concat (map (chunk_at reads) [k..<n])) = Some r
     \<and> length (data @ concat (map (chunk_at reads) [k..<n])) \<le> MAX_REQUEST_BYTES
     \<and> (\<forall>i \<in> {k..<n}. fst (reads i) \<le> d)"

lemma parsed_in_time_Suc:
  assumes "parsed_in_time reads d (k + 1) (data @ chunk_at reads k) r n" and "fst (reads k) \<le> d"
  shows "parsed_in_time reads d k data r n"
proof -
  from assms(1) have n: "k + 1 \<le> n" by (simp add: parsed_in_time_def)
  then have "[k..<n] = k # [k + 1..<n]" "{k..<n} = insert k {k + 1..<n}" by (auto simp: upt_conv_Cons)
  with assms n show ?thesis by (simp add: parsed_in_time_def)
qed

lemma read_loop_bounded:
  "read_loop reads d k data he w = Some r \<Longrightarrow> length data \<le> MAX_REQUEST_BYTES \<Longrightarrow>
   \<exists>n. parsed_in_time reads d k data r n"
proof (induction reads d k data he w rule: read_loop.induct)
  case (1 reads d k data he w)
  from "1.prems"(1) obtain c where t: "\<not> d < fst (reads k)" and c: "snd (reads k) = Some c"
    by (subst (asm) read_loop.simps) (auto split: if_splits option.splits)
  show ?case
  proof (cases "c = []")
    case True
    with "1.prems" t c have "parse_http_request data = Some r"
      by (subst (asm) read_loop.simps) simp
    with "1.prems"(2) show ?thesis by (intro exI [of _ k]) (simp add: parsed_in_time_def)
  next
    case False
    let ?data = "data @ take BUF_BYTES c"
    obtain he' w' where new: "find_header_end he w ?data = (he', w')" by fastforce
    note step = "1.prems"(1) [unfolded read_chunk [where reads = reads and k = k, OF t c False new] Let_def]
    from step have short: "\<not> MAX_REQUEST_BYTES < length ?data" by (auto split: if_splits)
    have "\<exists>n. parsed_in_time reads d (k + 1) ?data r n"
    proof (cases "complete he' w' ?data")
      case True
      with step short show ?thesis by (intro exI [of _ "k + 1"]) (simp add: parsed_in_time_def)
    next
      case notc: False
      with step short have "read_loop reads d (k + 1) ?data he' w' = Some r" by simp
      from "1.IH" [OF t c False refl short new [symmetric] refl notc this] short show ?thesis by simp
    qed
    moreover have "chunk_at reads k = take BUF_BYTES c" by (simp add: chunk_at_def c)
    ultimately show ?thesis using parsed_in_time_Suc [of reads d k data r] t by auto
  qed
qed

text \<open>A request that arrives in one read.\<close>

lemma read_one_chunk:
  assumes "wf_request r" and "fst (reads 0) \<le> t0 + REQUEST_DEADLINE"
    and "snd (reads 0) = Some (print_request r)" and "length (print_request r) \<le> BUF_BYTES"
    and "(length (print_head r) + declared_length r) mod 2 ^ 64 \<le> length (print_request r)"
  shows "read_http_request t0 reads = Some r"
proof -
  have "find_header_end None 0 (print_request r) = (Some (length (print_head r)), declared_length r)"
    unfolding find_header_end_def print_request_def find_header_end_print [OF assms(1)]
    by (simp add: length_print_head content_length_print [OF assms(1)])
  moreover have "print_request r \<noteq> []" by (simp add: print_request_def print_head_def)
  moreover have "length (print_request r) \<le> MAX_REQUEST_BYTES"
    using assms(4) by (simp add: BUF_BYTES_def MAX_REQUEST_BYTES_def)
  ultimately have "read_http_request t0 reads = parse_http_request (print_request r)"
    unfolding read_http_request_def using assms(2-5)
    by (subst read_loop.simps) (simp add: complete_def)
  with parse_print_head [OF assms(1), of "body r"] assms(1) show ?thesis
    by (simp add: print_request_def wf_request_def)
qed

definition sample_request :: "string \<Rightarrow> http_request" where
  "sample_request len =
     \<lparr>req_method = ''POST'', path = ''/a?b=c'', headers = [(''content-length'', len)], body = ''hi''\<rparr>"

lemma sample_request_facts:
  "print_head (sample_request v) =
     ''POST /a?b=c HTTP/1.1'' @ [cr, nl] @ ''content-length: '' @ v @ [cr, nl, cr, nl]"
  "body (sample_request v) = ''hi''"
  "header (sample_request v) ''content-length'' = Some v"
  "wf_request (sample_request v) \<longleftrightarrow> wf_field_value v"
  by (simp_all add: sample_request_def print_head_def request_line_def print_field_def field_line_def
      header_def wf_request_def wf_method_def wf_target_def wf_field_name_def visible_def byte_simps)

lemma sample_declared_length:
  "declared_length (sample_request ''2'') = 2"
  "declared_length (sample_request ''18446744073709551600'') = 18446744073709551600"
  by (simp_all add: declared_length_def sample_request_facts parse_usize_def from_str_radix_def
      digit_val_def byte_simps)

lemma sample_wf: "wf_request (sample_request ''2'')" "wf_request (sample_request ''18446744073709551600'')"
  by (simp_all add: sample_request_facts wf_field_value_def visible_def)

section \<open>Properties\<close>

text \<open>
  C38. Reading off a connection does not depend on how TCP cuts the bytes: a well-formed request
  whose Content-Length is the length of its body, delivered before the deadline in any non-empty
  chunks that fit the buffer, is returned exactly as it was sent.
\<close>

theorem request_read_back:
  assumes "wf_request r" and "declared_length r = length (body r)"
    and "length (print_request r) \<le> MAX_REQUEST_BYTES"
    and "concat cs = print_request r" and "delivers reads (t0 + REQUEST_DEADLINE) 0 cs"
  shows "read_http_request t0 reads = Some r"
proof -
  let ?p = "length (print_head r) - 4"
  have p: "find_sub crlf2 (print_request r) = Some ?p"
    by (simp add: print_request_def find_header_end_print [OF assms(1)])
  have w: "length (body r) = content_length (print_request r) (?p + 4)"
    unfolding length_print_head
    by (simp add: print_request_def content_length_print [OF assms(1)] assms(2))
  have len: "length (print_request r) = ?p + 4 + length (body r)"
    unfolding length_print_head by (simp add: print_request_def)
  have ne: "cs \<noteq> []"
    using assms(4) by (auto simp: print_request_def print_head_def)
  have "read_http_request t0 reads = parse_http_request (print_request r)"
    unfolding read_http_request_def
    by (rule read_loop_delivers [OF p w len assms(3,5) _ ne]) (simp_all add: assms(4))
  also have "\<dots> = Some r"
    using parse_print_head [OF assms(1), of "body r"] assms(1)
    by (simp add: print_request_def wf_request_def)
  finally show ?thesis .
qed

theorem request_read_back_witness:
  "wf_request (sample_request ''2'')
   \<and> read_http_request 0 (\<lambda>k. (k, Some (if k = 0 then take 9 (print_request (sample_request ''2''))
                                        else drop 9 (print_request (sample_request ''2'')))))
     = Some (sample_request ''2'')"
proof -
  let ?cs = "[take 9 (print_request (sample_request ''2'')), drop 9 (print_request (sample_request ''2''))]"
  let ?reads = "\<lambda>k. (k, Some (if k = 0 then take 9 (print_request (sample_request ''2''))
                                        else drop 9 (print_request (sample_request ''2''))))"
  have d: "declared_length (sample_request ''2'') = length (body (sample_request ''2''))"
    by (simp add: sample_declared_length sample_request_facts)
  have l: "length (print_request (sample_request ''2'')) \<le> MAX_REQUEST_BYTES"
    by (simp add: print_request_def sample_request_facts MAX_REQUEST_BYTES_def)
  have "delivers ?reads (0 + REQUEST_DEADLINE) 0 ?cs"
    by (simp add: delivers_def REQUEST_DEADLINE_def print_request_def sample_request_facts BUF_BYTES_def)
  from request_read_back [OF sample_wf(1) d l _ this] sample_wf(1) show ?thesis by simp
qed

text \<open>
  The read loop is bounded: it terminates on every sequence of reads, and a request that it
  returns is the parse of the bytes of the reads it made, at most \<open>MAX_REQUEST_BYTES\<close> of them, none
  made after the deadline.
\<close>

lemma read_request_bounded:
  assumes "read_http_request t0 reads = Some r"
  shows "\<exists>n. parse_http_request (concat (map (chunk_at reads) [0..<n])) = Some r
    \<and> length (concat (map (chunk_at reads) [0..<n])) \<le> MAX_REQUEST_BYTES
    \<and> (\<forall>i \<in> {0..<n}. fst (reads i) \<le> t0 + REQUEST_DEADLINE)"
  using read_loop_bounded [OF assms [unfolded read_http_request_def]] by (auto simp: parsed_in_time_def)

lemma read_request_bounded_witness:
  "\<exists>n. parse_http_request
         (concat (map (chunk_at (\<lambda>k. (k, Some (print_request (sample_request ''2''))))) [0..<n]))
       = Some (sample_request ''2'')"
proof -
  let ?reads = "\<lambda>k::nat. (k, Some (print_request (sample_request ''2'')))"
  have "read_http_request 0 ?reads = Some (sample_request ''2'')"
    by (rule read_one_chunk [OF sample_wf(1)])
      (simp_all add: print_request_def sample_request_facts BUF_BYTES_def sample_declared_length)
  from read_request_bounded [OF this] show ?thesis by blast
qed

text \<open>
  A declared length close to \<open>2 ^ 64\<close> wraps the sum of header and body length, so the loop takes the
  request for complete after its first read.
\<close>

lemma content_length_wraps:
  "read_http_request 0
     (\<lambda>k. (k, if k = 0 then Some (print_request (sample_request ''18446744073709551600'')) else None))
   = Some (sample_request ''18446744073709551600'')"
  by (rule read_one_chunk [OF sample_wf(2)])
    (simp_all add: print_request_def sample_request_facts BUF_BYTES_def sample_declared_length)

end
