(* ===== verification/Web_Guards.thy ===== *)
theory Web_Guards
  imports Http_Protocol
begin

text \<open>
  The guards of the web worker (the first part of \<open>web.rs\<close> and its bind check): event-stream
  tickets, the per-address rate windows, the token comparison, percent decoding, the authorisation
  and cross-origin checks, nonces and \<open>check_exposure\<close>. The two static maps are explicit state; an
  \<open>Instant\<close> is a number of milliseconds and every clock reading is an argument, so a sequence of
  calls is any order in which threads take the mutex. \<open>duration_since\<close> saturates at zero, as
  subtraction on \<open>nat\<close> does.
\<close>

section \<open>State and configuration\<close>

record web_config =
  token :: string
  socket :: string
  mock_enabled :: bool

type_synonym tickets = "string \<rightharpoonup> nat \<times> string"

record rate_windows =
  general :: "ip_addr \<rightharpoonup> nat list"
  auth_fail :: "ip_addr \<rightharpoonup> nat list"

definition RATE_GENERAL_LIMIT :: nat where "RATE_GENERAL_LIMIT = 120"
definition RATE_GENERAL_WINDOW :: nat where "RATE_GENERAL_WINDOW = 60 * 1000"
definition RATE_AUTH_FAIL_LIMIT :: nat where "RATE_AUTH_FAIL_LIMIT = 20"
definition RATE_AUTH_FAIL_WINDOW :: nat where "RATE_AUTH_FAIL_WINDOW = 300 * 1000"

section \<open>Event-stream tickets\<close>

definition sweep_tickets :: "nat \<Rightarrow> tickets \<Rightarrow> tickets" where
  [web_defs]: "sweep_tickets now ts = retain (\<lambda>_ (issued, _). now - issued < SSE_TICKET_TTL) ts"

text \<open>\<open>ticket\<close> is the nonce the call draws before it takes the lock.\<close>

definition mint_sse_ticket :: "string \<Rightarrow> nat \<Rightarrow> string \<Rightarrow> tickets \<Rightarrow> string \<times> tickets" where
  [web_defs]: "mint_sse_ticket ticket now session_token ts =
     (ticket, (sweep_tickets now ts)(ticket \<mapsto> (now, session_token)))"

definition valid_sse_ticket :: "string \<Rightarrow> nat \<Rightarrow> tickets \<Rightarrow> bool \<times> tickets" where
  [web_defs]: "valid_sse_ticket t now ts =
     (let ts = sweep_tickets now ts in (ts t \<noteq> None, ts))"

definition consume_sse_ticket :: "string \<Rightarrow> nat \<Rightarrow> tickets \<Rightarrow> string option \<times> tickets" where
  [web_defs]: "consume_sse_ticket t now ts =
     (let ts = sweep_tickets now ts in (map_option snd (ts t), ts(t := None)))"

section \<open>Rate windows\<close>

definition hits_of :: "(ip_addr \<rightharpoonup> nat list) \<Rightarrow> ip_addr \<Rightarrow> nat list" where
  "hits_of m ip = (case m ip of Some hs \<Rightarrow> hs | None \<Rightarrow> [])"

definition rate_check ::
    "(ip_addr \<rightharpoonup> nat list) \<Rightarrow> ip_addr \<Rightarrow> nat \<Rightarrow> nat \<Rightarrow> nat \<Rightarrow> bool \<times> (ip_addr \<rightharpoonup> nat list)" where
  "rate_check m ip window limit now =
     (let hits = filter (\<lambda>t. now - t < window) (hits_of m ip) in
      if limit \<le> length hits then (False, m(ip \<mapsto> hits))
      else (True, retain (\<lambda>_ v. v \<noteq> []) (m(ip \<mapsto> hits @ [now]))))"

definition rate_limited :: "ip_addr \<Rightarrow> nat \<Rightarrow> rate_windows \<Rightarrow> bool \<times> rate_windows" where
  "rate_limited ip now w =
     (let (ok, m) = rate_check (general w) ip RATE_GENERAL_WINDOW RATE_GENERAL_LIMIT now in
      (\<not> ok, w\<lparr>general := m\<rparr>))"

definition auth_failures_exceeded :: "ip_addr \<Rightarrow> nat \<Rightarrow> rate_windows \<Rightarrow> bool \<times> rate_windows" where
  "auth_failures_exceeded ip now w =
     (let hits = filter (\<lambda>t. now - t < RATE_AUTH_FAIL_WINDOW) (hits_of (auth_fail w) ip) in
      (RATE_AUTH_FAIL_LIMIT \<le> length hits, w\<lparr>auth_fail := (auth_fail w)(ip \<mapsto> hits)\<rparr>))"

definition record_auth_failure :: "ip_addr \<Rightarrow> nat \<Rightarrow> rate_windows \<Rightarrow> rate_windows" where
  "record_auth_failure ip now w =
     w\<lparr>auth_fail := (auth_fail w)(ip \<mapsto> hits_of (auth_fail w) ip @ [now])\<rparr>"

section \<open>Comparing and decoding\<close>

definition byte :: "char \<Rightarrow> 8 word" where
  "byte c = of_nat (u8 c)"

definition constant_time_eq :: "string \<Rightarrow> string \<Rightarrow> bool" where
  "constant_time_eq a b \<longleftrightarrow>
     (if length a \<noteq> length b then False
      else fold (\<lambda>(x, y) diff. or diff (xor (byte x) (byte y))) (zip a b) 0 = 0)"

fun percent_bytes :: "string \<Rightarrow> string" where
  "percent_bytes [] = []"
| "percent_bytes (c # r) =
     (if c = CHR ''%'' \<and> 2 \<le> length r then
        (case from_utf8_hex (take 2 r) of
           Some b \<Rightarrow> char_of b # percent_bytes (drop 2 r)
         | None \<Rightarrow> c # percent_bytes r)
      else if c = CHR ''+'' then CHR '' '' # percent_bytes r
      else c # percent_bytes r)"

definition percent_decode :: "string \<Rightarrow> string" where
  "percent_decode s = from_utf8_lossy (percent_bytes s)"

definition query_param :: "string \<Rightarrow> string \<Rightarrow> string option" where
  "query_param q key =
     map_option (\<lambda>(_, v). percent_decode v)
       (find (\<lambda>(k, _). k = key) (List.map_filter (split_once (CHR ''='')) (split_char (CHR ''&'') q)))"

section \<open>Authorisation\<close>

definition bearer_ok :: "http_request \<Rightarrow> web_config \<Rightarrow> bool" where
  "bearer_ok r cfg =
     (case header r ''authorization'' of
        Some v \<Rightarrow>
          (case strip_prefix ''Bearer '' v of
             Some t \<Rightarrow> constant_time_eq t (token cfg)
           | None \<Rightarrow> False)
      | None \<Rightarrow> False)"

definition authorized :: "http_request \<Rightarrow> web_config \<Rightarrow> nat \<Rightarrow> tickets \<Rightarrow> bool \<times> tickets" where
  "authorized r cfg now ts =
     (if token cfg = [] then (True, ts)
      else if bearer_ok r cfg then (True, ts)
      else if route r = ''/api/v1/events'' then
        (case query_param (query r) ''ticket'' of
           Some t \<Rightarrow> valid_sse_ticket t now ts
         | None \<Rightarrow> (False, ts))
      else (False, ts))"

definition nth_or_empty :: "nat \<Rightarrow> string list \<Rightarrow> string" where
  "nth_or_empty i xs = (if i < length xs then xs ! i else [])"

definition origin_ok :: "http_request \<Rightarrow> bool" where
  "origin_ok r =
     (case header r ''origin'' of
        Some origin \<Rightarrow>
          let host = (case header r ''host'' of Some h \<Rightarrow> h | None \<Rightarrow> []);
              origin_host = nth_or_empty 1 (split_str ''://'' origin)
          in \<not> (origin_host = [] \<or> \<not> eq_ignore_ascii_case origin_host host)
      | None \<Rightarrow> True)"

definition csrf_ok :: "http_request \<Rightarrow> bool" where
  "csrf_ok r =
     (if \<not> origin_ok r then False
      else if route r = ''/api/v1/events'' then True
      else header r ''x-allgres-client'' \<noteq> None)"

section \<open>Nonces and the bind check\<close>

text \<open>
  \<open>urandom\<close> is what \<open>read_exact\<close> filled the buffer with, when it succeeded; the fall-back mixes the
  clock, the process id and the address of the buffer.
\<close>

definition to_le_bytes :: "128 word \<Rightarrow> string" where
  "to_le_bytes x = map (\<lambda>i. char_of (unat (drop_bit (8 * i) x) mod 256)) [0..<16]"

definition nonce :: "string option \<Rightarrow> 128 word \<Rightarrow> 32 word \<Rightarrow> 64 word \<Rightarrow> string" where
  "nonce urandom nanos pid addr =
     (let buf = (case urandom of
                   Some bytes \<Rightarrow> bytes
                 | None \<Rightarrow> to_le_bytes (xor (xor nanos (push_bit 64 (ucast pid))) (ucast addr)))
      in concat (map fmt_02x buf))"

definition rfind_split :: "char \<Rightarrow> string \<Rightarrow> string option" where
  "rfind_split c s =
     (if c \<in> set s then Some (rev (drop 1 (dropWhile (\<lambda>x. x \<noteq> c) (rev s)))) else None)"

definition is_loopback_addr :: "string \<Rightarrow> bool" where
  "is_loopback_addr addr =
     (let host = (case rfind_split (CHR '':'') addr of Some h \<Rightarrow> h | None \<Rightarrow> addr);
          host = rev (dropWhile (\<lambda>c. c = CHR '']'') (rev (dropWhile (\<lambda>c. c = CHR ''['') host)))
      in host = ''127.0.0.1'' \<or> host = ''::1'' \<or> host = ''localhost'' \<or> prefix ''127.'' host)"

definition check_exposure :: "(string \<Rightarrow> string option) \<Rightarrow> string \<Rightarrow> string \<Rightarrow> unit result" where
  "check_exposure env addr tok =
     (if is_loopback_addr addr \<or> tok \<noteq> [] then Inr ()
      else if env ''ALLGRES_ALLOW_INSECURE_HTTP'' = Some ''1'' then Inr ()
      else Inl (''refusing to bind '' @ addr @ '' with no ALLGRES_DASHBOARD_TOKEN. '' @
                ''Set a token, bind to 127.0.0.1, or set ALLGRES_ALLOW_INSECURE_HTTP=1 if the '' @
                ''port is already protected by the surrounding network.''))"

section \<open>Interface: a sliding-window limiter\<close>

text \<open>
  \<open>admitted check s es k\<close> are the times at which a client \<open>k\<close> is let through when the calls \<open>es\<close> (key
  and clock reading) are made in this order. A limiter counts, for each key, the hits it remembers
  inside the window, lets a call through when there are fewer than \<open>limit\<close>, and then remembers it.
\<close>

fun admitted :: "('s \<Rightarrow> 'k \<Rightarrow> nat \<Rightarrow> bool \<times> 's) \<Rightarrow> 's \<Rightarrow> ('k \<times> nat) list \<Rightarrow> 'k \<Rightarrow> nat list" where
  "admitted check s [] k = []"
| "admitted check s ((j, t) # es) k =
     (let (ok, s') = check s j t in (if ok \<and> j = k then [t] else []) @ admitted check s' es k)"

definition inside :: "nat \<Rightarrow> nat \<Rightarrow> nat list \<Rightarrow> nat" where
  "inside a window ts = length (filter (\<lambda>t. a \<le> t \<and> t < a + window) ts)"

lemma inside_simps [simp]:
  "inside a w [] = 0" "inside a w (xs @ ys) = inside a w xs + inside a w ys"
  "inside a w [t] = (if a \<le> t \<and> t < a + w then 1 else 0)"
  by (simp_all add: inside_def)

lemma inside_none: "(\<And>t. t \<in> set ts \<Longrightarrow> t < a \<or> a + w \<le> t) \<Longrightarrow> inside a w ts = 0"
  unfolding inside_def by (metis (no_types, lifting) filter_False leD list.size(3))

lemma inside_retained:
  assumes "\<And>r. r \<in> set rs \<Longrightarrow> r \<le> t" and "a \<le> t" and "t < a + w"
  shows "inside a w (filter (\<lambda>r. t - r < w) rs) = inside a w rs"
proof -
  have "t - r < w" if "a \<le> r" "r \<in> set rs" for r
    using assms that by (metis (no_types) less_diff_conv2 le_less_trans diff_le_mono2 less_diff_conv add.commute)
  then have "filter (\<lambda>r. (a \<le> r \<and> r < a + w) \<and> t - r < w) rs = filter (\<lambda>r. a \<le> r \<and> r < a + w) rs"
    by (intro filter_cong) auto
  then show ?thesis by (simp add: inside_def conj_commute)
qed

lemma inside_le: "inside a w ts \<le> length ts"
  by (simp add: inside_def)

locale limiter =
  fixes check :: "'s \<Rightarrow> 'k \<Rightarrow> nat \<Rightarrow> bool \<times> 's"
    and remembered :: "'s \<Rightarrow> 'k \<Rightarrow> nat list"
    and window limit :: nat
  assumes check_result:
      "fst (check s k t) \<longleftrightarrow> length (filter (\<lambda>r. t - r < window) (remembered s k)) < limit"
    and check_same:
      "remembered (snd (check s k t)) k =
         filter (\<lambda>r. t - r < window) (remembered s k) @ (if fst (check s k t) then [t] else [])"
    and check_other: "j \<noteq> k \<Longrightarrow> remembered (snd (check s j t)) k = remembered s k"
begin

lemma admitted_times: "t \<in> set (admitted check s es k) \<Longrightarrow> (k, t) \<in> set es"
proof (induction es arbitrary: s)
  case (Cons e es)
  then show ?case by (cases e) (auto split: prod.splits if_splits)
qed simp

lemma admitted_bounded:
  "sorted (map snd es) \<Longrightarrow> (\<And>r e. r \<in> set (remembered s k) \<Longrightarrow> e \<in> set es \<Longrightarrow> r \<le> snd e) \<Longrightarrow>
   inside a window (remembered s k) \<le> limit \<Longrightarrow>
   inside a window (remembered s k) + inside a window (admitted check s es k) \<le> limit"
proof (induction es arbitrary: s)
  case (Cons e es)
  obtain j t where e: "e = (j, t)" by (cases e)
  let ?s = "snd (check s j t)" and ?R = "remembered s k"
  have later: "t \<le> u" if "(i, u) \<in> set es" for i u using Cons.prems(1) that e by force
  have past: "r \<le> t" if "r \<in> set ?R" for r using Cons.prems(2) [OF that, of e] e by simp
  have run: "admitted check s (e # es) k
             = (if fst (check s j t) \<and> j = k then [t] else []) @ admitted check ?s es k"
    by (simp add: e split_def Let_def)
  have rem: "remembered ?s k = (if j = k then filter (\<lambda>r. t - r < window) ?R
               @ (if fst (check s j t) then [t] else []) else ?R)"
    using check_same [of s k t] check_other [of j k s t] by auto
  have IH: "inside a window (remembered ?s k) \<le> limit \<Longrightarrow>
      inside a window (remembered ?s k) + inside a window (admitted check ?s es k) \<le> limit"
    using Cons.IH [of ?s] Cons.prems(1) past later by (fastforce simp: e rem split: if_splits)
  consider "j \<noteq> k" | "j = k" "t < a" | "j = k" "a + window \<le> t" | "j = k" "a \<le> t" "t < a + window"
    by linarith
  then show ?case
  proof cases
    case 1
    with IH Cons.prems(3) rem run show ?thesis by simp
  next
    case 2
    then have "inside a window ?R = 0" "inside a window (filter (\<lambda>r. t - r < window) ?R) = 0"
      using past by (intro inside_none; fastforce)+
    with 2 IH run rem show ?thesis by (simp split: if_splits)
  next
    case 3
    have "inside a window (admitted check ?s es k) = 0"
      using later 3 by (intro inside_none) (meson admitted_times le_trans)
    with 3 run Cons.prems(3) show ?thesis by simp
  next
    case 4
    note kept = inside_retained [of ?R t a window, OF past 4(2,3)]
    have "inside a window ?R < limit" if "fst (check s k t)"
      using check_result [of s k t] that kept inside_le [of a window "filter (\<lambda>r. t - r < window) ?R"]
      by simp
    then have "inside a window (remembered ?s k) \<le> limit"
      unfolding rem using Cons.prems(3) kept 4 by auto
    with IH have "inside a window (remembered ?s k) + inside a window (admitted check ?s es k) \<le> limit"
      by blast
    then show ?thesis unfolding rem run using 4 kept by (auto split: if_splits)
  qed
qed simp

lemma window_limit:
  assumes "sorted (map snd es)" and "remembered s k = []"
  shows "inside a window (admitted check s es k) \<le> limit"
  using admitted_bounded [OF assms(1), of s k a] assms(2) by simp

end

section \<open>The general rate window is a limiter\<close>

lemma hits_of_upd [simp]: "hits_of (m(ip \<mapsto> hs)) j = (if j = ip then hs else hits_of m j)"
  by (simp add: hits_of_def)

lemma hits_of_retain [simp]: "hits_of (retain (\<lambda>_ v. v \<noteq> []) m) j = hits_of m j"
  by (auto simp: hits_of_def retain_def split: option.splits)

definition general_check :: "rate_windows \<Rightarrow> ip_addr \<Rightarrow> nat \<Rightarrow> bool \<times> rate_windows" where
  "general_check w ip now = (let (limited, w') = rate_limited ip now w in (\<not> limited, w'))"

interpretation general: limiter general_check "\<lambda>w. hits_of (general w)" RATE_GENERAL_WINDOW RATE_GENERAL_LIMIT
  by unfold_locales
    (auto simp: general_check_def rate_limited_def rate_check_def Let_def split: if_splits)

definition no_windows :: rate_windows where
  "no_windows = \<lparr>general = Map.empty, auth_fail = Map.empty\<rparr>"

section \<open>The lock-out among concurrent handlers\<close>

text \<open>
  The lock-out test and the recording of a failure take the mutex separately, with the authorisation in
  between, so handlers interleave there. \<open>comparing\<close> holds the handlers that passed the test and are not
  yet through, with their addresses; \<open>failures\<close> is the history of recorded failures. A step is one
  critical section, or the end of a comparison that succeeded; the clock is read under the mutex. \<open>n\<close> is
  the number of handlers that can be between the two sections at once, which \<open>MAX_WEB_THREADS\<close> bounds.
\<close>

record guard =
  windows :: rate_windows
  comparing :: "nat \<rightharpoonup> ip_addr"
  failures :: "(ip_addr \<times> nat) list"
  guard_now :: nat

definition guard_start :: guard where
  "guard_start = \<lparr>windows = no_windows, comparing = Map.empty, failures = [], guard_now = 0\<rparr>"

inductive guard_step :: "nat \<Rightarrow> guard \<Rightarrow> guard \<Rightarrow> bool" for n where
  request: "guard_now g \<le> now \<Longrightarrow> rate_limited ip now (windows g) = (limited, w) \<Longrightarrow>
    guard_step n g (g\<lparr>windows := w, guard_now := now\<rparr>)"
| locked: "guard_now g \<le> now \<Longrightarrow> auth_failures_exceeded ip now (windows g) = (True, w) \<Longrightarrow>
    guard_step n g (g\<lparr>windows := w, guard_now := now\<rparr>)"
| tested: "guard_now g \<le> now \<Longrightarrow> auth_failures_exceeded ip now (windows g) = (False, w) \<Longrightarrow>
    comparing g h = None \<Longrightarrow> card (dom (comparing g)) < n \<Longrightarrow>
    guard_step n g (g\<lparr>windows := w, guard_now := now, comparing := (comparing g)(h \<mapsto> ip)\<rparr>)"
| authorised: "comparing g h = Some ip \<Longrightarrow> guard_step n g (g\<lparr>comparing := (comparing g)(h := None)\<rparr>)"
| refused: "guard_now g \<le> now \<Longrightarrow> comparing g h = Some ip \<Longrightarrow>
    guard_step n g (g\<lparr>windows := record_auth_failure ip now (windows g), guard_now := now,
      comparing := (comparing g)(h := None), failures := failures g @ [(ip, now)]\<rparr>)"

definition failures_of :: "ip_addr \<Rightarrow> guard \<Rightarrow> nat list" where
  "failures_of ip g = map snd (filter (\<lambda>f. fst f = ip) (failures g))"

definition pending :: "ip_addr \<Rightarrow> guard \<Rightarrow> nat" where
  "pending ip g = card {h. comparing g h = Some ip}"

text \<open>
  The invariant, for one address and one window that begins at \<open>a\<close>: as long as the window is not over,
  what is remembered of it is its failures, and these together with the comparisons under way stay
  within the bound.
\<close>

definition guard_inv :: "nat \<Rightarrow> nat \<Rightarrow> ip_addr \<Rightarrow> guard \<Rightarrow> bool" where
  "guard_inv n a ip g \<longleftrightarrow>
     (let W = RATE_AUTH_FAIL_WINDOW; F = inside a W (failures_of ip g); B = RATE_AUTH_FAIL_LIMIT + (n - 1) in
      finite (dom (comparing g)) \<and> card (dom (comparing g)) \<le> n \<and> F \<le> B
      \<and> (guard_now g < a + W \<longrightarrow> F + pending ip g \<le> B
          \<and> inside a W (hits_of (auth_fail (windows g)) ip) = F))"

lemma inside_kept: "t < a + w \<Longrightarrow> 0 < w \<Longrightarrow> inside a w (filter (\<lambda>r. t - r < w) rs) = inside a w rs"
  unfolding inside_def filter_filter by (rule arg_cong [of _ _ length], rule filter_cong) auto

lemma pending_le: "finite (dom (comparing g)) \<Longrightarrow> pending ip g \<le> card (dom (comparing g))"
  unfolding pending_def by (rule card_mono) auto

lemma pending_done:
  assumes "finite (dom (comparing g))" and "comparing g h = Some j" and "comparing g' = (comparing g)(h := None)"
  shows "pending ip g = pending ip g' + (if j = ip then 1 else 0)"
proof -
  have fin: "finite {h. comparing g h = Some ip}"
    by (rule finite_subset [OF _ assms(1)]) auto
  have "{h'. comparing g' h' = Some ip} = {h'. comparing g h' = Some ip} - {h}" using assms(3) by auto
  moreover have "{h'. comparing g h' = Some ip} - {h} = {h'. comparing g h' = Some ip}" if "j \<noteq> ip"
    using assms(2) that by auto
  moreover have "h \<in> {h'. comparing g h' = Some ip}" if "j = ip" using assms(2) that by simp
  ultimately show ?thesis using card.remove [OF fin, of h] unfolding pending_def by (cases "j = ip") simp_all
qed

lemma windows_positive [simp]: "0 < RATE_AUTH_FAIL_WINDOW" "0 < RATE_AUTH_FAIL_LIMIT"
  by (simp_all add: RATE_AUTH_FAIL_WINDOW_def RATE_AUTH_FAIL_LIMIT_def)

lemma rate_limited_auth_fail: "rate_limited ip now w = (limited, w') \<Longrightarrow> auth_fail w' = auth_fail w"
  by (auto simp: rate_limited_def split: prod.splits)

lemma exceeded_hits:
  assumes "auth_failures_exceeded j now w = (e, w')"
  shows "hits_of (auth_fail w') ip = (if j = ip then filter (\<lambda>t. now - t < RATE_AUTH_FAIL_WINDOW) (hits_of (auth_fail w) ip)
      else hits_of (auth_fail w) ip)"
    and "e \<longleftrightarrow> RATE_AUTH_FAIL_LIMIT \<le> length (hits_of (auth_fail w') j)"
  using assms by (auto simp: auth_failures_exceeded_def Let_def)

text \<open>A test keeps what is remembered of a window that is not over; passing it means there is room.\<close>

lemma exceeded_inside:
  assumes "auth_failures_exceeded j now w = (e, w')" and "now < a + RATE_AUTH_FAIL_WINDOW"
  shows "inside a RATE_AUTH_FAIL_WINDOW (hits_of (auth_fail w') ip) = inside a RATE_AUTH_FAIL_WINDOW (hits_of (auth_fail w) ip)"
    and "\<not> e \<Longrightarrow> inside a RATE_AUTH_FAIL_WINDOW (hits_of (auth_fail w) j) < RATE_AUTH_FAIL_LIMIT"
  using exceeded_hits [OF assms(1)] inside_kept [OF assms(2)] inside_le [of a RATE_AUTH_FAIL_WINDOW "hits_of (auth_fail w') j"]
  by auto

lemma record_hits:
  "hits_of (auth_fail (record_auth_failure j now w)) ip = hits_of (auth_fail w) ip @ (if j = ip then [now] else [])"
  by (simp add: record_auth_failure_def)

lemma card_dom_done: "finite (dom m) \<Longrightarrow> card (dom m) \<le> n \<Longrightarrow> card (dom m - {h}) \<le> n"
  using card_Diff1_le [of "dom m" h] by linarith

lemma guard_step_inv:
  assumes "guard_step n g g'" and "guard_inv n a ip g"
  shows "guard_inv n a ip g'"
  using assms(1)
proof (cases rule: guard_step.cases)
  case (request now j limited w)
  with assms(2) rate_limited_auth_fail [OF request(3)] show ?thesis
    by (simp add: guard_inv_def Let_def failures_of_def pending_def)
next
  case (locked now j w)
  with assms(2) exceeded_inside(1) [OF locked(3)] show ?thesis
    by (simp add: guard_inv_def Let_def failures_of_def pending_def)
next
  case (tested now j w h)
  have card: "card (dom (comparing g')) \<le> n" "finite (dom (comparing g'))" "0 < n"
    using tested assms(2) by (auto simp: guard_inv_def Let_def card_insert_if)
  have same: "pending ip g' = pending ip g" if "j \<noteq> ip"
  proof -
    have "{h'. comparing g' h' = Some ip} = {h'. comparing g h' = Some ip}" using that tested by auto
    then show ?thesis by (simp add: pending_def)
  qed
  from pending_le [OF card(2), of ip] card assms(2) same exceeded_inside [OF tested(3), of a] tested
  show ?thesis
    by (cases "j = ip") (fastforce simp: guard_inv_def Let_def failures_of_def card_insert_if)+
next
  case (authorised h j)
  have "finite (dom (comparing g'))" "card (dom (comparing g')) \<le> n"
    using card_dom_done [of "comparing g" n h] assms(2) authorised by (auto simp: guard_inv_def Let_def)
  with assms(2) pending_done [of g h j g' ip] authorised show ?thesis
    by (auto simp: guard_inv_def Let_def failures_of_def simp del: dom_fun_upd)
next
  case (refused now h j)
  have "finite (dom (comparing g'))" "card (dom (comparing g')) \<le> n"
    using card_dom_done [of "comparing g" n h] assms(2) refused by (auto simp: guard_inv_def Let_def)
  with assms(2) pending_done [of g h j g' ip] refused show ?thesis
    by (cases "j = ip") (auto simp: guard_inv_def Let_def failures_of_def record_hits simp del: dom_fun_upd)
qed

lemma guard_start_inv: "guard_inv n a ip guard_start"
  by (simp add: guard_inv_def guard_start_def no_windows_def hits_of_def failures_of_def pending_def Let_def)

lemma guard_run_inv: "(guard_step n)\<^sup>*\<^sup>* guard_start g \<Longrightarrow> guard_inv n a ip g"
  by (induction rule: rtranclp_induct) (auto intro: guard_step_inv guard_start_inv)

text \<open>
  The bound grows with the number of handlers because the limit itself can be exceeded: \<open>n\<close> handlers
  that test before the first of them records put \<open>n\<close> failures into one window.
\<close>

lemma race_tests:
  "k \<le> n \<Longrightarrow> \<exists>g. (guard_step n)\<^sup>*\<^sup>* guard_start g \<and> comparing g = (\<lambda>h. if h < k then Some ip else None)
     \<and> hits_of (auth_fail (windows g)) ip = [] \<and> failures g = [] \<and> guard_now g = 0"
proof (induction k)
  case 0
  show ?case by (rule exI [of _ guard_start]) (simp add: guard_start_def no_windows_def hits_of_def)
next
  case (Suc k)
  then obtain g where g: "(guard_step n)\<^sup>*\<^sup>* guard_start g" "comparing g = (\<lambda>h. if h < k then Some ip else None)"
    "hits_of (auth_fail (windows g)) ip = []" "failures g = []" "guard_now g = 0" by auto
  obtain e w where e: "auth_failures_exceeded ip 0 (windows g) = (e, w)" by fastforce
  with g(3) exceeded_hits(1) [OF e, of ip] exceeded_hits(2) [OF e] have w: "hits_of (auth_fail w) ip = []" "\<not> e"
    using windows_positive(2) by auto
  have "dom (comparing g) = {..<k}" by (auto simp: g(2) split: if_splits)
  with e w Suc.prems g have "guard_step n g (g\<lparr>windows := w, guard_now := 0, comparing := (comparing g)(k \<mapsto> ip)\<rparr>)"
    by (intro guard_step.tested) auto
  with g(1) have "(guard_step n)\<^sup>*\<^sup>* guard_start (g\<lparr>windows := w, guard_now := 0, comparing := (comparing g)(k \<mapsto> ip)\<rparr>)" ..
  moreover have "(comparing g)(k \<mapsto> ip) = (\<lambda>h. if h < Suc k then Some ip else None)" by (auto simp: g(2) less_Suc_eq)
  ultimately show ?case using g(4) w(1) by force
qed

lemma race_failures:
  "comparing g = (\<lambda>h. if h < k then Some ip else None) \<Longrightarrow> guard_now g = 0 \<Longrightarrow>
   \<exists>g'. (guard_step n)\<^sup>*\<^sup>* g g' \<and> failures g' = failures g @ replicate k (ip, 0)"
proof (induction k arbitrary: g)
  case (Suc k)
  let ?g = "g\<lparr>windows := record_auth_failure ip 0 (windows g), guard_now := 0,
    comparing := (comparing g)(k := None), failures := failures g @ [(ip, 0)]\<rparr>"
  have "guard_step n g ?g" using Suc.prems by (intro guard_step.refused) auto
  moreover have "\<exists>g'. (guard_step n)\<^sup>*\<^sup>* ?g g' \<and> failures g' = failures ?g @ replicate k (ip, 0)"
    by (rule Suc.IH) (use Suc.prems in \<open>auto simp: fun_eq_iff less_Suc_eq\<close>)
  ultimately show ?case by (auto intro: converse_rtranclp_into_rtranclp)
qed auto

lemma lockout_race:
  "\<exists>g. (guard_step n)\<^sup>*\<^sup>* guard_start g \<and> inside 0 RATE_AUTH_FAIL_WINDOW (failures_of ip g) = n"
proof -
  obtain g where g: "(guard_step n)\<^sup>*\<^sup>* guard_start g" "comparing g = (\<lambda>h. if h < n then Some ip else None)"
    "failures g = []" "guard_now g = 0" using race_tests [of n n ip] by blast
  from race_failures [OF g(2,4)] obtain g' where "(guard_step n)\<^sup>*\<^sup>* g g'" "failures g' = replicate n (ip, 0)"
    using g(3) by auto
  moreover have "inside 0 RATE_AUTH_FAIL_WINDOW (replicate n 0) = n"
    using windows_positive(1) by (simp add: inside_def filter_replicate)
  ultimately show ?thesis using g(1) by (auto simp: failures_of_def filter_replicate intro: rtranclp_trans)
qed

section \<open>Ticket histories\<close>

text \<open>
  The calls that threads make on the ticket map, in the order in which they take its lock. Each
  call carries the clock reading it made; nothing is assumed about the order of these readings.
\<close>

datatype ticket_op =
    Mint (op_ticket: string) (op_now: nat) (op_session: string)
  | Valid (op_ticket: string) (op_now: nat)
  | Consume (op_ticket: string) (op_now: nat)

primrec ticket_step :: "ticket_op \<Rightarrow> tickets \<Rightarrow> tickets" where
  "ticket_step (Mint t now sess) ts = snd (mint_sse_ticket t now sess ts)"
| "ticket_step (Valid t now) ts = snd (valid_sse_ticket t now ts)"
| "ticket_step (Consume t now) ts = snd (consume_sse_ticket t now ts)"

definition ticket_run :: "ticket_op list \<Rightarrow> tickets \<Rightarrow> tickets" where
  "ticket_run ops ts = fold ticket_step ops ts"

fun redeemed :: "string \<Rightarrow> ticket_op list \<Rightarrow> tickets \<Rightarrow> string list" where
  "redeemed t [] ts = []"
| "redeemed t (op' # ops) ts =
     (case op' of
        Consume u now \<Rightarrow>
          (case fst (consume_sse_ticket u now ts) of
             Some sess \<Rightarrow> if u = t then [sess] else []
           | None \<Rightarrow> [])
      | _ \<Rightarrow> []) @ redeemed t ops (ticket_step op' ts)"

fun mints :: "string \<Rightarrow> ticket_op \<Rightarrow> bool" where
  "mints t (Mint u _ _) \<longleftrightarrow> u = t"
| "mints t _ \<longleftrightarrow> False"

lemma ticket_step_other:
  "\<not> mints t op' \<Longrightarrow> ticket_step op' ts t = Some x \<Longrightarrow> ts t = Some x"
  by (cases op') (auto simp: web_defs Let_def split: if_splits)

lemma ticket_run_origin:
  "ticket_run ops ts t = Some (issued, sess) \<Longrightarrow>
     (ts t = Some (issued, sess) \<and> (\<forall>op' \<in> set ops. \<not> mints t op' \<and> (\<forall>now. op' \<noteq> Consume t now)))
     \<or> (\<exists>pre post. ops = pre @ Mint t issued sess # post
          \<and> (\<forall>op' \<in> set post. \<not> mints t op' \<and> (\<forall>now. op' \<noteq> Consume t now)))"
proof (induction ops arbitrary: ts)
  case (Cons op' ops)
  let ?quiet = "\<lambda>ops. \<forall>op' \<in> set ops. \<not> mints t op' \<and> (\<forall>now. op' \<noteq> Consume t now)"
  from Cons.prems have "ticket_run ops (ticket_step op' ts) t = Some (issued, sess)"
    by (simp add: ticket_run_def)
  from Cons.IH [OF this] show ?case
  proof (elim disjE conjE exE)
    assume st: "ticket_step op' ts t = Some (issued, sess)" and quiet: "?quiet ops"
    show ?thesis
    proof (cases "mints t op'")
      case True
      with st have "op' = Mint t issued sess"
        by (cases op') (auto simp: web_defs)
      with quiet show ?thesis by (intro disjI2 exI [of _ "[]"] exI [of _ ops]) simp
    next
      case False
      moreover have "op' \<noteq> Consume t now" for now
        using st by (auto simp: web_defs Let_def)
      ultimately show ?thesis using ticket_step_other [OF False st] quiet by simp
    qed
  next
    fix pre post
    assume "ops = pre @ Mint t issued sess # post" and "?quiet post"
    then show ?thesis by (intro disjI2 exI [of _ "op' # pre"] exI [of _ post]) simp
  qed
qed (simp add: ticket_run_def)

definition held :: "string \<Rightarrow> tickets \<Rightarrow> nat" where
  "held t ts = (if ts t = None then 0 else 1)"

definition redeems :: "string \<Rightarrow> ticket_op \<Rightarrow> tickets \<Rightarrow> string list" where
  "redeems t op' ts =
     (case op' of
        Consume u now \<Rightarrow>
          (case fst (consume_sse_ticket u now ts) of
             Some sess \<Rightarrow> if u = t then [sess] else []
           | None \<Rightarrow> [])
      | _ \<Rightarrow> [])"

lemma redeems_balance:
  "length (redeems t op' ts) + held t (ticket_step op' ts) \<le> (if mints t op' then 1 else 0) + held t ts"
  by (cases op') (auto simp: redeems_def held_def web_defs Let_def split: option.splits)

lemma redeemed_bound: "length (redeemed t ops ts) \<le> length (filter (mints t) ops) + held t ts"
proof (induction ops arbitrary: ts)
  case (Cons op' ops)
  have "length (redeemed t (op' # ops) ts)
        = length (redeems t op' ts) + length (redeemed t ops (ticket_step op' ts))"
    by (simp add: redeems_def)
  also have "\<dots> \<le> length (redeems t op' ts) + (length (filter (mints t) ops) + held t (ticket_step op' ts))"
    using Cons.IH by simp
  also have "\<dots> \<le> length (filter (mints t) (op' # ops)) + held t ts"
    using redeems_balance [of t op' ts] by (simp split: if_splits)
  finally show ?case .
qed simp

lemma consume_some:
  "fst (consume_sse_ticket t now ts) = Some sess \<longleftrightarrow>
     (\<exists>issued. ts t = Some (issued, sess) \<and> now - issued < SSE_TICKET_TTL)"
  by (auto simp: web_defs Let_def)

section \<open>Comparison, decoding and nonces\<close>

lemma byte_inj: "byte x = byte y \<longleftrightarrow> x = y"
proof
  assume "byte x = byte y"
  then have "unat (byte x) = unat (byte y)" by simp
  then have "u8 x mod 256 = u8 y mod 256" by (simp add: byte_def unat_of_nat)
  then show "x = y" by simp
qed simp

lemma diff_fold:
  "fold (\<lambda>(x, y) diff. or diff (xor (byte x) (byte y))) xys d = 0 \<longleftrightarrow>
     d = 0 \<and> list_all (\<lambda>(x, y). x = y) xys"
proof (induction xys arbitrary: d)
  case (Cons xy xys)
  have "or d (xor (byte x) (byte y)) = 0 \<longleftrightarrow> d = 0 \<and> x = y" for x y
    by (metis byte_inj or_eq_0_iff xor.right_neutral xor_self_eq bit.xor_left_self)
  with Cons show ?case by (cases xy) auto
qed simp

lemma list_all_zip_eq: "length a = length b \<Longrightarrow> list_all (\<lambda>(x, y). x = y) (zip a b) \<longleftrightarrow> a = b"
  by (induction a b rule: list_induct2) auto

lemma constant_time_eq_iff: "constant_time_eq a b \<longleftrightarrow> a = b"
  by (auto simp: constant_time_eq_def diff_fold list_all_zip_eq)

lemma percent_bytes_decode_bytes: "percent_bytes s = decode_bytes s"
  by (induction s rule: percent_bytes.induct) (auto split: option.splits)

text \<open>A client's percent encoding: a set of safe bytes is kept, every other byte is escaped.\<close>

definition percent_encode :: "(char \<Rightarrow> bool) \<Rightarrow> string \<Rightarrow> string" where
  "percent_encode safe s = concat (map (\<lambda>c. if safe c then [c] else CHR ''%'' # fmt_02x c) s)"

lemma from_utf8_hex_fmt: "from_utf8_hex (fmt_02x c) = Some (u8 c)"
proof -
  have "is_ascii (hex_digit n)" if "n < 16" for n
    using that by (simp add: is_ascii_def u8_hex_digit)
  moreover have "u8 c div 16 < 16" using u8_bound [of c] by (intro less_mult_imp_div_less) simp
  ultimately have "utf8_valid (fmt_02x c)" by (simp add: fmt_02x_def)
  then show ?thesis by (simp add: from_utf8_hex_def fmt_02x_parse)
qed

lemma percent_bytes_encode:
  assumes "\<not> safe (CHR ''%'')" "\<not> safe (CHR ''+'')"
  shows "percent_bytes (percent_encode safe s) = s"
proof (induction s)
  case (Cons c s)
  have len: "length (fmt_02x c) = 2" by (simp add: fmt_02x_def)
  show ?case
  proof (cases "safe c")
    case True
    with assms Cons show ?thesis by (auto simp: percent_encode_def)
  next
    case False
    then have "percent_encode safe (c # s) = CHR ''%'' # fmt_02x c @ percent_encode safe s"
      by (simp add: percent_encode_def)
    with Cons len show ?thesis by (simp add: from_utf8_hex_fmt)
  qed
qed (simp add: percent_encode_def)

lemma fmt_02x_inj: "fmt_02x x = fmt_02x y \<longleftrightarrow> x = y"
  by (metis fmt_02x_parse option.inject of_char_eq_iff)

lemma concat_fmt_inj:
  "length xs = length ys \<Longrightarrow> concat (map fmt_02x xs) = concat (map fmt_02x ys) \<longleftrightarrow> xs = ys"
proof (induction xs ys rule: list_induct2)
  case (Cons x xs y ys)
  have "length (fmt_02x x) = length (fmt_02x y)" by (simp add: fmt_02x_def)
  with Cons show ?case by (simp add: fmt_02x_inj)
qed simp

text \<open>A query string with percent-encoded values.\<close>

definition print_query :: "(char \<Rightarrow> bool) \<Rightarrow> (string \<times> string) list \<Rightarrow> string" where
  "print_query safe kvs =
     (case kvs of
        [] \<Rightarrow> []
      | kv # rest \<Rightarrow>
          fst kv @ ''='' @ percent_encode safe (snd kv)
            @ concat (map (\<lambda>kv. ''&'' @ fst kv @ ''='' @ percent_encode safe (snd kv)) rest))"

lemma percent_encode_chars:
  assumes "\<not> safe c" and "c \<noteq> CHR ''%''" and "\<not> is_ascii_hexdigit c"
  shows "c \<notin> set (percent_encode safe s)"
proof -
  have "u8 x div 16 < 16" for x using u8_bound [of x] by (intro less_mult_imp_div_less) simp
  then have "c \<notin> set (fmt_02x x)" for x
    using assms(3) is_ascii_hexdigit_hex_digit [of "u8 x div 16"] is_ascii_hexdigit_hex_digit [of "u8 x mod 16"]
    by (auto simp: fmt_02x_def)
  with assms show ?thesis by (auto simp: percent_encode_def split: if_splits)
qed

lemma print_query_pieces:
  assumes "\<not> safe (CHR ''&'')" and "\<forall>kv \<in> set kvs. CHR ''&'' \<notin> set (fst kv)" and "kvs \<noteq> []"
  shows "split_char (CHR ''&'') (print_query safe kvs)
         = map (\<lambda>kv. fst kv @ ''='' @ percent_encode safe (snd kv)) kvs"
proof -
  let ?p = "\<lambda>kv. fst kv @ ''='' @ percent_encode safe (snd kv)"
  have enc: "CHR ''&'' \<notin> set (percent_encode safe v)" for v
    using assms(1) by (intro percent_encode_chars) (auto simp: byte_simps)
  have "CHR ''&'' \<notin> set (fst kv) \<Longrightarrow> \<forall>kv \<in> set rest. CHR ''&'' \<notin> set (fst kv) \<Longrightarrow>
    split_char (CHR ''&'') (?p kv @ concat (map (\<lambda>kv. ''&'' @ ?p kv) rest)) = ?p kv # map ?p rest" for kv rest
  proof (induction rest arbitrary: kv)
    case Nil
    with enc show ?case by (auto simp: split_char_def intro!: split_by_none)
  next
    case (Cons kv' rest)
    have "split_char (CHR ''&'') (?p kv @ CHR ''&'' # ?p kv' @ concat (map (\<lambda>kv. ''&'' @ ?p kv) rest))
          = ?p kv # split_char (CHR ''&'') (?p kv' @ concat (map (\<lambda>kv. ''&'' @ ?p kv) rest))"
      unfolding split_char_def using enc Cons.prems(1) by (intro split_by_append) auto
    with Cons show ?case by simp
  qed
  with assms(2,3) show ?thesis by (cases kvs) (simp_all add: print_query_def)
qed

lemma query_pairs:
  "\<forall>kv \<in> set kvs. CHR ''='' \<notin> set (fst kv) \<Longrightarrow>
   List.map_filter (split_once (CHR ''='')) (map (\<lambda>kv. fst kv @ ''='' @ f (snd kv)) kvs)
     = map (\<lambda>kv. (fst kv, f (snd kv))) kvs"
proof (induction kvs)
  case (Cons kv kvs)
  then have "split_once (CHR ''='') (fst kv @ CHR ''='' # f (snd kv)) = Some (fst kv, f (snd kv))"
    by (intro split_once_append) simp
  with Cons show ?case by (simp add: List.map_filter_def)
qed (simp add: List.map_filter_def)

lemma find_key:
  "map_option (\<lambda>(_, v). g v) (find (\<lambda>(k, _). k = key) (map (\<lambda>kv. (fst kv, f (snd kv))) kvs))
     = map_option (\<lambda>v. g (f v)) (map_of kvs key)"
  by (induction kvs) auto

lemma query_pair_Nil: "query_param [] key = None"
  by (simp add: query_param_def split_char_def List.map_filter_def split_once_def)

lemma split_origin:
  assumes "CHR '':'' \<notin> set sch" and "\<not> sublist ''://'' h"
  shows "split_str ''://'' (sch @ ''://'' @ h) = [sch, h]"
proof -
  have "find_sub ''://'' (sch @ ''://'' @ h) = Some (length sch)"
    using find_sub_skip [OF assms(1), of "''//''" "''://'' @ h"] by simp
  moreover have "split_str ''://'' h = [h]"
    using assms(2) by (subst split_str.simps) (simp flip: find_sub_None)
  ultimately show ?thesis by (subst split_str.simps) simp
qed

lemma bearer_ok_iff:
  "bearer_ok r cfg \<longleftrightarrow> header r ''authorization'' = Some (''Bearer '' @ token cfg)"
  by (auto simp: bearer_ok_def constant_time_eq_iff split: option.splits)

lemma nonce_length_digits:
  "length (concat (map fmt_02x buf)) = 2 * length buf"
  "c \<in> set (concat (map fmt_02x buf)) \<Longrightarrow> is_ascii_hexdigit c"
proof -
  show "length (concat (map fmt_02x buf)) = 2 * length buf"
    by (induction buf) (simp_all add: fmt_02x_def)
  have "u8 x div 16 < 16" for x using u8_bound [of x] by (intro less_mult_imp_div_less) simp
  then show "c \<in> set (concat (map fmt_02x buf)) \<Longrightarrow> is_ascii_hexdigit c"
    by (auto simp: fmt_02x_def intro: is_ascii_hexdigit_hex_digit)
qed

section \<open>Properties\<close>

text \<open>
  C31. The general rate limit: whatever requests arrive from whatever addresses, an address is let
  through at most \<open>RATE_GENERAL_LIMIT\<close> times in every interval of length \<open>RATE_GENERAL_WINDOW\<close>, at
  window boundaries too.
\<close>

theorem general_rate_limit:
  assumes "sorted (map snd es)"
  shows "inside a RATE_GENERAL_WINDOW (admitted general_check no_windows es ip) \<le> RATE_GENERAL_LIMIT"
  using general.window_limit [OF assms, of no_windows ip a] by (simp add: no_windows_def hits_of_def)

theorem general_rate_limit_witness:
  "sorted (map snd [(V4 1, 5), (V4 1, 7::nat)])
   \<and> inside 0 RATE_GENERAL_WINDOW (admitted general_check no_windows [(V4 1, 5), (V4 1, 7)] (V4 1)) \<le> RATE_GENERAL_LIMIT"
  using general_rate_limit [of "[(V4 1, 5), (V4 1, 7)]" 0 "V4 1"] by simp

text \<open>
  C32. The lock-out, in every interleaving of the handlers: when at most \<open>n\<close> of them are between the
  lock-out test and its outcome at once, an address fails the token comparison at most
  \<open>RATE_AUTH_FAIL_LIMIT + (n - 1)\<close> times in every interval of length \<open>RATE_AUTH_FAIL_WINDOW\<close>; one attempt
  at a time (\<open>n = 1\<close>) meets the limit itself.
\<close>

theorem lockout_limit:
  assumes "(guard_step n)\<^sup>*\<^sup>* guard_start g"
  shows "inside a RATE_AUTH_FAIL_WINDOW (failures_of ip g) \<le> RATE_AUTH_FAIL_LIMIT + (n - 1)"
  using guard_run_inv [OF assms, of a ip] by (simp add: guard_inv_def Let_def)

theorem lockout_limit_witness:
  "\<exists>g. (guard_step 1)\<^sup>*\<^sup>* guard_start g \<and> inside 0 RATE_AUTH_FAIL_WINDOW (failures_of (V4 1) g) = 1
     \<and> inside 0 RATE_AUTH_FAIL_WINDOW (failures_of (V4 1) g) \<le> RATE_AUTH_FAIL_LIMIT"
proof -
  obtain g where g: "(guard_step 1)\<^sup>*\<^sup>* guard_start g" "inside 0 RATE_AUTH_FAIL_WINDOW (failures_of (V4 1) g) = 1"
    using lockout_race by blast
  from lockout_limit [OF g(1), of 0 "V4 1"] g show ?thesis by auto
qed

text \<open>
  C29. A ticket is redeemed at most as often as it was minted, in every interleaving of the calls of
  all connections: a nonce that is drawn once opens at most one event stream.
\<close>

theorem ticket_single_use:
  "length (redeemed t ops Map.empty) \<le> length (filter (mints t) ops)"
  using redeemed_bound [of t ops Map.empty] by (simp add: held_def)

text \<open>
  C30. A redemption returns the session captured when the ticket was minted: in the history before
  it there is a mint of this ticket for this session, less than \<open>SSE_TICKET_TTL\<close> old, and the ticket
  has been neither minted again nor redeemed since.
\<close>

theorem ticket_session_binding:
  assumes "fst (consume_sse_ticket t now (ticket_run ops Map.empty)) = Some sess"
  shows "\<exists>issued pre post. ops = pre @ Mint t issued sess # post \<and> now - issued < SSE_TICKET_TTL
    \<and> (\<forall>op' \<in> set post. \<not> mints t op' \<and> (\<forall>now. op' \<noteq> Consume t now))"
proof -
  from assms obtain issued where "ticket_run ops Map.empty t = Some (issued, sess)"
    and "now - issued < SSE_TICKET_TTL" by (auto simp: consume_some)
  with ticket_run_origin [OF this(1)] show ?thesis by auto
qed

theorem ticket_session_binding_witness:
  "\<exists>issued pre post. [Mint ''k'' 5 ''alice''] = pre @ Mint ''k'' issued ''alice'' # post
     \<and> 9 - issued < SSE_TICKET_TTL"
proof -
  have "fst (consume_sse_ticket ''k'' 9 (ticket_run [Mint ''k'' 5 ''alice''] Map.empty)) = Some ''alice''"
    by (simp add: consume_some ticket_run_def mint_sse_ticket_def SSE_TICKET_TTL_def)
  from ticket_session_binding [OF this] show ?thesis by blast
qed

text \<open>
  C33. With a token configured a request is authorised exactly when it carries that token as a
  bearer token, byte for byte, or asks for the event stream with a ticket that is held and fresh.
\<close>

theorem authorized_iff:
  assumes "token cfg \<noteq> []"
  shows "fst (authorized r cfg now ts) \<longleftrightarrow>
    header r ''authorization'' = Some (''Bearer '' @ token cfg)
    \<or> (route r = ''/api/v1/events''
       \<and> (\<exists>t issued sess. query_param (query r) ''ticket'' = Some t \<and> ts t = Some (issued, sess)
            \<and> now - issued < SSE_TICKET_TTL))"
proof -
  have "fst (valid_sse_ticket t now ts) \<longleftrightarrow>
      (\<exists>issued sess. ts t = Some (issued, sess) \<and> now - issued < SSE_TICKET_TTL)" for t
    by (auto simp: web_defs Let_def)
  then show ?thesis using assms by (auto simp: authorized_def bearer_ok_iff split: option.splits)
qed

definition bearer_request :: http_request where
  "bearer_request = \<lparr>req_method = ''GET'', path = ''/api/v1/status'',
     headers = [(''authorization'', ''Bearer s3cret''), (''origin'', ''http://h:1''), (''host'', ''H:1''),
                (''x-allgres-client'', ''1'')], body = []\<rparr>"

definition token_config :: web_config where
  "token_config = \<lparr>token = ''s3cret'', socket = ''/s'', mock_enabled = False\<rparr>"

theorem authorized_iff_witness:
  "token token_config \<noteq> [] \<and> fst (authorized bearer_request token_config 0 Map.empty)"
proof -
  have t: "token token_config \<noteq> []" by (simp add: token_config_def)
  have "header bearer_request ''authorization'' = Some (''Bearer '' @ token token_config)"
    by code_simp
  with t authorized_iff [OF t, of bearer_request 0 Map.empty] show ?thesis by blast
qed

text \<open>
  The cross-origin check: a request whose \<open>Origin\<close> names the host \<open>h\<close> passes exactly when \<open>h\<close> is
  the non-empty \<open>Host\<close> of the request, in any case, and it is the event stream or carries the
  client header that a form or an image cannot set.
\<close>

lemma csrf_ok_iff:
  assumes "header r ''origin'' = Some (sch @ ''://'' @ h)"
    and "CHR '':'' \<notin> set sch" and "\<not> sublist ''://'' h"
  shows "csrf_ok r \<longleftrightarrow>
    h \<noteq> [] \<and> eq_ignore_ascii_case h (case header r ''host'' of Some x \<Rightarrow> x | None \<Rightarrow> [])
    \<and> (route r = ''/api/v1/events'' \<or> header r ''x-allgres-client'' \<noteq> None)"
  using assms by (auto simp: csrf_ok_def origin_ok_def split_origin [OF assms(2,3), simplified] nth_or_empty_def Let_def)

lemma csrf_ok_iff_witness: "csrf_ok bearer_request"
proof -
  have h: "header bearer_request ''origin'' = Some (''http'' @ ''://'' @ ''h:1'')" by code_simp
  have "\<not> sublist ''://'' ''h:1''" by (simp flip: find_sub_None)
  moreover have "header bearer_request ''host'' = Some ''H:1''"
    and "header bearer_request ''x-allgres-client'' \<noteq> None"
    and "eq_ignore_ascii_case ''h:1'' ''H:1''" by code_simp+
  ultimately show ?thesis using csrf_ok_iff [OF h] by simp
qed

text \<open>
  Query parameters round trip: on a query string whose values a client has percent-encoded
  (any choice of safe bytes that leaves out the four delimiters) \<open>query_param\<close> returns the value of
  the first pair with that key, and \<open>None\<close> when there is none.
\<close>

lemma query_param_roundtrip:
  assumes "\<not> safe (CHR ''%'')" "\<not> safe (CHR ''+'')" "\<not> safe (CHR ''&'')"
    and "\<forall>kv \<in> set kvs. CHR ''&'' \<notin> set (fst kv) \<and> CHR ''='' \<notin> set (fst kv) \<and> utf8_valid (snd kv)"
  shows "query_param (print_query safe kvs) key = map_of kvs key"
proof (cases "kvs = []")
  case False
  have "query_param (print_query safe kvs) key =
        map_option (\<lambda>v. percent_decode (percent_encode safe v)) (map_of kvs key)"
    using assms(4) print_query_pieces [of safe kvs, OF assms(3) _ False]
    by (simp add: query_param_def query_pairs find_key del: append.simps)
  also have "\<dots> = map_option (\<lambda>v. v) (map_of kvs key)"
    using assms(4)
    by (auto intro!: option.map_cong0 simp: percent_decode_def percent_bytes_encode [OF assms(1,2)]
        dest!: map_of_SomeD split: option.splits) 
  finally show ?thesis by (simp add: option.map_ident)
qed (simp add: print_query_def query_pair_Nil)

lemma query_param_roundtrip_witness:
  "query_param (print_query is_ascii_alphanumeric [(''a'', ''x''), (''ticket'', ''a+b&c'')]) ''ticket'' = Some ''a+b&c''"
  using query_param_roundtrip [of is_ascii_alphanumeric "[(''a'', ''x''), (''ticket'', ''a+b&c'')]" "''ticket''"]
  by (simp add: byte_simps)

text \<open>
  A nonce drawn from the system's generator is 32 hexadecimal digits, and two different draws
  give different nonces: ticket names and script nonces collide only if the generator repeats
  itself. The fall-back has the same format.
\<close>

lemma nonce_format:
  assumes "length b = 16" and "length b' = 16"
  shows "length (nonce u n p a) = (case u of Some x \<Rightarrow> 2 * length x | None \<Rightarrow> 32)
    \<and> list_all is_ascii_hexdigit (nonce u n p a)
    \<and> (nonce (Some b) n p a = nonce (Some b') n' p' a' \<longleftrightarrow> b = b')"
  using assms nonce_length_digits
  by (auto simp: nonce_def concat_fmt_inj to_le_bytes_def list_all_iff Let_def split: option.splits)

lemma nonce_format_witness:
  "length (nonce (Some (replicate 16 (CHR 0x0A))) 0 0 0) = 32
   \<and> nonce (Some (replicate 16 (CHR 0x0A))) 0 0 0 \<noteq> nonce (Some (replicate 16 (CHR 0x0B))) 0 0 0"
  using nonce_format [of "replicate 16 (CHR 0x0A)" "replicate 16 (CHR 0x0B)" "Some (replicate 16 (CHR 0x0A))" 0 0 0 0 0 0]
  by simp

text \<open>
  The worker refuses to listen exactly when the address is not a loopback address, no token is
  configured and the operator has not opted in.
\<close>

lemma check_exposure_iff:
  "check_exposure env addr tok = Inr () \<longleftrightarrow>
     is_loopback_addr addr \<or> tok \<noteq> [] \<or> env ''ALLGRES_ALLOW_INSECURE_HTTP'' = Some ''1''"
  by (simp add: check_exposure_def)

section \<open>Deviations from the comments\<close>

text \<open>
  The sweep in \<open>rate_check\<close> only drops entries that are empty, and only the caller's own entry is
  aged, so an address that made one request stays in the map: the map has an entry for every
  address that ever made a request.
\<close>

lemma rate_check_never_forgets:
  assumes "\<forall>v \<in> ran m. v \<noteq> []"
  shows "dom (snd (rate_check m ip window limit now)) = insert ip (dom m)"
  using assms by (auto simp: rate_check_def Let_def dom_retain ran_def dom_def split: if_splits)

text \<open>\<open>true\<close>, not \<open>false\<close>, is the answer that makes the caller reject a request.\<close>

lemma rate_limited_rejects:
  "RATE_GENERAL_LIMIT \<le> length (filter (\<lambda>t. now - t < RATE_GENERAL_WINDOW) (hits_of (general w) ip)) \<Longrightarrow>
   fst (rate_limited ip now w)"
  by (simp add: rate_limited_def rate_check_def)

text \<open>A host name that merely begins with \<open>127.\<close> counts as a loopback address.\<close>

lemma loopback_by_prefix: "is_loopback_addr ''127.example.com:8088''"
  by code_simp

text \<open>\<open>from_str_radix\<close> accepts a sign, so \<open>%+5\<close> decodes to the byte 5.\<close>

lemma percent_decode_sign: "percent_decode ''%+5'' = [CHR 0x05]"
  by code_simp

end
