(* ===== verification/Web_Server.thy ===== *)
theory Web_Server
  imports Web_Guards Config Rpc
begin

text \<open>
  The request handler and the accept loop of the web worker (\<open>web.rs\<close>). A handler thread is a
  function from what the thread observes (\<open>conn\<close>: the peer, its clock readings, the bytes it reads,
  the nonce it draws and what its calls on the RPC socket meet) and the shared state (tickets and
  rate windows) to what it writes, which requests it forwards to the runtime, whether it panics, and
  the new shared state. A failed write to the client is ignored by the code except in the event
  stream, where \<open>stream_ok\<close> decides it. Time spent sleeping in the slow mock changes nothing else.
\<close>

section \<open>Responses\<close>

definition security_headers :: string where
  "security_headers =
     ''X-Content-Type-Options: nosniff'' @ [cr, nl] @
     ''X-Frame-Options: DENY'' @ [cr, nl] @
     ''Referrer-Policy: no-referrer'' @ [cr, nl] @
     ''Cross-Origin-Resource-Policy: same-origin'' @ [cr, nl]"

definition response_head :: "string \<Rightarrow> string \<Rightarrow> nat \<Rightarrow> string \<Rightarrow> string" where
  "response_head status content_type len extra =
     ''HTTP/1.1 '' @ status @ [cr, nl] @
     ''Content-Type: '' @ content_type @ [cr, nl] @
     ''Content-Length: '' @ fmt_dec len @ [cr, nl] @
     ''Cache-Control: no-store'' @ [cr, nl] @
     ''Connection: close'' @ [cr, nl] @
     security_headers @ extra @ [cr, nl]"

definition respond :: "string \<Rightarrow> string \<Rightarrow> string \<Rightarrow> string \<Rightarrow> string list" where
  "respond status content_type b extra =
     [response_head status content_type (length b) extra, b]"

definition respond_json :: "string \<Rightarrow> string \<Rightarrow> string list" where
  "respond_json status b = respond status ''application/json'' b []"

text \<open>The literal \<open>{"ok":false,"error":"..."}\<close> of the handlers.\<close>

definition error_body :: "string \<Rightarrow> string" where
  \<open>error_body e = ''{"ok":false,"error":"'' @ e @ ''"}''\<close>

definition not_found :: "string list" where
  "not_found = respond_json ''404 Not Found'' (error_body ''not_found'')"

section \<open>Calls on the runtime\<close>

datatype rpc_io = ConnectFailed string | WriteFailed | ReadFailed | Reply string

definition rpc :: "codec \<Rightarrow> (string \<Rightarrow> rpc_io) \<Rightarrow> json \<Rightarrow> json" where
  "rpc c io req =
     (let failed = (\<lambda>e. jobj [(''ok'', JBool False), (''error'', JString e)]) in
      case io (to_str c req) of
        ConnectFailed e \<Rightarrow> failed (''runtime unavailable: '' @ e)
      | WriteFailed \<Rightarrow> failed ''rpc_write_failed''
      | ReadFailed \<Rightarrow> failed ''rpc_read_failed''
      | Reply out \<Rightarrow>
          if \<not> utf8_valid out then failed ''rpc_read_failed''
          else (case from_str c out of Some v \<Rightarrow> v | None \<Rightarrow> failed ''invalid_rpc_response''))"

definition body_json :: "codec \<Rightarrow> http_request \<Rightarrow> json" where
  "body_json c r = (case from_str c (body r) of Some v \<Rightarrow> v | None \<Rightarrow> jobj [])"

text \<open>What a request becomes: a call on the runtime, an answer of the worker itself, or no route.\<close>

datatype dispatch = Forward json | Answer json | NoRoute

definition with_session :: "http_request \<Rightarrow> (string \<times> json) list \<Rightarrow> dispatch outcome" where
  "with_session r kvs =
     Done (Forward (jobj (kvs @ [(''session_token'', opt_json (header r ''x-allgres-session''))])))"

definition with_body :: "codec \<Rightarrow> http_request \<Rightarrow> string \<Rightarrow> dispatch outcome" where
  "with_body c r action =
     bind_outcome (index_set ''action'' (JString action) (body_json c r)) (\<lambda>b. Done (Forward b))"

definition api_dispatch :: "codec \<Rightarrow> http_request \<Rightarrow> dispatch outcome" where
  "api_dispatch c r =
     (let m = req_method r; p = route r in
      if m = ''GET'' \<and> p = ''/api/v1/status'' then with_session r [(''action'', JString ''overview'')]
      else if m = ''GET'' \<and> p = ''/api/v1/agents'' then with_session r [(''action'', JString ''agents.list'')]
      else if m = ''POST'' \<and> p = ''/api/v1/agents'' then with_body c r ''agents.create''
      else if m = ''POST'' \<and> p = ''/api/v1/run'' then with_body c r ''run''
      else if m = ''GET'' \<and> p = ''/api/v1/tasks'' then
        with_session r [(''action'', JString ''tasks.list''), (''limit'', JNumber (PosInt 200))]
      else if m = ''GET'' \<and> p = ''/api/v1/logs'' then
        with_session r [(''action'', JString ''logs.list''), (''limit'', JNumber (PosInt 250))]
      else if m = ''GET'' \<and> p = ''/api/v1/settings'' then with_session r [(''action'', JString ''settings.get'')]
      else if m = ''POST'' \<and> p = ''/api/v1/selftest'' then with_session r [(''action'', JString ''selftest'')]
      else if m = ''POST'' \<and> p = ''/api/v1/settings/provider'' then with_body c r ''provider.update''
      else if m = ''PATCH'' \<and> prefix ''/api/v1/agents/'' p then
        bind_outcome (index_set ''action'' (JString ''agents.update'') (body_json c r)) (\<lambda>b.
        bind_outcome (index_set ''agent_id'' (JString (trim_start_matches ''/api/v1/agents/'' p)) b) (\<lambda>b.
        Done (Forward b)))
      else if m = ''POST'' \<and> p = ''/api/v1/rpc'' then
        (let b = body_json c r in
         if get_str ''action'' b = None
         then Done (Answer (jobj [(''ok'', JBool False), (''error'', JString ''action_required'')]))
         else Done (Forward b))
      else Done NoRoute)"

text \<open>\<open>api_route\<close> with the requests it forwards.\<close>

definition api_route :: "codec \<Rightarrow> (string \<Rightarrow> rpc_io) \<Rightarrow> http_request \<Rightarrow> (json option \<times> json list) outcome" where
  "api_route c io r =
     bind_outcome (api_dispatch c r) (\<lambda>d.
       Done (case d of
               Forward q \<Rightarrow> (Some (rpc c io q), [q])
             | Answer v \<Rightarrow> (Some v, [])
             | NoRoute \<Rightarrow> (None, [])))"

section \<open>The event stream\<close>

definition stream_head :: string where
  "stream_head =
     ''HTTP/1.1 200 OK'' @ [cr, nl] @
     ''Content-Type: text/event-stream; charset=utf-8'' @ [cr, nl] @
     ''Cache-Control: no-store'' @ [cr, nl] @
     ''Connection: close'' @ [cr, nl] @
     ''X-Accel-Buffering: no'' @ [cr, nl] @
     security_headers @ [cr, nl]"

definition stream_frame :: "codec \<Rightarrow> json \<Rightarrow> string" where
  "stream_frame c snapshot = ''event: snapshot'' @ [nl] @ ''data: '' @ to_str c snapshot @ [nl, nl]"

text \<open>
  Iteration \<open>k\<close> reads the clock \<open>now\<close>; \<open>thread::sleep\<close> lasts at least \<open>SSE_INTERVAL\<close>, and \<open>lag k\<close> is the rest
  of the time until the next reading. Write number 0 is the head, write \<open>k + 1\<close> the frame of
  iteration \<open>k\<close>.
\<close>

function stream_loop ::
    "codec \<Rightarrow> (nat \<Rightarrow> string \<Rightarrow> rpc_io) \<Rightarrow> (nat \<Rightarrow> bool) \<Rightarrow> (nat \<Rightarrow> nat) \<Rightarrow> json \<Rightarrow> nat \<Rightarrow> nat \<Rightarrow> nat
     \<Rightarrow> string list \<times> json list" where
  "stream_loop c io ok lag req deadline k now =
     (if now < deadline then
        (let frame = stream_frame c (rpc c (io k) req) in
         if \<not> ok (k + 1) then ([], [req])
         else
           let (frames, reqs) = stream_loop c io ok lag req deadline (k + 1) (now + SSE_INTERVAL + lag k) in
           (frame # frames, req # reqs))
      else ([], []))"
  by pat_completeness auto
termination
  by (relation "measure (\<lambda>(c, io, ok, lag, req, deadline, k, now). deadline - now)")
    (auto simp: SSE_INTERVAL_def)

declare stream_loop.simps [simp del]

definition stream_events ::
    "codec \<Rightarrow> (nat \<Rightarrow> string \<Rightarrow> rpc_io) \<Rightarrow> (nat \<Rightarrow> bool) \<Rightarrow> (nat \<Rightarrow> nat) \<Rightarrow> nat \<Rightarrow> string
     \<Rightarrow> string list \<times> json list" where
  "stream_events c io ok lag start session =
     (if \<not> ok 0 then ([], [])
      else
        let req = jobj [(''action'', JString ''events''), (''session_token'', JString session)];
            (frames, reqs) = stream_loop c io ok lag req (start + SSE_TOTAL) 0 start
        in (stream_head # frames, reqs))"

section \<open>Mock endpoints\<close>

definition mock_models :: json where
  "mock_models =
     jobj [(''object'', JString ''list''),
           (''data'', JArray [jobj [(''id'', JString ''allgres-mock''), (''object'', JString ''model'')],
                              jobj [(''id'', JString ''allgres-mock-embed''), (''object'', JString ''model'')]])]"

definition mock_chat :: json where
  \<open>mock_chat =
     jobj [(''id'', JString ''allgres-mock''), (''object'', JString ''chat.completion''),
           (''choices'', JArray [jobj
              [(''index'', JNumber (PosInt 0)),
               (''message'', jobj [(''role'', JString ''assistant''),
                  (''content'', JString ''{"action":"final_answer","answer":"Allgres mock runtime OK"}'')]),
               (''finish_reason'', JString ''stop'')]])]\<close>

definition mock_oauth :: "codec \<Rightarrow> http_request \<Rightarrow> string list" where
  \<open>mock_oauth c r =
     (let form = parse_form_body (body r);
          code = (case form ''code'' of Some v \<Rightarrow> v | None \<Rightarrow> []);
          secret = (case form ''client_secret'' of Some v \<Rightarrow> v | None \<Rightarrow> [])
      in if code = [] \<or> secret \<noteq> ''allgres-mock-oauth-secret''
         then respond_json ''401 Unauthorized'' ''{"error":"invalid_client"}''
         else respond_json ''200 OK'' (to_str c (jobj
                [(''access_token'', JString (''allgres-mock-access-'' @ code)),
                 (''refresh_token'', JString ''allgres-mock-refresh''),
                 (''expires_in'', JNumber (PosInt 3600)), (''token_type'', JString ''bearer'')])))\<close>

definition KEYWORDS :: "string list" where
  "KEYWORDS = [''alpha'', ''beta'', ''gamma'', ''delta'', ''epsilon'', ''zeta'', ''eta'', ''theta'']"

text \<open>The bit patterns are those of the doubles \<open>1.0\<close> and \<open>0.05\<close>.\<close>

definition mock_embeddings :: "codec \<Rightarrow> http_request \<Rightarrow> json" where
  "mock_embeddings c r =
     (let input = to_ascii_lowercase
            (case Option.bind (from_str c (body r)) (get_str ''input'') of Some t \<Rightarrow> t | None \<Rightarrow> []);
          embedding = map (\<lambda>k. JNumber (Float (if sublist k input then 0x3FF0000000000000
                                               else 0x3FA999999999999A))) KEYWORDS
      in jobj [(''data'', JArray [jobj [(''embedding'', JArray embedding), (''index'', JNumber (PosInt 0))]]),
               (''model'', JString ''allgres-mock-embed''), (''object'', JString ''list'')])"

definition mock_routes :: "string list" where
  "mock_routes = [''/mock/models'', ''/mock/v1/models'', ''/mock/chat/completions'',
     ''/mock/slow/chat/completions'', ''/mock/oauth/token'', ''/mock/embeddings'']"

definition mock_response :: "codec \<Rightarrow> web_config \<Rightarrow> http_request \<Rightarrow> string list" where
  "mock_response c cfg r =
     (let p = route r in
      if \<not> mock_enabled cfg then not_found
      else if p = ''/mock/models'' \<or> p = ''/mock/v1/models'' then
        respond_json ''200 OK'' (to_str c mock_models)
      else if p = ''/mock/chat/completions'' \<or> p = ''/mock/slow/chat/completions'' then
        respond_json ''200 OK'' (to_str c mock_chat)
      else if p = ''/mock/oauth/token'' then mock_oauth c r
      else respond_json ''200 OK'' (to_str c (mock_embeddings c r)))"

section \<open>One connection\<close>

record conn =
  peer :: "ip_addr option"
  rate_now :: nat
  start_now :: nat
  incoming :: reads
  lock_now :: nat
  auth_now :: nat
  fail_now :: nat
  ticket_now :: nat
  fresh :: string
  runtime :: "nat \<Rightarrow> string \<Rightarrow> rpc_io"
  stream_now :: nat
  stream_lag :: "nat \<Rightarrow> nat"
  stream_ok :: "nat \<Rightarrow> bool"

record web_state =
  sse_tickets :: tickets
  rate :: rate_windows

record effects =
  written :: "string list"
  forwarded :: "json list"
  panicked :: bool

definition sends :: "string list \<Rightarrow> effects" where
  "sends out = \<lparr>written = out, forwarded = [], panicked = False\<rparr>"

definition index_page :: "string \<Rightarrow> string \<Rightarrow> string list" where
  "index_page html n =
     respond ''200 OK'' ''text/html; charset=utf-8'' (str_replace ''__CSP_NONCE__'' n html)
       (''Content-Security-Policy: default-src '' @ [CHR 0x27] @ ''none'' @ [CHR 0x27] @ ''; '' @
        ''script-src '' @ [CHR 0x27] @ ''nonce-'' @ n @ [CHR 0x27] @ ''; style-src '' @ [CHR 0x27] @ ''nonce-'' @ n @
        [CHR 0x27] @ ''; '' @ ''connect-src '' @ [CHR 0x27] @ ''self'' @ [CHR 0x27] @ ''; img-src '' @ [CHR 0x27] @
        ''self'' @ [CHR 0x27] @ '' data:; '' @ ''base-uri '' @ [CHR 0x27] @ ''none'' @ [CHR 0x27] @
        ''; form-action '' @ [CHR 0x27] @ ''none'' @ [CHR 0x27] @ ''; frame-ancestors '' @ [CHR 0x27] @ ''none'' @
        [CHR 0x27] @ [cr, nl])"

definition serve_ticket :: "codec \<Rightarrow> conn \<Rightarrow> http_request \<Rightarrow> web_state \<Rightarrow> effects \<times> web_state" where
  "serve_ticket c k r st =
     (if req_method r \<noteq> ''POST'' then
        (sends (respond ''405 Method Not Allowed'' ''application/json'' (error_body ''method_not_allowed'')
                  (''Allow: POST'' @ [cr, nl])), st)
      else
        let (ticket, ts) = mint_sse_ticket (fresh k) (ticket_now k)
              (case header r ''x-allgres-session'' of Some s \<Rightarrow> s | None \<Rightarrow> []) (sse_tickets st);
            b = to_str c (jobj [(''ok'', JBool True), (''ticket'', JString ticket),
                                (''expires_in'', JNumber (PosInt (SSE_TICKET_TTL div 1000)))])
        in (sends (respond_json ''200 OK'' b), st\<lparr>sse_tickets := ts\<rparr>))"

definition serve_events :: "codec \<Rightarrow> conn \<Rightarrow> http_request \<Rightarrow> web_state \<Rightarrow> effects \<times> web_state" where
  "serve_events c k r st =
     (let (session, ts) =
            (case query_param (query r) ''ticket'' of
               Some t \<Rightarrow> consume_sse_ticket t (ticket_now k) (sse_tickets st)
             | None \<Rightarrow> (None, sse_tickets st));
          st = st\<lparr>sse_tickets := ts\<rparr>
      in case session of
           None \<Rightarrow> (sends (respond_json ''401 Unauthorized'' (error_body ''invalid_ticket'')), st)
         | Some s \<Rightarrow>
             (let (out, reqs) = stream_events c (runtime k) (stream_ok k) (stream_lag k) (stream_now k) s in
              (\<lparr>written = out, forwarded = reqs, panicked = False\<rparr>, st)))"

definition serve_api :: "codec \<Rightarrow> conn \<Rightarrow> http_request \<Rightarrow> effects" where
  "serve_api c k r =
     (case api_route c (runtime k 0) r of
        Panic \<Rightarrow> \<lparr>written = [], forwarded = [], panicked = True\<rparr>
      | Done (None, _) \<Rightarrow> sends not_found
      | Done (Some v, reqs) \<Rightarrow>
          \<lparr>written = respond_json (if get_bool ''ok'' v = Some False then ''400 Bad Request'' else ''200 OK'') (to_str c v),
           forwarded = reqs, panicked = False\<rparr>)"

text \<open>The part of the handler behind the path test \<open>/api/v1/\<close>.\<close>

definition locked_out :: "conn \<Rightarrow> web_state \<Rightarrow> bool \<times> web_state" where
  "locked_out k st =
     (case peer k of
        None \<Rightarrow> (False, st)
      | Some ip \<Rightarrow>
          let (exceeded, w) = auth_failures_exceeded ip (lock_now k) (rate st) in (exceeded, st\<lparr>rate := w\<rparr>))"

definition note_failure :: "conn \<Rightarrow> web_state \<Rightarrow> web_state" where
  "note_failure k st =
     (case peer k of
        None \<Rightarrow> st
      | Some ip \<Rightarrow> st\<lparr>rate := record_auth_failure ip (fail_now k) (rate st)\<rparr>)"

text \<open>Behind the authorisation check.\<close>

definition serve_route :: "codec \<Rightarrow> conn \<Rightarrow> http_request \<Rightarrow> web_state \<Rightarrow> effects \<times> web_state" where
  "serve_route c k r st =
     (if route r = ''/api/v1/events/ticket'' then serve_ticket c k r st
      else if route r = ''/api/v1/events'' then serve_events c k r st
      else (serve_api c k r, st))"

definition serve_guarded ::
    "codec \<Rightarrow> web_config \<Rightarrow> conn \<Rightarrow> http_request \<Rightarrow> web_state \<Rightarrow> effects \<times> web_state" where
  "serve_guarded c cfg k r st =
     (if \<not> csrf_ok r then
        (sends (respond_json ''403 Forbidden'' (error_body ''cross_origin_request_rejected'')), st)
      else
        let (locked, st) = locked_out k st in
        if locked then
          (sends (respond ''429 Too Many Requests'' ''application/json'' (error_body ''rate_limited'')
                    (''Retry-After: 300'' @ [cr, nl])), st)
        else
          let (ok, ts) = authorized r cfg (auth_now k) (sse_tickets st); st = st\<lparr>sse_tickets := ts\<rparr> in
          if \<not> ok then
            (sends (respond ''401 Unauthorized'' ''application/json'' (error_body ''unauthorized'')
                      (''WWW-Authenticate: Bearer'' @ [cr, nl])), note_failure k st)
          else serve_route c k r st)"

definition limited :: "conn \<Rightarrow> web_state \<Rightarrow> bool \<times> web_state" where
  "limited k st =
     (case peer k of
        None \<Rightarrow> (False, st)
      | Some ip \<Rightarrow> let (over, w) = rate_limited ip (rate_now k) (rate st) in (over, st\<lparr>rate := w\<rparr>))"

text \<open>\<open>html\<close> is the embedded dashboard page.\<close>

definition handle_web_connection ::
    "codec \<Rightarrow> string \<Rightarrow> web_config \<Rightarrow> conn \<Rightarrow> web_state \<Rightarrow> effects \<times> web_state" where
  \<open>handle_web_connection c html cfg k st =
     (let (over, st) = limited k st in
      if over then
        (sends (respond ''429 Too Many Requests'' ''application/json'' (error_body ''rate_limited'')
                  (''Retry-After: 60'' @ [cr, nl])), st)
      else
        case read_http_request (start_now k) (incoming k) of
          None \<Rightarrow> (sends [], st)
        | Some r \<Rightarrow>
            if req_method r = ''OPTIONS'' then
              (sends (respond ''405 Method Not Allowed'' ''application/json'' (error_body ''method_not_allowed'')
                        (''Allow: GET, POST, PATCH'' @ [cr, nl])), st)
            else if route r = ''/healthz'' then (sends (respond_json ''200 OK'' ''{"ok":true}''), st)
            else if route r \<in> set mock_routes then (sends (mock_response c cfg r), st)
            else if route r = ''/'' then (sends (index_page html (fresh k)), st)
            else if \<not> prefix ''/api/v1/'' (route r) then (sends not_found, st)
            else serve_guarded c cfg k r st)\<close>

section \<open>The worker\<close>

text \<open>
  \<open>WEB_THREADS\<close> is an \<open>AtomicUsize\<close>. \<open>live\<close> counts the handler threads that exist; it is not a variable
  of the program. A handler that panics unwinds its thread, so the decrement after the call to
  \<open>handle_web_connection\<close> does not run.
\<close>

definition fetch_add :: "nat \<Rightarrow> nat" where
  "fetch_add n = (n + 1) mod 2 ^ 64"

definition fetch_sub :: "nat \<Rightarrow> nat" where
  "fetch_sub n = (n + (2 ^ 64 - 1)) mod 2 ^ 64"

record server =
  web_threads :: nat
  live :: nat
  shared :: web_state

definition busy_reply :: "string list" where
  "busy_reply = respond_json ''503 Service Unavailable'' (error_body ''busy'')"

text \<open>One accepted connection: the busy reply, if any, and the counter.\<close>

definition accept_conn :: "bool \<Rightarrow> nat \<Rightarrow> string list \<times> nat \<times> bool" where
  "accept_conn spawned n =
     (if MAX_WEB_THREADS \<le> n then (busy_reply, n, False)
      else if spawned then ([], fetch_add n, True)
      else ([], fetch_sub (fetch_add n), False))"

inductive web_step :: "codec \<Rightarrow> string \<Rightarrow> web_config \<Rightarrow> server \<Rightarrow> server \<Rightarrow> bool"
  for c html cfg where
  accept: "accept_conn spawned (web_threads s) = (out, n, started) \<Longrightarrow>
     web_step c html cfg s (s\<lparr>web_threads := n, live := (if started then live s + 1 else live s)\<rparr>)"
| handled: "0 < live s \<Longrightarrow> handle_web_connection c html cfg k (shared s) = (eff, st) \<Longrightarrow> \<not> panicked eff \<Longrightarrow>
     web_step c html cfg s (s\<lparr>web_threads := fetch_sub (web_threads s), live := live s - 1, shared := st\<rparr>)"
| unwound: "0 < live s \<Longrightarrow> handle_web_connection c html cfg k (shared s) = (eff, st) \<Longrightarrow> panicked eff \<Longrightarrow>
     web_step c html cfg s (s\<lparr>live := live s - 1, shared := st\<rparr>)"

inductive_cases web_stepE: "web_step c html cfg s s'"

definition initial_server :: server where
  "initial_server = \<lparr>web_threads = 0, live = 0, shared = \<lparr>sse_tickets = Map.empty, rate = no_windows\<rparr>\<rparr>"

text \<open>
  The start of the worker: refuse an exposed bind, bind, make the listener non-blocking, serve.
  \<open>bind\<close> and \<open>nonblocking\<close> are the results of the two socket calls.
\<close>

datatype web_start = Warned string | Serving web_config server

definition allgres_web_main ::
    "env \<Rightarrow> string option \<Rightarrow> (string \<Rightarrow> unit result) \<Rightarrow> unit result \<Rightarrow> web_start" where
  "allgres_web_main env datadir bind nonblocking =
     (let addr = configured_http_addr env;
          cfg = \<lparr>token = (case env ''ALLGRES_DASHBOARD_TOKEN'' of Some t \<Rightarrow> t | None \<Rightarrow> []),
                 socket = rpc_socket_path env datadir,
                 mock_enabled = (env ''ALLGRES_ENABLE_MOCK'' = Some ''1'')\<rparr>
      in case check_exposure env addr (token cfg) of
           Inl msg \<Rightarrow> Warned (''Allgres web: '' @ msg)
         | Inr () \<Rightarrow>
             (case bind addr of
                Inl e \<Rightarrow> Warned (''Allgres web bind '' @ addr @ '': '' @ e)
              | Inr () \<Rightarrow>
                  (case nonblocking of
                     Inl e \<Rightarrow> Warned (''Allgres web nonblocking: '' @ e)
                   | Inr () \<Rightarrow> Serving cfg initial_server)))"

section \<open>Facts about the handler\<close>

lemma sends_simps [simp]:
  "written (sends out) = out" "forwarded (sends out) = []" "\<not> panicked (sends out)"
  by (simp_all add: sends_def)

lemma guards_keep_tickets [simp]:
  "sse_tickets (snd (limited k st)) = sse_tickets st"
  "sse_tickets (snd (locked_out k st)) = sse_tickets st"
  "sse_tickets (note_failure k st) = sse_tickets st"
  by (auto simp: limited_def locked_out_def note_failure_def Let_def split: option.splits prod.splits)

text \<open>A connection either stops at a guard or a static page, or runs the guarded part.\<close>

lemma handle_cases:
  assumes "handle_web_connection c html cfg k st = (eff, st')"
  shows "(forwarded eff = [] \<and> \<not> panicked eff \<and> sse_tickets st' = sse_tickets st)
    \<or> (\<exists>r. read_http_request (start_now k) (incoming k) = Some r \<and> prefix ''/api/v1/'' (route r)
          \<and> serve_guarded c cfg k r (snd (limited k st)) = (eff, st'))"
proof -
  obtain over st1 where l: "limited k st = (over, st1)" by fastforce
  then have t: "sse_tickets st1 = sse_tickets st" using guards_keep_tickets(1) [of k st] by simp
  show ?thesis
  proof (cases "over \<or> read_http_request (start_now k) (incoming k) = None")
    case True
    with assms l t show ?thesis by (auto simp: handle_web_connection_def split: if_splits)
  next
    case False
    then obtain r where "read_http_request (start_now k) (incoming k) = Some r" by auto
    with False assms l t show ?thesis
      by (auto simp: handle_web_connection_def split: if_splits)
  qed
qed

text \<open>What a request has passed when the worker acts on it.\<close>

definition admitted_request :: "web_config \<Rightarrow> conn \<Rightarrow> http_request \<Rightarrow> web_state \<Rightarrow> bool" where
  "admitted_request cfg k r st \<longleftrightarrow>
     csrf_ok r \<and> \<not> fst (locked_out k st) \<and> fst (authorized r cfg (auth_now k) (sse_tickets st))"

lemma serve_guarded_cases:
  assumes "serve_guarded c cfg k r st = (eff, st')"
  shows "(forwarded eff = [] \<and> \<not> panicked eff
            \<and> sse_tickets st' \<in> {sse_tickets st, snd (authorized r cfg (auth_now k) (sse_tickets st))})
    \<or> (admitted_request cfg k r st
        \<and> (\<exists>st1. sse_tickets st1 = snd (authorized r cfg (auth_now k) (sse_tickets st))
            \<and> (eff, st') = serve_route c k r st1))"
proof -
  obtain locked st1 where l: "locked_out k st = (locked, st1)" by fastforce
  then have t: "sse_tickets st1 = sse_tickets st" using guards_keep_tickets(2) [of k st] by simp
  obtain ok ts where a: "authorized r cfg (auth_now k) (sse_tickets st) = (ok, ts)" by fastforce
  show ?thesis
  proof (cases "csrf_ok r \<and> \<not> locked \<and> ok")
    case True
    with assms l t a
    have "(eff, st') = serve_route c k r (st1\<lparr>sse_tickets := ts\<rparr>)"
      by (simp add: serve_guarded_def Let_def split: if_splits)
    with True l a show ?thesis
      by (intro disjI2 conjI exI [of _ "st1\<lparr>sse_tickets := ts\<rparr>"]) (simp_all add: admitted_request_def)
  next
    case False
    with assms l t a show ?thesis
      by (auto simp: serve_guarded_def split: if_splits)
  qed
qed

lemma authorized_tickets:
  "snd (authorized r cfg now ts) t = Some x \<Longrightarrow> ts t = Some x"
  by (auto simp: authorized_def web_defs Let_def split: option.splits if_splits)

lemma serve_events_tickets:
  "serve_events c k r st = (eff, st') \<Longrightarrow> sse_tickets st' t = Some x \<Longrightarrow> sse_tickets st t = Some x"
  by (auto simp: serve_events_def web_defs Let_def split: option.splits prod.splits if_splits)

text \<open>Every value sent to the runtime has a string under \<open>action\<close>.\<close>

lemma index_set_keeps:
  "index_set k x v = Done w \<Longrightarrow> j \<noteq> k \<Longrightarrow> v \<noteq> JNull \<Longrightarrow> json_get j w = json_get j v"
  by (cases v) (auto simp: map_of_obj_insert)

lemma index_set_not_null: "index_set k x v = Done w \<Longrightarrow> w \<noteq> JNull"
  by (cases v) auto

lemma with_session_action:
  "with_session r [(''action'', JString a)] = Done (Forward q) \<Longrightarrow> get_str ''action'' q = Some a"
  "with_session r [(''action'', JString a), (''limit'', n)] = Done (Forward q) \<Longrightarrow> get_str ''action'' q = Some a"
  by (auto simp: with_session_def get_str_def)

lemma with_body_action: "with_body c r a = Done (Forward q) \<Longrightarrow> get_str ''action'' q = Some a"
  by (auto simp: with_body_def get_str_def dest: index_set_get)

lemma patch_action:
  assumes "index_set ''action'' (JString a) v = Done b" and "index_set ''agent_id'' x b = Done q"
  shows "get_str ''action'' q = Some a"
  using index_set_get [OF assms(1)] index_set_keeps [OF assms(2), of "''action''"] index_set_not_null [OF assms(1)]
  by (simp add: get_str_def)

lemma api_dispatch_action:
  assumes "api_dispatch c r = Done (Forward q)"
  shows "\<exists>a. get_str ''action'' q = Some a"
proof -
  consider a where "with_session r [(''action'', JString a)] = Done (Forward q)"
    | a n where "with_session r [(''action'', JString a), (''limit'', n)] = Done (Forward q)"
    | a where "with_body c r a = Done (Forward q)"
    | a x v b where "index_set ''action'' (JString a) v = Done b" "index_set ''agent_id'' x b = Done q"
    | "get_str ''action'' q \<noteq> None"
    using assms unfolding api_dispatch_def Let_def
    by (simp split: if_splits) blast+
  then show ?thesis
    by cases (auto dest: with_session_action with_body_action patch_action)
qed

lemma stream_loop_reqs: "q \<in> set (snd (stream_loop c io ok lag req deadline k now)) \<Longrightarrow> q = req"
proof (induction c io ok lag req deadline k now rule: stream_loop.induct)
  case (1 c io ok lag req deadline k now)
  then show ?case
    by (subst (asm) (2) stream_loop.simps) (auto split: if_splits prod.splits simp: Let_def)
qed

lemma stream_events_reqs:
  "q \<in> set (snd (stream_events c io ok lag start session)) \<Longrightarrow>
   get_str ''action'' q = Some ''events'' \<and> get_str ''session_token'' q = Some session"
proof -
  let ?req = "jobj [(''action'', JString ''events''), (''session_token'', JString session)]"
  assume "q \<in> set (snd (stream_events c io ok lag start session))"
  then have "q \<in> set (snd (stream_loop c io ok lag ?req (start + SSE_TOTAL) 0 start))"
    by (auto simp: stream_events_def Let_def split: if_splits prod.splits)
  then have "q = ?req" by (rule stream_loop_reqs)
  then show ?thesis by (simp add: get_str_def)
qed

lemma stream_loop_bounds:
  "length (fst (stream_loop c io ok lag req deadline k now)) \<le> length (snd (stream_loop c io ok lag req deadline k now))
   \<and> length (snd (stream_loop c io ok lag req deadline k now)) * SSE_INTERVAL < deadline - now + SSE_INTERVAL"
proof (induction c io ok lag req deadline k now rule: stream_loop.induct)
  case (1 c io ok lag req deadline k now)
  show ?case
  proof (cases "now < deadline \<and> ok (k + 1)")
    case True
    let ?rest = "stream_loop c io ok lag req deadline (k + 1) (now + SSE_INTERVAL + lag k)"
    from True "1.IH" have IH: "length (fst ?rest) \<le> length (snd ?rest)"
      "length (snd ?rest) * SSE_INTERVAL < deadline - (now + SSE_INTERVAL + lag k) + SSE_INTERVAL"
      by blast+
    from True have step: "stream_loop c io ok lag req deadline k now
        = (stream_frame c (rpc c (io k) req) # fst ?rest, req # snd ?rest)"
      by (subst stream_loop.simps) (simp add: Let_def split_def)
    have "n * 1000 < deadline - (now + 1000 + d) + 1000 \<Longrightarrow> Suc n * 1000 < deadline - now + 1000" for n d
      using True by (cases "deadline \<le> now + 1000 + d") auto
    with IH(2) have "Suc (length (snd ?rest)) * SSE_INTERVAL < deadline - now + SSE_INTERVAL"
      unfolding SSE_INTERVAL_def by blast
    with IH(1) show ?thesis by (simp add: step)
  next
    case False
    then show ?thesis by (subst (1 2 3) stream_loop.simps) (auto simp: Let_def SSE_INTERVAL_def)
  qed
qed

lemma stream_events_bounds:
  "length (fst (stream_events c io ok lag start session)) \<le> 1 + SSE_TOTAL div SSE_INTERVAL"
  "length (snd (stream_events c io ok lag start session)) \<le> SSE_TOTAL div SSE_INTERVAL"
proof -
  let ?req = "jobj [(''action'', JString ''events''), (''session_token'', JString session)]"
  let ?l = "stream_loop c io ok lag ?req (start + SSE_TOTAL) 0 start"
  have b: "length (fst ?l) \<le> length (snd ?l)" "length (snd ?l) * SSE_INTERVAL < start + SSE_TOTAL - start + SSE_INTERVAL"
    using stream_loop_bounds by blast+
  then have "length (snd ?l) \<le> SSE_TOTAL div SSE_INTERVAL"
    by (simp add: SSE_TOTAL_def SSE_INTERVAL_def)
  with b(1) show "length (fst (stream_events c io ok lag start session)) \<le> 1 + SSE_TOTAL div SSE_INTERVAL"
    "length (snd (stream_events c io ok lag start session)) \<le> SSE_TOTAL div SSE_INTERVAL"
    by (simp_all add: stream_events_def Let_def split_def)
qed

text \<open>A request for the event stream that is answered with a stream redeems its ticket.\<close>

lemma serve_events_stream:
  assumes "serve_events c k r st = (eff, st')" and "forwarded eff \<noteq> []"
  shows "\<exists>t issued session. query_param (query r) ''ticket'' = Some t \<and> sse_tickets st t = Some (issued, session)
    \<and> ticket_now k - issued < SSE_TICKET_TTL \<and> sse_tickets st' t = None
    \<and> written eff = fst (stream_events c (runtime k) (stream_ok k) (stream_lag k) (stream_now k) session)
    \<and> forwarded eff = snd (stream_events c (runtime k) (stream_ok k) (stream_lag k) (stream_now k) session)"
proof (cases "query_param (query r) ''ticket''")
  case (Some t)
  show ?thesis
  proof (cases "fst (consume_sse_ticket t (ticket_now k) (sse_tickets st))")
    case (Some session)
    then obtain issued where "sse_tickets st t = Some (issued, session)" "ticket_now k - issued < SSE_TICKET_TTL"
      unfolding consume_some by blast
    moreover have "snd (consume_sse_ticket t (ticket_now k) (sse_tickets st)) t = None" by (simp add: web_defs Let_def)
    ultimately show ?thesis
      using assms \<open>query_param (query r) ''ticket'' = Some t\<close> Some
      by (intro exI [of _ t] exI [of _ issued] exI [of _ session]) (auto simp: serve_events_def Let_def split_def)
  qed (use assms Some in \<open>auto simp: serve_events_def Let_def split_def\<close>)
qed (use assms in \<open>auto simp: serve_events_def Let_def\<close>)

lemma serve_api_forwarded:
  "q \<in> set (forwarded (serve_api c k r)) \<Longrightarrow> api_dispatch c r = Done (Forward q)"
proof (cases "api_dispatch c r")
  case (Done d)
  then show "q \<in> set (forwarded (serve_api c k r)) \<Longrightarrow> ?thesis"
    by (cases d) (simp_all add: serve_api_def api_route_def)
qed (simp add: serve_api_def api_route_def)

lemma serve_events_forwarded:
  "q \<in> set (forwarded (fst (serve_events c k r st))) \<Longrightarrow> get_str ''action'' q = Some ''events''"
proof (cases "query_param (query r) ''ticket''")
  case (Some t)
  then show "q \<in> set (forwarded (fst (serve_events c k r st))) \<Longrightarrow> ?thesis"
    by (cases "fst (consume_sse_ticket t (ticket_now k) (sse_tickets st))")
      (simp_all add: serve_events_def Let_def split_def stream_events_reqs)
qed (simp add: serve_events_def Let_def)

section \<open>Facts about the accept loop\<close>

lemma fetch_add_small: "n < MAX_WEB_THREADS \<Longrightarrow> fetch_add n = Suc n"
  by (simp add: fetch_add_def MAX_WEB_THREADS_def)

lemma fetch_sub_Suc: "n < MAX_WEB_THREADS \<Longrightarrow> fetch_sub (Suc n) = n"
proof -
  assume "n < MAX_WEB_THREADS"
  then have "n < 2 ^ 64" by (simp add: MAX_WEB_THREADS_def)
  moreover have "Suc n + (2 ^ 64 - 1) = n + 2 ^ 64" by simp
  ultimately show ?thesis unfolding fetch_sub_def by (metis mod_add_self2 mod_less)
qed

lemma fetch_sub_pos: "0 < n \<Longrightarrow> n \<le> MAX_WEB_THREADS \<Longrightarrow> fetch_sub n = n - 1"
  using fetch_sub_Suc [of "n - 1"] by simp

definition counted :: "server \<Rightarrow> bool" where
  "counted s \<longleftrightarrow> live s \<le> web_threads s \<and> web_threads s \<le> MAX_WEB_THREADS"

lemma web_step_counted:
  assumes "web_step c html cfg s s'" and "counted s"
  shows "counted s'" and "web_threads s - live s \<le> web_threads s' - live s'"
proof -
  from assms have "counted s' \<and> web_threads s - live s \<le> web_threads s' - live s'"
  proof (cases rule: web_step.cases)
    case (accept spawned out n started)
    then show ?thesis
      using assms(2) by (auto simp: counted_def accept_conn_def fetch_add_small fetch_sub_Suc split: if_splits)
  qed (use assms(2) in \<open>auto simp: counted_def fetch_sub_pos\<close>)
  then show "counted s'" and "web_threads s - live s \<le> web_threads s' - live s'" by auto
qed

lemma web_run_counted:
  assumes "(web_step c html cfg)\<^sup>*\<^sup>* s s'" and "counted s"
  shows "counted s'" and "web_threads s - live s \<le> web_threads s' - live s'"
proof -
  from assms have "counted s' \<and> web_threads s - live s \<le> web_threads s' - live s'"
    by (induction rule: rtranclp_induct) (auto dest: web_step_counted)
  then show "counted s'" and "web_threads s - live s \<le> web_threads s' - live s'" by auto
qed

text \<open>
  A connection that carries an authorised request of one of the four routes that assign into the
  parsed body, whose body is JSON but neither an object nor \<open>null\<close>.
\<close>

definition unwinds :: "codec \<Rightarrow> web_config \<Rightarrow> conn \<Rightarrow> http_request \<Rightarrow> bool" where
  "unwinds c cfg k r \<longleftrightarrow>
     read_http_request (start_now k) (incoming k) = Some r
     \<and> ((req_method r = ''POST'' \<and> route r \<in> {''/api/v1/agents'', ''/api/v1/run'', ''/api/v1/settings/provider''})
        \<or> (req_method r = ''PATCH'' \<and> prefix ''/api/v1/agents/'' (route r)))
     \<and> csrf_ok r \<and> (token cfg = [] \<or> bearer_ok r cfg)
     \<and> (case body_json c r of JNull \<Rightarrow> False | JObject _ \<Rightarrow> False | _ \<Rightarrow> True)"

lemma unwinds_panic:
  assumes "unwinds c cfg k r"
  shows "api_dispatch c r = Panic"
proof -
  have p: "index_set key x (body_json c r) = Panic" for key x
    using assms by (cases "body_json c r") (auto simp: unwinds_def)
  from assms consider "req_method r = ''POST''" "route r \<in> {''/api/v1/agents'', ''/api/v1/run'', ''/api/v1/settings/provider''}"
    | "req_method r = ''PATCH''" "prefix ''/api/v1/agents/'' (route r)"
    by (auto simp: unwinds_def)
  then show ?thesis by cases (auto simp: api_dispatch_def with_body_def p Let_def)
qed

lemma unwinds_route:
  assumes "unwinds c cfg k r"
  shows "prefix ''/api/v1/'' (route r)" "route r \<notin> set mock_routes" "route r \<noteq> ''/''" "route r \<noteq> ''/healthz''"
    "route r \<noteq> ''/api/v1/events/ticket''" "route r \<noteq> ''/api/v1/events''" "req_method r \<noteq> ''OPTIONS''"
proof -
  have "prefix ''/api/v1/agents'' (route r) \<or> route r = ''/api/v1/run'' \<or> route r = ''/api/v1/settings/provider''"
    using assms unfolding unwinds_def by (auto simp: prefix_def)
  then show "prefix ''/api/v1/'' (route r)" "route r \<notin> set mock_routes" "route r \<noteq> ''/''" "route r \<noteq> ''/healthz''"
    "route r \<noteq> ''/api/v1/events/ticket''" "route r \<noteq> ''/api/v1/events''"
    by (auto simp: prefix_def mock_routes_def)
  show "req_method r \<noteq> ''OPTIONS''" using assms by (auto simp: unwinds_def)
qed

lemma limited_below:
  assumes "peer k = Some ip" and "length (hits_of (general (rate st)) ip) < RATE_GENERAL_LIMIT"
  shows "\<not> fst (limited k st)"
    and "length (hits_of (general (rate (snd (limited k st)))) ip) \<le> Suc (length (hits_of (general (rate st)) ip))"
    and "auth_fail (rate (snd (limited k st))) = auth_fail (rate st)"
proof -
  let ?hits = "filter (\<lambda>t. rate_now k - t < RATE_GENERAL_WINDOW) (hits_of (general (rate st)) ip)"
  have "\<not> RATE_GENERAL_LIMIT \<le> length ?hits"
    using le_less_trans [OF length_filter_le assms(2)] by (simp only: not_le)
  with assms(1) show "\<not> fst (limited k st)"
    and "length (hits_of (general (rate (snd (limited k st)))) ip) \<le> Suc (length (hits_of (general (rate st)) ip))"
    and "auth_fail (rate (snd (limited k st))) = auth_fail (rate st)"
    by (auto simp: limited_def rate_limited_def rate_check_def Let_def)
qed

lemma unwinds_handle:
  assumes u: "unwinds c cfg k r" and ip: "peer k = Some ip"
    and few: "length (hits_of (general (rate st)) ip) < RATE_GENERAL_LIMIT"
    and none: "hits_of (auth_fail (rate st)) ip = []"
  shows "\<exists>eff st'. handle_web_connection c html cfg k st = (eff, st') \<and> panicked eff
    \<and> length (hits_of (general (rate st')) ip) \<le> Suc (length (hits_of (general (rate st)) ip))
    \<and> hits_of (auth_fail (rate st')) ip = []"
proof -
  obtain st1 where l: "limited k st = (False, st1)"
    using limited_below(1) [OF ip few] by (cases "limited k st") simp
  let ?st2 = "snd (locked_out k st1)"
  have lock: "\<not> fst (locked_out k st1)"
    and gen: "general (rate ?st2) = general (rate st1)" and af: "hits_of (auth_fail (rate ?st2)) ip = []"
    using ip none limited_below(3) [OF ip few] l
    by (auto simp: locked_out_def auth_failures_exceeded_def RATE_AUTH_FAIL_LIMIT_def Let_def)
  have a: "authorized r cfg now ts = (True, ts)" for now ts
    using u by (auto simp: unwinds_def authorized_def)
  have "api_route c io r = Panic" for io
    using unwinds_panic [OF u] by (simp add: api_route_def)
  then have "handle_web_connection c html cfg k st = (\<lparr>written = [], forwarded = [], panicked = True\<rparr>, ?st2)"
    using u l lock a unwinds_route [OF u]
    by (simp add: handle_web_connection_def unwinds_def serve_guarded_def serve_route_def serve_api_def split_def Let_def)
  with gen af limited_below(2) [OF ip few] l show ?thesis by simp
qed

lemma unwinding_leaks:
  assumes "unwinds c cfg k r" and "peer k = Some ip" and "n \<le> MAX_WEB_THREADS"
  shows "\<exists>s. (web_step c html cfg)\<^sup>*\<^sup>* initial_server s \<and> web_threads s = n \<and> live s = 0
    \<and> length (hits_of (general (rate (shared s))) ip) \<le> n \<and> hits_of (auth_fail (rate (shared s))) ip = []"
  using assms(3)
proof (induction n)
  case 0
  show ?case
    by (intro exI [of _ initial_server]) (simp add: initial_server_def no_windows_def hits_of_def)
next
  case (Suc n)
  then obtain s where run: "(web_step c html cfg)\<^sup>*\<^sup>* initial_server s" and s: "web_threads s = n" "live s = 0"
    "length (hits_of (general (rate (shared s))) ip) \<le> n" "hits_of (auth_fail (rate (shared s))) ip = []"
    by auto
  have n: "n < MAX_WEB_THREADS" "n < RATE_GENERAL_LIMIT"
    using Suc.prems by (auto simp: MAX_WEB_THREADS_def RATE_GENERAL_LIMIT_def)
  let ?s1 = "s\<lparr>web_threads := Suc n, live := 1\<rparr>"
  have "web_step c html cfg s ?s1"
    using web_step.accept [of True s "[]" "Suc n" True c html cfg] s n
    by (simp add: accept_conn_def fetch_add_small)
  moreover obtain eff st' where h: "handle_web_connection c html cfg k (shared ?s1) = (eff, st')" "panicked eff"
    and st': "length (hits_of (general (rate st')) ip) \<le> Suc n" "hits_of (auth_fail (rate st')) ip = []"
    using unwinds_handle [OF assms(1,2), of "shared s" html] s n by fastforce
  have "web_step c html cfg ?s1 (?s1\<lparr>live := 0, shared := st'\<rparr>)"
    using web_step.unwound [of ?s1 c html cfg k eff st'] h by simp
  ultimately have "(web_step c html cfg)\<^sup>*\<^sup>* initial_server (?s1\<lparr>live := 0, shared := st'\<rparr>)"
    using run by (meson rtranclp.rtrancl_into_rtrancl)
  with st' show ?case by (intro exI [of _ "?s1\<lparr>live := 0, shared := st'\<rparr>"]) simp
qed

section \<open>A sample connection\<close>

definition sample_codec :: codec where
  "sample_codec =
     \<lparr>from_str = (\<lambda>t. if t = ''[]'' then Some (JArray []) else None), to_str = (\<lambda>_. [])\<rparr>"

definition sample_conn :: "http_request \<Rightarrow> conn" where
  "sample_conn r =
     \<lparr>peer = Some (V4 1), rate_now = 0, start_now = 0, incoming = (\<lambda>k. (k, Some (print_request r))),
      lock_now = 0, auth_now = 0, fail_now = 0, ticket_now = 0, fresh = ''n'', runtime = (\<lambda>_ _. WriteFailed),
      stream_now = 0, stream_lag = (\<lambda>_. 0), stream_ok = (\<lambda>_. True)\<rparr>"

definition run_request :: http_request where
  "run_request =
     \<lparr>req_method = ''POST'', path = ''/api/v1/run'',
      headers = [(''x-allgres-client'', ''1''), (''content-length'', ''2'')], body = ''[]''\<rparr>"

definition ticket_request :: http_request where
  "ticket_request =
     \<lparr>req_method = ''POST'', path = ''/api/v1/events/ticket'',
      headers = [(''x-allgres-client'', ''1''), (''authorization'', ''Bearer s3cret''), (''content-length'', ''0'')],
      body = []\<rparr>"

definition open_config :: web_config where
  "open_config = \<lparr>token = [], socket = ''/s'', mock_enabled = False\<rparr>"

lemmas sample_defs = run_request_def ticket_request_def print_request_def print_head_def request_line_def
  print_field_def field_line_def wf_request_def wf_method_def wf_target_def wf_field_name_def
  wf_field_value_def visible_def byte_simps declared_length_def header_def eq_ignore_ascii_case_def
  to_ascii_lowercase_def parse_usize_def from_str_radix_def digit_val_def BUF_BYTES_def

lemma sample_read:
  "read_http_request 0 (\<lambda>k. (k, Some (print_request run_request))) = Some run_request"
  "read_http_request 0 (\<lambda>k. (k, Some (print_request ticket_request))) = Some ticket_request"
  by (rule read_one_chunk; simp add: sample_defs)+

lemma run_conn_unwinds: "unwinds sample_codec open_config (sample_conn run_request) run_request"
proof -
  have "csrf_ok run_request" and "route run_request = ''/api/v1/run''" by code_simp+
  then show ?thesis
    using sample_read(1)
    by (simp add: unwinds_def sample_conn_def open_config_def body_json_def sample_codec_def run_request_def)
qed

section \<open>Properties\<close>

lemma forwarded_admitted:
  assumes "handle_web_connection c html cfg k st = (eff, st')"
    and "forwarded eff \<noteq> [] \<or> panicked eff"
  shows "\<exists>r. read_http_request (start_now k) (incoming k) = Some r \<and> prefix ''/api/v1/'' (route r)
    \<and> admitted_request cfg k r (snd (limited k st))
    \<and> (\<forall>q \<in> set (forwarded eff). \<exists>a. get_str ''action'' q = Some a)"
proof -
  from handle_cases [OF assms(1)] assms(2) obtain r
    where r: "read_http_request (start_now k) (incoming k) = Some r" "prefix ''/api/v1/'' (route r)"
      and g: "serve_guarded c cfg k r (snd (limited k st)) = (eff, st')" by auto
  from serve_guarded_cases [OF g] assms(2) obtain st1
    where adm: "admitted_request cfg k r (snd (limited k st))"
      and e: "(eff, st') = serve_route c k r st1" by auto
  have "forwarded (fst (serve_ticket c k r st1)) = []"
    by (simp add: serve_ticket_def Let_def split_def)
  moreover have "\<exists>a. get_str ''action'' q = Some a" if "q \<in> set (forwarded (fst (serve_events c k r st1)))" for q
    using serve_events_forwarded [OF that] by simp
  moreover have "\<exists>a. get_str ''action'' q = Some a" if "q \<in> set (forwarded (serve_api c k r))" for q
    using serve_api_forwarded [OF that] by (rule api_dispatch_action)
  ultimately have "\<forall>q \<in> set (forwarded eff). \<exists>a. get_str ''action'' q = Some a"
    using e by (auto simp: serve_route_def split: if_splits) (metis fst_conv empty_iff list.set(1))+
  with r adm show ?thesis by blast
qed

text \<open>
  C7. Nothing reaches the runtime past the guards: when a connection forwards a request, or runs the
  code that can panic, the request it carried has an API path, passed the cross-origin check, its
  address was not locked out, and, where a token is configured, it carried that bearer token or asked
  for the event stream with a held and fresh ticket; and what is forwarded names its action.
\<close>

theorem forwarded_only_when_admitted:
  assumes "handle_web_connection c html cfg k st = (eff, st')"
    and "forwarded eff \<noteq> [] \<or> panicked eff"
  shows "\<exists>r. read_http_request (start_now k) (incoming k) = Some r \<and> prefix ''/api/v1/'' (route r)
    \<and> admitted_request cfg k r (snd (limited k st))
    \<and> (\<forall>q \<in> set (forwarded eff). \<exists>a. get_str ''action'' q = Some a)"
  using assms by (rule forwarded_admitted)

theorem forwarded_only_when_admitted_witness:
  "admitted_request open_config (sample_conn run_request) run_request
     (snd (limited (sample_conn run_request) (shared initial_server)))"
proof -
  have "peer (sample_conn run_request) = Some (V4 1)" by (simp add: sample_conn_def)
  then obtain eff st' where h: "handle_web_connection sample_codec [] open_config (sample_conn run_request)
      (shared initial_server) = (eff, st')" and p: "panicked eff"
    using unwinds_handle [OF run_conn_unwinds, of "V4 1" "shared initial_server" "[]"]
    by (auto simp: initial_server_def no_windows_def hits_of_def RATE_GENERAL_LIMIT_def)
  moreover have "read_http_request (start_now (sample_conn run_request)) (incoming (sample_conn run_request))
      = Some run_request"
    using sample_read(1) by (simp add: sample_conn_def)
  ultimately show ?thesis using forwarded_only_when_admitted [OF h] by auto
qed

text \<open>
  C8. Minting a ticket takes the real bearer token: with a token configured, a ticket that exists
  after a connection and did not before is the nonce drawn by that connection, which carried a POST
  to the ticket route with the bearer token; a ticket cannot be used to mint another one.
\<close>

theorem minting_needs_bearer:
  assumes "handle_web_connection c html cfg k st = (eff, st')" and "token cfg \<noteq> []"
    and "sse_tickets st t = None" and "sse_tickets st' t \<noteq> None"
  shows "t = fresh k \<and> (\<exists>r. read_http_request (start_now k) (incoming k) = Some r
    \<and> req_method r = ''POST'' \<and> route r = ''/api/v1/events/ticket''
    \<and> header r ''authorization'' = Some (''Bearer '' @ token cfg))"
proof -
  from assms(4) obtain x where x: "sse_tickets st' t = Some x" by auto
  let ?st = "snd (limited k st)"
  from handle_cases [OF assms(1)] assms(3) x obtain r
    where r: "read_http_request (start_now k) (incoming k) = Some r"
      and g: "serve_guarded c cfg k r ?st = (eff, st')" by auto
  have old: "snd (authorized r cfg (auth_now k) (sse_tickets ?st)) t = None"
    using authorized_tickets [of r cfg "auth_now k" "sse_tickets ?st" t] assms(3)
    by (cases "snd (authorized r cfg (auth_now k) (sse_tickets ?st)) t") auto
  have "sse_tickets st' \<notin> {sse_tickets ?st, snd (authorized r cfg (auth_now k) (sse_tickets ?st))}"
    using old x assms(3) by auto
  with serve_guarded_cases [OF g] obtain st1 where adm: "admitted_request cfg k r ?st"
    and "sse_tickets st1 = snd (authorized r cfg (auth_now k) (sse_tickets ?st))"
    and e: "(eff, st') = serve_route c k r st1" by blast
  with old have st1: "sse_tickets st1 t = None" by simp
  have m: "route r = ''/api/v1/events/ticket''"
  proof (rule ccontr)
    assume n: "route r \<noteq> ''/api/v1/events/ticket''"
    show False
    proof (cases "route r = ''/api/v1/events''")
      case True
      with e n have "serve_events c k r st1 = (eff, st')" by (simp add: serve_route_def)
      from serve_events_tickets [OF this x] st1 show False by simp
    qed (use e n st1 x in \<open>simp add: serve_route_def\<close>)
  qed
  with e have "(eff, st') = serve_ticket c k r st1" by (simp add: serve_route_def)
  with st1 x have "req_method r = ''POST'' \<and> t = fresh k"
    by (auto simp: serve_ticket_def web_defs Let_def split: if_splits)
  moreover have "bearer_ok r cfg"
    using adm m assms(2) by (auto simp: admitted_request_def authorized_def split: if_splits)
  ultimately show ?thesis using r m by (simp add: bearer_ok_iff)
qed

theorem minting_needs_bearer_witness:
  "header ticket_request ''authorization'' = Some (''Bearer '' @ token token_config)
   \<and> ''n'' = fresh (sample_conn ticket_request)"
proof -
  let ?k = "sample_conn ticket_request" and ?st = "shared initial_server"
  have ip: "peer ?k = Some (V4 1)" by (simp add: sample_conn_def)
  have few: "length (hits_of (general (rate ?st)) (V4 1)) < RATE_GENERAL_LIMIT"
    by (simp add: initial_server_def no_windows_def hits_of_def RATE_GENERAL_LIMIT_def)
  obtain st1 where l: "limited ?k ?st = (False, st1)"
    using limited_below(1) [OF ip few] by (cases "limited ?k ?st") simp
  have "hits_of (auth_fail (rate st1)) (V4 1) = []"
    using limited_below(3) [OF ip few] l by (simp add: initial_server_def no_windows_def hits_of_def)
  then have lock: "\<not> fst (locked_out ?k st1)"
    using ip by (simp add: locked_out_def auth_failures_exceeded_def RATE_AUTH_FAIL_LIMIT_def Let_def)
  have r: "read_http_request (start_now ?k) (incoming ?k) = Some ticket_request"
    using sample_read(2) by (simp add: sample_conn_def)
  have q: "csrf_ok ticket_request" "bearer_ok ticket_request token_config" "token token_config \<noteq> []"
    "route ticket_request = ''/api/v1/events/ticket''" "req_method ticket_request = ''POST''"
    by code_simp+
  let ?res = "handle_web_connection sample_codec [] token_config ?k ?st"
  have "sse_tickets (snd ?res) ''n'' \<noteq> None"
    using l lock r q
    by (simp add: handle_web_connection_def mock_routes_def serve_guarded_def serve_route_def serve_ticket_def
        authorized_def web_defs split_def Let_def sample_conn_def [of ticket_request])
  moreover have "sse_tickets ?st ''n'' = None" by (simp add: initial_server_def)
  ultimately have "''n'' = fresh ?k \<and> (\<exists>r. read_http_request (start_now ?k) (incoming ?k) = Some r
      \<and> req_method r = ''POST'' \<and> route r = ''/api/v1/events/ticket''
      \<and> header r ''authorization'' = Some (''Bearer '' @ token token_config))"
    using minting_needs_bearer [of sample_codec "[]" token_config ?k ?st "fst ?res" "snd ?res" "''n''"] q(3)
    by (metis prod.collapse)
  with r show ?thesis by (metis option.inject)
qed

text \<open>
  C34. An event stream ends, and it shows one session. When a connection to the event stream asks the
  runtime for anything, its query carries a ticket that was held and younger than \<open>SSE_TICKET_TTL\<close>; the
  ticket is gone afterwards; the stream asks at most once per \<open>SSE_INTERVAL\<close> until \<open>SSE_TOTAL\<close> and writes
  at most one frame per request behind its head; and every request is for events in the session that
  the ticket was minted for.
\<close>

theorem event_stream_bounded:
  assumes "handle_web_connection c html cfg k st = (eff, st')"
    and "read_http_request (start_now k) (incoming k) = Some r" "route r = ''/api/v1/events''"
    and "forwarded eff \<noteq> []"
  shows "\<exists>t issued session. query_param (query r) ''ticket'' = Some t
    \<and> sse_tickets st t = Some (issued, session) \<and> ticket_now k - issued < SSE_TICKET_TTL \<and> sse_tickets st' t = None
    \<and> length (written eff) \<le> 1 + SSE_TOTAL div SSE_INTERVAL \<and> length (forwarded eff) \<le> SSE_TOTAL div SSE_INTERVAL
    \<and> (\<forall>q \<in> set (forwarded eff). get_str ''action'' q = Some ''events'' \<and> get_str ''session_token'' q = Some session)"
proof -
  from handle_cases [OF assms(1)] assms(2,4) have g: "serve_guarded c cfg k r (snd (limited k st)) = (eff, st')" by auto
  from serve_guarded_cases [OF g] assms(4) obtain st1
    where ts: "sse_tickets st1 = snd (authorized r cfg (auth_now k) (sse_tickets (snd (limited k st))))"
      and "(eff, st') = serve_route c k r st1" by auto
  with assms(3) have "serve_events c k r st1 = (eff, st')" by (simp add: serve_route_def)
  from serve_events_stream [OF this assms(4)] obtain t issued session where q: "query_param (query r) ''ticket'' = Some t"
    and x: "sse_tickets st1 t = Some (issued, session)" "ticket_now k - issued < SSE_TICKET_TTL" "sse_tickets st' t = None"
    and e: "written eff = fst (stream_events c (runtime k) (stream_ok k) (stream_lag k) (stream_now k) session)"
      "forwarded eff = snd (stream_events c (runtime k) (stream_ok k) (stream_lag k) (stream_now k) session)" by blast
  from x(1) ts authorized_tickets have "sse_tickets st t = Some (issued, session)"
    by (metis guards_keep_tickets(1))
  with q x(2,3) e stream_events_bounds stream_events_reqs show ?thesis by metis
qed

text \<open>A stream whose client is gone at the first frame.\<close>

definition events_request :: http_request where
  "events_request =
     \<lparr>req_method = ''GET'', path = ''/api/v1/events?ticket=n'', headers = [(''content-length'', ''0'')], body = []\<rparr>"

theorem event_stream_bounded_witness:
  "\<exists>eff st'. handle_web_connection sample_codec [] open_config ((sample_conn events_request)\<lparr>stream_ok := (\<lambda>i. i = 0)\<rparr>)
      ((shared initial_server)\<lparr>sse_tickets := [''n'' \<mapsto> (0, ''s'')]\<rparr>) = (eff, st')
    \<and> length (forwarded eff) \<le> SSE_TOTAL div SSE_INTERVAL \<and> (\<exists>q \<in> set (forwarded eff). get_str ''session_token'' q = Some ''s'')"
proof -
  let ?k = "(sample_conn events_request)\<lparr>stream_ok := (\<lambda>i. i = 0)\<rparr>"
    and ?st = "(shared initial_server)\<lparr>sse_tickets := [''n'' \<mapsto> (0, ''s'')]\<rparr>"
  have "read_http_request 0 (\<lambda>k. (k, Some (print_request events_request))) = Some events_request"
    by (rule read_one_chunk; simp add: sample_defs events_request_def)
  then have r: "read_http_request (start_now ?k) (incoming ?k) = Some events_request" by (simp add: sample_conn_def)
  have q: "route events_request = ''/api/v1/events''" "csrf_ok events_request" "query_param (query events_request) ''ticket'' = Some ''n''"
    "req_method events_request = ''GET''"
    by code_simp+
  obtain eff st' where h: "handle_web_connection sample_codec [] open_config ?k ?st = (eff, st')" by fastforce
  have n: "snd (stream_events sample_codec io (\<lambda>i. i = 0) lag 0 session) \<noteq> []" for io lag session
    by (simp add: stream_events_def stream_loop.simps [of _ _ _ _ _ _ 0] SSE_TOTAL_def Let_def)
  from h r q have "forwarded eff = snd (stream_events sample_codec (\<lambda>_ _. WriteFailed) (\<lambda>i. i = 0) (\<lambda>_. 0) 0 ''s'')"
    by (auto simp: handle_web_connection_def sample_conn_def limited_def rate_limited_def rate_check_def
        serve_guarded_def locked_out_def auth_failures_exceeded_def authorized_def open_config_def serve_route_def serve_events_def
        initial_server_def no_windows_def hits_of_def RATE_GENERAL_LIMIT_def RATE_AUTH_FAIL_LIMIT_def mock_routes_def Let_def split_def
        web_defs SSE_TICKET_TTL_def retain_def)
  with n have f: "forwarded eff \<noteq> []" by simp
  from event_stream_bounded [OF h r q(1) f] q(3) have "length (forwarded eff) \<le> SSE_TOTAL div SSE_INTERVAL"
    "\<forall>q \<in> set (forwarded eff). get_str ''session_token'' q = Some ''s''" by auto
  with h f show ?thesis by (metis last_in_set)
qed

text \<open>
  C9. Between handlers the counter never falls below the number of running handler threads and never
  exceeds \<open>MAX_WEB_THREADS\<close>, so at most that many handlers run at once, whatever connections arrive
  and however their handlers end; the difference between the two never shrinks again.
\<close>

theorem web_threads_bounded:
  assumes "(web_step c html cfg)\<^sup>*\<^sup>* initial_server s"
  shows "live s \<le> web_threads s \<and> web_threads s \<le> MAX_WEB_THREADS
    \<and> (\<forall>s'. web_step c html cfg s s' \<longrightarrow> web_threads s - live s \<le> web_threads s' - live s')"
proof -
  have "counted initial_server" by (simp add: counted_def initial_server_def)
  with web_run_counted(1) [OF assms] have "counted s" by blast
  then show ?thesis using web_step_counted(2) by (auto simp: counted_def)
qed

theorem web_threads_bounded_witness:
  "\<exists>s. (web_step sample_codec [] open_config)\<^sup>*\<^sup>* initial_server s \<and> live s = 1 \<and> web_threads s \<le> MAX_WEB_THREADS"
proof -
  let ?s = "initial_server\<lparr>web_threads := 1, live := 1\<rparr>"
  have "web_step sample_codec [] open_config initial_server ?s"
    using web_step.accept [of True initial_server "[]" 1 True sample_codec "[]" open_config]
    by (simp add: accept_conn_def initial_server_def MAX_WEB_THREADS_def fetch_add_def)
  then have run: "(web_step sample_codec [] open_config)\<^sup>*\<^sup>* initial_server ?s" by blast
  from web_threads_bounded [OF run] run show ?thesis by (intro exI [of _ ?s]) simp
qed

text \<open>
  C10. The handler can be made to wedge the worker: an authorised request to one of the routes that
  assign into the parsed body, whose body is a JSON array, string, number or boolean, panics the
  handler thread after the counter was incremented and before it is decremented. One client sending
  \<open>MAX_WEB_THREADS\<close> such requests, well inside the rate limit, brings the worker into a state with no
  running handler from which every later connection is answered with 503.
\<close>

theorem unwinding_wedges_worker:
  assumes "unwinds c cfg k r" and "peer k = Some ip"
  shows "\<exists>s. (web_step c html cfg)\<^sup>*\<^sup>* initial_server s \<and> live s = 0
    \<and> (\<forall>s'. (web_step c html cfg)\<^sup>*\<^sup>* s s' \<longrightarrow>
          live s' = 0 \<and> (\<forall>spawned. fst (accept_conn spawned (web_threads s')) = busy_reply))"
proof -
  from unwinding_leaks [OF assms, of MAX_WEB_THREADS html] obtain s
    where run: "(web_step c html cfg)\<^sup>*\<^sup>* initial_server s" and s: "web_threads s = MAX_WEB_THREADS" "live s = 0"
    by auto
  then have "counted s" by (simp add: counted_def)
  have "live s' = 0 \<and> web_threads s' = MAX_WEB_THREADS" if "(web_step c html cfg)\<^sup>*\<^sup>* s s'" for s'
    using web_run_counted [OF that \<open>counted s\<close>] s by (auto simp: counted_def MAX_WEB_THREADS_def)
  with run s show ?thesis by (intro exI [of _ s]) (auto simp: accept_conn_def)
qed

theorem unwinding_wedges_worker_witness:
  "\<exists>s. (web_step sample_codec [] open_config)\<^sup>*\<^sup>* initial_server s \<and> live s = 0
     \<and> fst (accept_conn True (web_threads s)) = busy_reply"
proof -
  have "peer (sample_conn run_request) = Some (V4 1)" by (simp add: sample_conn_def)
  from unwinding_wedges_worker [OF run_conn_unwinds this, of "[]"] show ?thesis by blast
qed

end
