(* ===== verification/Spi_Session.thy ===== *)
theory Spi_Session
  imports Json Lib_Helpers Rpc
begin

text \<open>
  The database session of the runtime worker as its code sees it. PostgreSQL is a parameter: \<open>db\<close>
  answers every statement from the history of the session, in any way it likes. What the code does
  to the session is the trace of its calls: statements with their answers, transaction and
  subtransaction boundaries, the statement timer, the security context and warnings. A PostgreSQL
  error unwinds the Rust stack, which is the error case \<open>Inl\<close> of \<open>io\<close>; an \<open>Err\<close> that \<open>Spi\<close> returns is an
  ordinary value. \<open>drop_privileges\<close> (\<open>runtime_worker.rs\<close>), \<open>run_in_subtransaction\<close> (\<open>sandbox.rs\<close>) and
  \<open>with_fixed_role\<close> (\<open>function_exec.rs\<close>) are here because every executor uses them; so are the two
  interfaces the executors share: \<open>completion\<close>, recording the result of a job, and
  \<open>agent_executor\<close>, running one statement of agent code.
\<close>

section \<open>Statements and the trace\<close>

text \<open>Arguments and results of a statement.\<close>

datatype datum = DNull | DText string | DInt int | DBool bool | DJson json | DTexts "string list"

datatype 'a spi_res = SpiOk 'a | SpiErr string | PgError string

datatype answer = Answer datum | ReturnedErr string | Raised string

datatype event =
    StartTransaction
  | CommitTransaction
  | BeginSub
  | ReleaseSub
  | RollbackSub
  | Exec string "datum list" answer
  | EnableTimeout int int
  | DisableTimeout int
  | FixRole
  | RestoreRole
  | Warning string

type_synonym 'a spi = "(event list, 'a) io"
type_synonym 'a query = "event list \<Rightarrow> string \<Rightarrow> datum list \<Rightarrow> 'a spi_res"
type_synonym env = "string \<Rightarrow> string option"

text \<open>
  \<open>Spi::run\<close>, \<open>Spi::get_one::<bool>\<close> and \<open>Spi::get_one::<JsonB>\<close>; and the error that committing raises, if
  any, such as the violation of a deferred constraint.
\<close>

record db =
  run_stmt :: "unit query"
  one_bool :: "bool option query"
  one_json :: "json option query"
  commit_error :: "event list \<Rightarrow> string option"

definition emit :: "event \<Rightarrow> unit spi" where
  [spi_simps]: "emit e tr = (Inr (), tr @ [e])"

fun opt_datum :: "('a \<Rightarrow> datum) \<Rightarrow> 'a option \<Rightarrow> datum" where
  "opt_datum f None = DNull"
| "opt_datum f (Some x) = f x"

definition spi_call :: "('a \<Rightarrow> datum) \<Rightarrow> 'a query \<Rightarrow> string \<Rightarrow> datum list \<Rightarrow> 'a result spi" where
  "spi_call enc q sql args tr =
     (case q tr sql args of
        SpiOk v \<Rightarrow> (Inr (Inr v), tr @ [Exec sql args (Answer (enc v))])
      | SpiErr e \<Rightarrow> (Inr (Inl e), tr @ [Exec sql args (ReturnedErr e)])
      | PgError e \<Rightarrow> (Inl e, tr @ [Exec sql args (Raised e)]))"

definition spi_run :: "db \<Rightarrow> string \<Rightarrow> datum list \<Rightarrow> unit result spi" where
  "spi_run db = spi_call (\<lambda>_. DNull) (run_stmt db)"

definition get_one_bool :: "db \<Rightarrow> string \<Rightarrow> datum list \<Rightarrow> bool option result spi" where
  "get_one_bool db = spi_call (opt_datum DBool) (one_bool db)"

definition get_one_json :: "db \<Rightarrow> string \<Rightarrow> datum list \<Rightarrow> json option result spi" where
  "get_one_json db = spi_call (opt_datum DJson) (one_json db)"

text \<open>\<open>Spi::run(..).is_ok()\<close>.\<close>

definition exec_ok :: "db \<Rightarrow> string \<times> datum list \<Rightarrow> bool spi" where
  "exec_ok db st = try_bind (spi_run db (fst st) (snd st)) (\<lambda>r. io_ok (\<not> isl r))"

text \<open>\<open>a && b && ...\<close> over such actions, left to right, stopping at the first that is false.\<close>

primrec all_ok :: "bool spi list \<Rightarrow> bool spi" where
  "all_ok [] = io_ok True"
| "all_ok (m # ms) = try_bind m (\<lambda>b. if b then all_ok ms else io_ok False)"

section \<open>Privileges\<close>

definition assume_worker_role :: string where
  "assume_worker_role = ''SELECT allgres.assume_worker_role()''"

definition drop_privileges :: "env \<Rightarrow> db \<Rightarrow> bool spi" where
  "drop_privileges env db =
     (if env ''ALLGRES_DROP_PRIVILEGES'' = Some ''0'' then io_ok True
      else
        try_bind (get_one_bool db assume_worker_role []) (\<lambda>r.
          case r of
            Inr (Some True) \<Rightarrow> io_ok True
          | Inr (Some False) \<Rightarrow>
              try_bind (emit (Warning ''Allgres: assume_worker_role() reports the worker role is not ready'')) (\<lambda>_. io_ok False)
          | Inr None \<Rightarrow>
              try_bind (emit (Warning ''Allgres: assume_worker_role() returned no result'')) (\<lambda>_. io_ok False)
          | Inl e \<Rightarrow>
              try_bind (emit (Warning (''Allgres: assume_worker_role() failed: '' @ e))) (\<lambda>_. io_ok False)))"

section \<open>Transactions\<close>

text \<open>
  \<open>BackgroundWorker::transaction\<close>: an error of the body unwinds past the commit, and the commit itself may
  raise, in which case nothing is committed and the error unwinds too.
\<close>

definition commit_transaction :: "db \<Rightarrow> unit spi" where
  [spi_simps]: "commit_transaction db tr =
     (case commit_error db tr of Some e \<Rightarrow> (Inl e, tr) | None \<Rightarrow> (Inr (), tr @ [CommitTransaction]))"

definition transaction :: "db \<Rightarrow> 'a spi \<Rightarrow> 'a spi" where
  "transaction db body =
     try_bind (emit StartTransaction) (\<lambda>_.
     try_bind body (\<lambda>x.
     try_bind (commit_transaction db) (\<lambda>_. io_ok x)))"

text \<open>
  The subtransaction is released when the closure returns \<open>Ok\<close> and rolled back when an error is
  caught; when the closure returns \<open>Err\<close> neither happens.
\<close>

definition run_in_subtransaction :: "'a result spi \<Rightarrow> 'a result spi" where
  "run_in_subtransaction f tr =
     (case f (tr @ [BeginSub]) of
        (Inl message, tr') \<Rightarrow> (Inr (Inl message), tr' @ [RollbackSub])
      | (Inr (Inr v), tr') \<Rightarrow> (Inr (Inr v), tr' @ [ReleaseSub])
      | (Inr (Inl e), tr') \<Rightarrow> (Inr (Inl e), tr'))"

definition with_fixed_role :: "json result spi \<Rightarrow> json result spi" where
  "with_fixed_role run =
     try_bind (emit FixRole) (\<lambda>_.
     try_bind run (\<lambda>r.
     try_bind (emit RestoreRole) (\<lambda>_. io_ok r)))"

section \<open>Claiming and completing\<close>

text \<open>
  The shape of the claim functions: one statement behind the privilege drop; \<open>key\<close> names the array of
  the empty answer.
\<close>

definition no_jobs :: "string \<Rightarrow> json" where
  "no_jobs key = jobj [(''count'', JNumber (PosInt 0)), (key, JArray [])]"

definition claim :: "env \<Rightarrow> db \<Rightarrow> string \<Rightarrow> string \<Rightarrow> int \<Rightarrow> json spi" where
  "claim env db sql key limit =
     transaction db (
       try_bind (drop_privileges env db) (\<lambda>dropped.
         if \<not> dropped then io_ok (no_jobs key)
         else try_bind (get_one_json db sql [DInt limit]) (\<lambda>r.
                io_ok (case r of Inr (Some v) \<Rightarrow> v | _ \<Rightarrow> no_jobs key))))"

text \<open>
  The shape of the completion functions: \<open>stmt\<close> runs the statement, \<open>what\<close> is the SQL function, \<open>ref\<close>
  how a warning names the row.
\<close>

definition skipped :: "string \<Rightarrow> string \<Rightarrow> string" where
  "skipped what ref = ''Allgres: skipping '' @ what @ '' for '' @ ref @ '' -- privilege drop failed''"

definition complete_row :: "env \<Rightarrow> db \<Rightarrow> 'a result spi \<Rightarrow> string \<Rightarrow> string \<Rightarrow> unit spi" where
  "complete_row env db stmt what ref =
     transaction db (
       try_bind (drop_privileges env db) (\<lambda>dropped.
         if \<not> dropped then
           emit (Warning (skipped what ref))
         else try_bind stmt (\<lambda>r.
                case r of
                  Inl e \<Rightarrow> emit (Warning (''Allgres: '' @ what @ '' failed for '' @ ref @ '': '' @ e))
                | Inr _ \<Rightarrow> io_ok ())))"

text \<open>The loop of every pump: a malformed job is skipped, any other is processed and counted.\<close>

primrec pump_jobs :: "(json \<Rightarrow> unit spi option) \<Rightarrow> json list \<Rightarrow> nat \<Rightarrow> nat spi" where
  "pump_jobs job [] n = io_ok n"
| "pump_jobs job (c # cs) n =
     (case job c of
        None \<Rightarrow> pump_jobs job cs n
      | Some act \<Rightarrow> try_bind act (\<lambda>_. pump_jobs job cs (n + 1)))"

section \<open>What the trace shows\<close>

text \<open>The statements of a trace, and the events of a statement that succeeded.\<close>

fun statement :: "event \<Rightarrow> (string \<times> datum list) option" where
  "statement (Exec sql args _) = Some (sql, args)"
| "statement _ = None"

definition executed :: "event list \<Rightarrow> (string \<times> datum list) list" where
  "executed tr = List.map_filter statement tr"

abbreviation ok_exec :: "string \<times> datum list \<Rightarrow> event" where
  "ok_exec st \<equiv> Exec (fst st) (snd st) (Answer DNull)"

text \<open>The events of a privilege drop that landed.\<close>

definition privilege_drop :: "env \<Rightarrow> event list" where
  "privilege_drop env =
     (if env ''ALLGRES_DROP_PRIVILEGES'' = Some ''0'' then []
      else [Exec assume_worker_role [] (Answer (DBool True))])"

text \<open>
  How many subtransactions are open, and whether the statement timer runs. A timer that goes off is no
  longer armed: \<open>fired\<close> says of a statement that raised whether the timer went off during it.
\<close>

fun sub_depth :: "event list \<Rightarrow> int" where
  "sub_depth [] = 0"
| "sub_depth (e # tr) =
     (case e of BeginSub \<Rightarrow> 1 | ReleaseSub \<Rightarrow> -1 | RollbackSub \<Rightarrow> -1 | _ \<Rightarrow> 0) + sub_depth tr"

definition timer_armed :: "(event \<Rightarrow> bool) \<Rightarrow> bool \<Rightarrow> event list \<Rightarrow> bool" where
  "timer_armed fired on tr =
     fold (\<lambda>e on.
       case e of
         EnableTimeout _ _ \<Rightarrow> True
       | DisableTimeout _ \<Rightarrow> False
       | Exec _ _ (Raised _) \<Rightarrow> on \<and> \<not> fired e
       | _ \<Rightarrow> on) tr on"

lemma executed_simps [simp]:
  "executed [] = []"
  "executed (Exec sql args a # tr) = (sql, args) # executed tr"
  "executed (StartTransaction # tr) = executed tr" "executed (CommitTransaction # tr) = executed tr"
  "executed (BeginSub # tr) = executed tr" "executed (ReleaseSub # tr) = executed tr"
  "executed (RollbackSub # tr) = executed tr" "executed (EnableTimeout i d # tr) = executed tr"
  "executed (DisableTimeout i # tr) = executed tr" "executed (FixRole # tr) = executed tr"
  "executed (RestoreRole # tr) = executed tr" "executed (Warning w # tr) = executed tr"
  "executed (xs @ ys) = executed xs @ executed ys"
  by (simp_all add: executed_def List.map_filter_def)

lemma executed_ok [simp]: "executed (map ok_exec sts) = sts"
  by (induction sts) auto

lemma executed_mem: "Exec sql args a \<in> set tr \<Longrightarrow> (sql, args) \<in> set (executed tr)"
  by (force simp: executed_def List.map_filter_def)

text \<open>A statement that is issued once splits the trace in one way.\<close>

lemma split_at_statement:
  assumes "pre @ Exec sql args a # post = xs @ Exec sql args b # ys"
    and "(sql, args) \<notin> set (executed xs)" and "(sql, args) \<notin> set (executed ys)"
  shows "pre = xs \<and> a = b \<and> post = ys"
  using assms
proof (induction xs arbitrary: pre)
  case Nil
  then show ?case
    by (cases pre) (auto dest: executed_mem)
next
  case (Cons x xs)
  then show ?case
    by (cases pre; cases x) auto
qed

lemma sub_depth_append [simp]: "sub_depth (xs @ ys) = sub_depth xs + sub_depth ys"
  by (induction xs) auto

lemma timer_armed_simps [simp]:
  "timer_armed f on [] = on" "timer_armed f on (xs @ ys) = timer_armed f (timer_armed f on xs) ys"
  "timer_armed f on (EnableTimeout i d # tr) = timer_armed f True tr"
  "timer_armed f on (DisableTimeout i # tr) = timer_armed f False tr"
  "timer_armed f on (Exec sql args (Answer v) # tr) = timer_armed f on tr"
  "timer_armed f on (Exec sql args (ReturnedErr e) # tr) = timer_armed f on tr"
  "timer_armed f on (Exec sql args (Raised e) # tr) = timer_armed f (on \<and> \<not> f (Exec sql args (Raised e))) tr"
  "timer_armed f on (StartTransaction # tr) = timer_armed f on tr" "timer_armed f on (CommitTransaction # tr) = timer_armed f on tr"
  "timer_armed f on (BeginSub # tr) = timer_armed f on tr" "timer_armed f on (ReleaseSub # tr) = timer_armed f on tr"
  "timer_armed f on (RollbackSub # tr) = timer_armed f on tr" "timer_armed f on (FixRole # tr) = timer_armed f on tr"
  "timer_armed f on (RestoreRole # tr) = timer_armed f on tr" "timer_armed f on (Warning w # tr) = timer_armed f on tr"
  by (simp_all add: timer_armed_def)

lemma timer_stays_off: "timer_armed f False (Exec sql args a # tr) = timer_armed f False tr"
  by (cases a) simp_all

lemma quiet_ok [simp]: "sub_depth (map ok_exec sts) = 0" "timer_armed f on (map ok_exec sts) = on"
  by (induction sts) auto

lemma quiet_drop [simp]: "sub_depth (privilege_drop env) = 0" "timer_armed f on (privilege_drop env) = on"
  "set (executed (privilege_drop env)) \<subseteq> {(assume_worker_role, [])}"
  by (auto simp: privilege_drop_def)


text \<open>Events that are only warnings and statements of a given set.\<close>

fun plain :: "(string \<times> datum list) set \<Rightarrow> event \<Rightarrow> bool" where
  "plain S (Exec sql args _) \<longleftrightarrow> (sql, args) \<in> S"
| "plain S (Warning _) \<longleftrightarrow> True"
| "plain S _ \<longleftrightarrow> False"

abbreviation only :: "(string \<times> datum list) set \<Rightarrow> event list \<Rightarrow> bool" where
  "only S tr \<equiv> list_all (plain S) tr"

lemma only_quiet: "only S tr \<Longrightarrow> sub_depth tr = 0 \<and> timer_armed f False tr = False \<and> set (executed tr) \<subseteq> S"
proof (induction tr)
  case (Cons e tr)
  then show ?case by (cases e) (auto simp: timer_stays_off)
qed simp

lemma only_mono: "only S tr \<Longrightarrow> S \<subseteq> T \<Longrightarrow> only T tr"
proof (induction tr)
  case (Cons e tr)
  then show ?case by (cases e) auto
qed simp

text \<open>
  The statements whose effects are committed. The stack holds what each open (sub)transaction did;
  releasing merges a level into the one below, rolling back drops it. As in PostgreSQL, a commit
  takes effect only when no subtransaction is open, and starting a transaction inside an open one
  continues it.
\<close>

fun tx_step :: "event \<Rightarrow> string list list \<Rightarrow> string list list \<times> string list" where
  "tx_step (Exec sql args a) st =
     (case (a, st) of (Answer _, x # st) \<Rightarrow> ((x @ [sql]) # st, []) | _ \<Rightarrow> (st, []))"
| "tx_step BeginSub st = ([] # st, [])"
| "tx_step ReleaseSub st = (case st of y # x # st \<Rightarrow> ((x @ y) # st, []) | _ \<Rightarrow> (st, []))"
| "tx_step RollbackSub st = (case st of y # x # st \<Rightarrow> (x # st, []) | _ \<Rightarrow> (st, []))"
| "tx_step StartTransaction st = (if st = [] then [[]] else st, [])"
| "tx_step CommitTransaction st = (case st of [x] \<Rightarrow> ([], x) | _ \<Rightarrow> (st, []))"
| "tx_step _ st = (st, [])"

primrec survivors :: "string list list \<Rightarrow> event list \<Rightarrow> string list" where
  "survivors st [] = []"
| "survivors st (e # tr) = snd (tx_step e st) @ survivors (fst (tx_step e st)) tr"

text \<open>Events that do not open or close a (sub)transaction add to the innermost level.\<close>

fun flat :: "event \<Rightarrow> bool" where
  "flat e \<longleftrightarrow> e \<notin> {StartTransaction, CommitTransaction, BeginSub, ReleaseSub, RollbackSub}"

lemma survivors_flat:
  "list_all flat new \<Longrightarrow> \<exists>ys. survivors (x # st) (new @ tr) = survivors ((x @ ys) # st) tr"
proof (induction new arbitrary: x)
  case Nil
  show ?case by (rule exI [of _ "[]"]) simp
next
  case (Cons e new)
  then have IH: "\<exists>ys. survivors (x # st) (new @ tr) = survivors ((x @ ys) # st) tr" for x by simp
  from Cons.prems have "\<exists>ys. tx_step e (x # st) = ((x @ ys) # st, [])"
    by (cases e) (auto split: answer.splits)
  then obtain ys where "tx_step e (x # st) = ((x @ ys) # st, [])" ..
  with IH [of "x @ ys"] show ?case by auto
qed

lemma plain_flat: "plain S e \<Longrightarrow> flat e"
  by (cases e) simp_all

lemma survivors_only:
  "only S new \<Longrightarrow> \<exists>ys. survivors (x # st) (new @ tr) = survivors ((x @ ys) # st) tr"
  by (rule survivors_flat) (blast intro: plain_flat list.pred_mono_strong)

text \<open>While a subtransaction stays open below, nothing is committed.\<close>

definition well_nested :: "event list \<Rightarrow> bool" where
  "well_nested tr \<longleftrightarrow> (\<forall>k. 0 \<le> sub_depth (take k tr))"

lemma survivors_open:
  "(\<And>k. 2 \<le> int (length st) + sub_depth (take k tr)) \<Longrightarrow> survivors st tr = []"
proof (induction tr arbitrary: st)
  case (Cons e tr)
  let ?d = "sub_depth [e]" and ?st = "fst (tx_step e st)"
  from Cons.prems [of 0] obtain a b st' where st: "st = a # b # st'" by (cases st; cases "tl st") auto
  have "snd (tx_step e st) = []" by (cases e) (auto simp: st split: answer.splits)
  moreover have l: "int (length ?st) = int (length st) + ?d"
    by (cases e) (auto simp: st split: answer.splits)
  have "2 \<le> int (length ?st) + sub_depth (take k tr)" for k
    using Cons.prems [of "Suc k"] l by simp
  with Cons.IH have "survivors ?st tr = []" by blast
  ultimately show ?case by simp
qed simp

section \<open>How the building blocks extend the trace\<close>

definition answered :: "answer \<Rightarrow> 'a result result \<Rightarrow> bool" where
  "answered a r \<longleftrightarrow>
     (case a of Answer _ \<Rightarrow> \<exists>v. r = Inr (Inr v) | ReturnedErr e \<Rightarrow> r = Inr (Inl e) | Raised e \<Rightarrow> r = Inl e)"

lemma spi_call_trace:
  assumes "spi_call enc q sql args tr = (r, tr')"
  obtains a where "tr' = tr @ [Exec sql args a]" "answered a r" "\<forall>v. r = Inr (Inr v) \<longrightarrow> a = Answer (enc v)"
  using assms by (auto simp: spi_call_def answered_def split: spi_res.splits)

lemma exec_ok_trace:
  assumes "exec_ok db st tr = (r, tr')"
  obtains a where "tr' = tr @ [Exec (fst st) (snd st) a]" "r = Inr True \<longleftrightarrow> a = Answer DNull"
proof -
  obtain x tr1 where x: "spi_run db (fst st) (snd st) tr = (x, tr1)" by fastforce
  then obtain a where a: "tr1 = tr @ [Exec (fst st) (snd st) a]" "answered a x" "\<forall>v. x = Inr (Inr v) \<longrightarrow> a = Answer DNull"
    unfolding spi_run_def by (rule spi_call_trace)
  from assms x a have "r = Inr True \<longleftrightarrow> a = Answer DNull" "tr' = tr1"
    by (auto simp: exec_ok_def try_bind_def answered_def io_ok_def split: sum.splits answer.splits)
  with a that show ?thesis by blast
qed

lemma all_ok_exec_trace:
  "all_ok (map (exec_ok db) sts) tr = (r, tr') \<Longrightarrow>
   \<exists>new. tr' = tr @ new \<and> only (set sts) new \<and> (r = Inr True \<longrightarrow> new = map ok_exec sts)"
proof (induction sts arbitrary: tr)
  case (Cons st sts)
  obtain x tr1 where x: "exec_ok db st tr = (x, tr1)" by fastforce
  then obtain a where a: "tr1 = tr @ [Exec (fst st) (snd st) a]" "x = Inr True \<longleftrightarrow> a = Answer DNull"
    by (rule exec_ok_trace)
  show ?case
  proof (cases "x = Inr True")
    case True
    with Cons.prems x have "all_ok (map (exec_ok db) sts) tr1 = (r, tr')" by (simp add: try_bind_def)
    from Cons.IH [OF this] obtain new where "tr' = tr1 @ new" "only (set sts) new"
      "r = Inr True \<longrightarrow> new = map ok_exec sts" by blast
    with a True only_mono [of "set sts" new "insert st (set sts)"] show ?thesis by auto
  next
    case False
    with Cons.prems x have "tr' = tr1" "r \<noteq> Inr True"
      by (auto simp: try_bind_def split: sum.splits if_splits)
    with a show ?thesis by auto
  qed
qed simp

lemma drop_privileges_trace:
  assumes "drop_privileges env db tr = (r, tr')"
  obtains new where "tr' = tr @ new" "only {(assume_worker_role, [])} new" "r = Inr True \<longrightarrow> new = privilege_drop env"
proof (cases "env ''ALLGRES_DROP_PRIVILEGES'' = Some ''0''")
  case True
  with assms that [of "[]"] show ?thesis by (simp add: drop_privileges_def privilege_drop_def)
next
  case False
  obtain x tr1 where x: "get_one_bool db assume_worker_role [] tr = (x, tr1)" by fastforce
  then obtain a where a: "tr1 = tr @ [Exec assume_worker_role [] a]" "answered a x"
      "\<forall>v. x = Inr (Inr v) \<longrightarrow> a = Answer (opt_datum DBool v)"
    unfolding get_one_bool_def by (rule spi_call_trace)
  from assms False x have "r = Inr True \<and> x = Inr (Inr (Some True)) \<and> tr' = tr1
      \<or> r \<noteq> Inr True \<and> (tr' = tr1 \<or> (\<exists>w. tr' = tr1 @ [Warning w]))"
    by (auto simp: drop_privileges_def try_bind_def spi_simps io_ok_def split: sum.splits option.splits bool.splits)
  with a False that show ?thesis by (auto simp: privilege_drop_def)
qed

text \<open>The conjunction every executor begins with: drop privileges, then the set-up statements.\<close>

lemma setup_trace:
  assumes "all_ok (drop_privileges env db # map (exec_ok db) sts) tr = (r, tr')"
  obtains new where "tr' = tr @ new" "only (insert (assume_worker_role, []) (set sts)) new"
    "r = Inr True \<longrightarrow> new = privilege_drop env @ map ok_exec sts"
proof -
  let ?S = "insert (assume_worker_role, []) (set sts)"
  obtain x tr1 where x: "drop_privileges env db tr = (x, tr1)" by fastforce
  then obtain n1 where n1: "tr1 = tr @ n1" "only {(assume_worker_role, [])} n1" "x = Inr True \<longrightarrow> n1 = privilege_drop env"
    by (rule drop_privileges_trace)
  have o1: "only ?S n1" using n1(2) by (rule only_mono) simp
  show ?thesis
  proof (cases "x = Inr True")
    case True
    with assms x have "all_ok (map (exec_ok db) sts) tr1 = (r, tr')" by (simp add: try_bind_def)
    from all_ok_exec_trace [OF this] obtain n2 where n2: "tr' = tr1 @ n2" "only (set sts) n2"
      "r = Inr True \<longrightarrow> n2 = map ok_exec sts" by blast
    then have "only ?S n2" using only_mono [of "set sts" n2 ?S] by blast
    with n1 n2 o1 True that [of "n1 @ n2"] show ?thesis by auto
  next
    case False
    with assms x have "tr' = tr1" "r \<noteq> Inr True"
      by (auto simp: try_bind_def split: sum.splits if_splits)
    with n1 o1 that [of n1] show ?thesis by auto
  qed
qed

section \<open>Pumps\<close>

text \<open>Running actions one after the other; the specification of a pump's loop.\<close>

primrec run_all :: "unit spi list \<Rightarrow> unit spi" where
  "run_all [] = io_ok ()"
| "run_all (m # ms) = try_bind m (\<lambda>_. run_all ms)"

lemma pump_jobs_run_all:
  "pump_jobs job cs n =
     try_bind (run_all (List.map_filter job cs)) (\<lambda>_. io_ok (n + length (List.map_filter job cs)))"
proof (rule ext)
  fix tr
  show "pump_jobs job cs n tr =
     try_bind (run_all (List.map_filter job cs)) (\<lambda>_. io_ok (n + length (List.map_filter job cs))) tr"
  proof (induction cs arbitrary: n tr)
    case (Cons c cs)
    then show ?case
      by (auto simp: List.map_filter_def try_bind_def io_ok_def split: option.splits prod.splits sum.splits)
  qed (simp add: List.map_filter_def try_bind_def io_ok_def)
qed

section \<open>Which events an action can emit\<close>

text \<open>\<open>emits P m\<close>: whatever \<open>m\<close> does, it appends events that satisfy \<open>P\<close> to the trace.\<close>

definition emits :: "(event \<Rightarrow> bool) \<Rightarrow> 'a spi \<Rightarrow> bool" where
  "emits P m \<longleftrightarrow> (\<forall>tr r tr'. m tr = (r, tr') \<longrightarrow> (\<exists>new. tr' = tr @ new \<and> list_all P new))"

named_theorems emits_rules \<open>introduction rules for emits\<close>

lemma emitsD:
  assumes "emits P m" and "m tr = (r, tr')"
  obtains new where "tr' = tr @ new" "list_all P new"
  using assms unfolding emits_def by blast

lemma emits_ok [emits_rules]: "emits P (io_ok x)"
  by (simp add: emits_def)

lemma emits_emit [emits_rules]: "P e \<Longrightarrow> emits P (emit e)"
  by (simp add: emits_def spi_simps)

lemma emits_bind [emits_rules]:
  assumes "emits P m" and "\<And>x. emits P (f x)"
  shows "emits P (try_bind m f)"
  unfolding emits_def
proof (intro allI impI)
  fix tr r tr'
  assume *: "try_bind m f tr = (r, tr')"
  obtain x tr1 where x: "m tr = (x, tr1)" by fastforce
  with assms(1) obtain n1 where n1: "tr1 = tr @ n1" "list_all P n1" by (rule emitsD)
  show "\<exists>new. tr' = tr @ new \<and> list_all P new"
  proof (cases x)
    case (Inl e)
    with * x n1 show ?thesis by (intro exI [of _ n1]) (auto simp: try_bind_def)
  next
    case (Inr y)
    with * x have "f y tr1 = (r, tr')" by (simp add: try_bind_def)
    with assms(2) obtain n2 where "tr' = tr1 @ n2" "list_all P n2" by (rule emitsD)
    with n1 show ?thesis by simp
  qed
qed

lemma emits_call: "(\<And>a. P (Exec sql args a)) \<Longrightarrow> emits P (spi_call enc q sql args)"
  by (auto simp: emits_def spi_call_def split: spi_res.splits)

lemma emits_sub [emits_rules]:
  assumes "P BeginSub" "P ReleaseSub" "P RollbackSub" "emits P f"
  shows "emits P (run_in_subtransaction f)"
  unfolding emits_def
proof (intro allI impI)
  fix tr r tr'
  assume *: "run_in_subtransaction f tr = (r, tr')"
  obtain x tr1 where x: "f (tr @ [BeginSub]) = (x, tr1)" by fastforce
  with assms(4) obtain n1 where "tr1 = (tr @ [BeginSub]) @ n1" "list_all P n1" by (rule emitsD)
  with * x assms(1-3) show "\<exists>new. tr' = tr @ new \<and> list_all P new"
    by (auto simp: run_in_subtransaction_def split: sum.splits)
qed

lemma emits_all_ok [emits_rules]: "list_all (emits P) ms \<Longrightarrow> emits P (all_ok ms)"
proof (induction ms)
  case (Cons m ms)
  then show ?case by (auto intro!: emits_rules)
qed (simp add: emits_ok)

lemma emits_pump_jobs [emits_rules]:
  "(\<And>v act. job v = Some act \<Longrightarrow> emits P act) \<Longrightarrow> emits P (pump_jobs job vs n)"
proof (induction vs arbitrary: n)
  case (Cons v vs)
  then show ?case by (auto intro!: emits_rules split: option.splits)
qed (simp add: emits_ok)

text \<open>Everything but the statements of a set, given by their text.\<close>

fun avoids :: "string set \<Rightarrow> event \<Rightarrow> bool" where
  "avoids S (Exec sql args a) \<longleftrightarrow> sql \<notin> S"
| "avoids S _ \<longleftrightarrow> True"

lemma emits_avoids_call [emits_rules]: "sql \<notin> S \<Longrightarrow> emits (avoids S) (spi_call enc q sql args)"
  by (rule emits_call) simp

lemma emits_avoids_drop [emits_rules]:
  "assume_worker_role \<notin> S \<Longrightarrow> emits (avoids S) (drop_privileges env db)"
  unfolding drop_privileges_def get_one_bool_def
  by (auto intro!: emits_rules split: sum.split option.split bool.split)

lemma emits_commit [emits_rules]: "P CommitTransaction \<Longrightarrow> emits P (commit_transaction db)"
  by (auto simp: emits_def commit_transaction_def split: option.splits)

lemma emits_avoids_transaction [emits_rules]: "emits (avoids S) body \<Longrightarrow> emits (avoids S) (transaction db body)"
  unfolding transaction_def by (auto intro!: emits_rules)

lemma emits_avoids_spi [emits_rules]:
  assumes "sql \<notin> S"
  shows "emits (avoids S) (spi_run db sql args)" "emits (avoids S) (get_one_bool db sql args)"
    "emits (avoids S) (get_one_json db sql args)"
  unfolding spi_run_def get_one_bool_def get_one_json_def using assms by (auto intro!: emits_rules)

lemma emits_avoids_exec_ok [emits_rules]: "fst st \<notin> S \<Longrightarrow> emits (avoids S) (exec_ok db st)"
  unfolding exec_ok_def by (auto intro!: emits_rules)

lemma emits_avoids_fixed_role [emits_rules]: "emits (avoids S) m \<Longrightarrow> emits (avoids S) (with_fixed_role m)"
  unfolding with_fixed_role_def by (auto intro!: emits_rules)

lemma emits_avoids_claim [emits_rules]:
  "assume_worker_role \<notin> S \<Longrightarrow> sql \<notin> S \<Longrightarrow> emits (avoids S) (claim env db sql key limit)"
  unfolding claim_def by (auto intro!: emits_rules)

lemma emits_avoids_complete_row [emits_rules]:
  "assume_worker_role \<notin> S \<Longrightarrow> emits (avoids S) m \<Longrightarrow> emits (avoids S) (complete_row env db m what ref)"
  unfolding complete_row_def by (auto intro!: emits_rules split: sum.split)

end
