(* ===== verification/Contracts.thy ===== *)
theory Contracts
  imports Spi_Session
begin

text \<open>
  The two contracts the executors of the runtime worker share. \<open>completion\<close> is recording the result
  of a job: a statement behind the privilege drop, in a transaction of its own. \<open>agent_executor\<close>
  is running one statement of agent code: set-up statements behind the privilege drop, then the
  statement under a fixed role with the statement timer armed, all in a subtransaction. What the
  contracts give is proved once, here; the theories of the executors interpret them.
\<close>

section \<open>Transactions and subtransactions\<close>

text \<open>
  How a transaction ends whose body returned \<open>x\<close> at \<open>tr\<close>: it commits and returns \<open>x\<close>, or the body raised,
  or the commit did.
\<close>

definition closes :: "db \<Rightarrow> event list \<Rightarrow> 'a result \<Rightarrow> 'a result \<Rightarrow> event list \<Rightarrow> bool" where
  "closes db tr x r c \<longleftrightarrow>
     (if isl x then r = x \<and> c = []
      else case commit_error db tr of
             None \<Rightarrow> r = x \<and> c = [CommitTransaction]
           | Some e \<Rightarrow> r = Inl e \<and> c = [])"

lemma closes_commit: "closes db tr x r c \<Longrightarrow> c \<in> {[], [CommitTransaction]}"
  by (auto simp: closes_def split: if_splits option.splits)

lemma closes_returns: "closes db tr x (Inr v) c \<Longrightarrow> x = Inr v \<and> c = [CommitTransaction]"
  by (auto simp: closes_def split: if_splits option.splits)

lemma closes_value:
  assumes "closes db tr (Inr v) r c"
  shows "(r = Inr v \<and> c = [CommitTransaction]) \<or> (\<exists>e. r = Inl e \<and> c = [] \<and> commit_error db tr = Some e)"
  using assms by (auto simp: closes_def split: option.splits)

lemma closes_map: "closes db tr (Inr y) r c \<Longrightarrow> closes db tr (Inr (f y)) (map_sum id f r) c"
  by (auto simp: closes_def split: option.splits)

lemma transaction_trace:
  assumes "transaction db body tr = (r, tr')"
  obtains x tr1 c where "body (tr @ [StartTransaction]) = (x, tr1)" "tr' = tr1 @ c" "closes db tr1 x r c"
  using assms
  by (auto simp: transaction_def try_bind_def spi_simps io_ok_def commit_transaction_def closes_def
      split: sum.splits prod.splits option.splits)

text \<open>What a subtransaction returns, and the events that close it, when its closure ended with \<open>x\<close>.\<close>

abbreviation caught :: "'a result result \<Rightarrow> 'a result" where
  "caught x \<equiv> (case x of Inl e \<Rightarrow> Inl e | Inr y \<Rightarrow> y)"

abbreviation sub_end :: "'a result result \<Rightarrow> event list" where
  "sub_end x \<equiv> (case x of Inl _ \<Rightarrow> [RollbackSub] | Inr y \<Rightarrow> (if isl y then [] else [ReleaseSub]))"

lemma run_in_subtransaction_trace:
  assumes "run_in_subtransaction f tr = (r, tr')"
  obtains x tr1 where "f (tr @ [BeginSub]) = (x, tr1)" "r = Inr (caught x)" "tr' = tr1 @ sub_end x"
  using assms by (auto simp: run_in_subtransaction_def split: sum.splits prod.splits)

text \<open>What runs in a subtransaction inside a transaction unwinds only if the commit raises.\<close>

lemma contained_trace:
  assumes "transaction db (run_in_subtransaction f) tr = (r, tr')"
  obtains x tr1 c where "f (tr @ [StartTransaction, BeginSub]) = (x, tr1)"
    "tr' = (tr1 @ sub_end x) @ c" "closes db (tr1 @ sub_end x) (Inr (caught x)) r c"
proof -
  obtain x tr1 c where x: "run_in_subtransaction f (tr @ [StartTransaction]) = (x, tr1)" "tr' = tr1 @ c" "closes db tr1 x r c"
    using assms by (rule transaction_trace)
  obtain y tr2 where "f ((tr @ [StartTransaction]) @ [BeginSub]) = (y, tr2)" "x = Inr (caught y)" "tr1 = tr2 @ sub_end y"
    using x(1) by (rule run_in_subtransaction_trace)
  with x that show ?thesis by simp
qed

section \<open>Recording a result\<close>

text \<open>What it means that a function issues a statement only as the worker role.\<close>

definition only_as_worker :: "(env \<Rightarrow> db \<Rightarrow> unit spi) \<Rightarrow> string \<times> datum list \<Rightarrow> bool" where
  "only_as_worker submit stmt \<longleftrightarrow>
     (\<forall>env db tr r pre a post. submit env db tr = (r, tr @ pre @ Exec (fst stmt) (snd stmt) a # post)
        \<longrightarrow> pre = StartTransaction # privilege_drop env \<and> stmt \<notin> set (executed post))"

locale completion =
  fixes submit :: "env \<Rightarrow> db \<Rightarrow> unit spi"
    and what :: string and ref :: string
    and enc :: "'a \<Rightarrow> datum" and query :: "db \<Rightarrow> 'a query"
    and stmt :: "string \<times> datum list"
  assumes submit_eq:
      "submit env db = complete_row env db (spi_call enc (query db) (fst stmt) (snd stmt)) what ref"
    and stmt_fresh: "stmt \<noteq> (assume_worker_role, [])"
begin

text \<open>
  Recording is one transaction. The statement is issued only after the privilege drop landed, and at
  most once; otherwise a warning says that it was skipped.
\<close>

lemma recorded:
  assumes "submit env db tr = (r, tr')"
  shows "(\<exists>a w c. tr' = tr @ StartTransaction # privilege_drop env @ Exec (fst stmt) (snd stmt) a # w @ c
            \<and> only {} w \<and> c \<in> {[], [CommitTransaction]})
       \<or> (\<exists>w c. tr' = tr @ StartTransaction # w @ c \<and> only {(assume_worker_role, [])} w
            \<and> c \<in> {[], [CommitTransaction]}
            \<and> (r = Inr () \<longrightarrow> Warning (skipped what ref) \<in> set w))"
proof -
  let ?body = "try_bind (drop_privileges env db) (\<lambda>dropped.
         if \<not> dropped then
           emit (Warning (skipped what ref))
         else try_bind (spi_call enc (query db) (fst stmt) (snd stmt)) (\<lambda>r.
                case r of
                  Inl e \<Rightarrow> emit (Warning (''Allgres: '' @ what @ '' failed for '' @ ref @ '': '' @ e))
                | Inr _ \<Rightarrow> io_ok ()))"
  from assms submit_eq have "transaction db ?body tr = (r, tr')" by (simp add: complete_row_def)
  then obtain x tr1 c where x: "?body (tr @ [StartTransaction]) = (x, tr1)" "tr' = tr1 @ c" "closes db tr1 x r c"
    by (rule transaction_trace)
  note c = closes_commit [OF x(3)]
  obtain d tr2 where d: "drop_privileges env db (tr @ [StartTransaction]) = (d, tr2)" by fastforce
  then obtain n where n: "tr2 = (tr @ [StartTransaction]) @ n" "only {(assume_worker_role, [])} n"
    "d = Inr True \<longrightarrow> n = privilege_drop env"
    by (rule drop_privileges_trace)
  consider "d = Inr True" | "d = Inr False" | "isl d" by (cases d) auto
  then show ?thesis
  proof cases
    case 1
    obtain y tr3 where y: "spi_call enc (query db) (fst stmt) (snd stmt) tr2 = (y, tr3)" by fastforce
    then obtain a where a: "tr3 = tr2 @ [Exec (fst stmt) (snd stmt) a]" by (rule spi_call_trace)
    from x(1) d 1 y obtain w where "tr1 = tr3 @ w" "only {} w"
      by (auto simp: try_bind_def spi_simps split: sum.splits)
    with n a x(2) c 1 show ?thesis by (intro disjI1 exI [of _ a] exI [of _ w] exI [of _ c]) simp
  next
    case 2
    with x(1,2) c d n show ?thesis
      by (intro disjI2 exI [of _ "n @ [Warning (skipped what ref)]"] exI [of _ c]) (auto simp: try_bind_def spi_simps)
  next
    case 3
    then obtain e where "d = Inl e" by (cases d) auto
    with x(1) d have "x = Inl e" "tr1 = tr2" by (auto simp: try_bind_def)
    with x(2,3) n show ?thesis by (intro disjI2 exI [of _ n] exI [of _ "[]"]) (auto simp: closes_def)
  qed
qed

lemma recorded_as_worker:
  assumes "submit env db tr = (r, tr @ pre @ Exec (fst stmt) (snd stmt) a # post)"
  shows "pre = StartTransaction # privilege_drop env \<and> stmt \<notin> set (executed post)"
proof -
  have d: "stmt \<notin> set (executed (privilege_drop env))" using quiet_drop(3) [of env] stmt_fresh by blast
  have nd: "Exec (fst stmt) (snd stmt) a \<notin> set tr'" if "stmt \<notin> set (executed tr')" for tr' a
    using that executed_mem [of "fst stmt" "snd stmt" a tr'] by auto
  have o: "stmt \<notin> set (executed w)" if "only S w" "S \<subseteq> {(assume_worker_role, [])}" for S w
    using only_quiet [OF that(1)] that(2) stmt_fresh by auto
  from recorded [OF assms] show ?thesis
  proof (elim disjE exE conjE)
    fix a' w c
    assume e: "tr @ pre @ Exec (fst stmt) (snd stmt) a # post
        = tr @ StartTransaction # privilege_drop env @ Exec (fst stmt) (snd stmt) a' # w @ c"
      and w: "only {} w" and c: "c \<in> {[], [CommitTransaction]}"
    have rest: "stmt \<notin> set (executed (w @ c))" using o [OF w] c by auto
    from e have "pre @ Exec (fst stmt) (snd stmt) a # post
        = (StartTransaction # privilege_drop env) @ Exec (fst stmt) (snd stmt) a' # (w @ c)" by simp
    from split_at_statement [OF this] d rest have "pre = StartTransaction # privilege_drop env \<and> post = w @ c"
      by simp
    with rest show ?thesis by simp
  next
    fix w c
    assume e: "tr @ pre @ Exec (fst stmt) (snd stmt) a # post = tr @ StartTransaction # w @ c"
      and w: "only {(assume_worker_role, [])} w" "c \<in> {[], [CommitTransaction]}"
    then have "Exec (fst stmt) (snd stmt) a \<in> set (StartTransaction # w @ c)"
      by (metis in_set_conv_decomp same_append_eq)
    with nd [OF o [OF w(1)]] w(2) show ?thesis by auto
  qed
qed

lemma as_worker: "only_as_worker submit stmt"
  unfolding only_as_worker_def using recorded_as_worker by blast

end

section \<open>Running agent code\<close>

definition TIMER :: int where
  "TIMER = 3"

text \<open>What follows the agent's statement: \<open>r\<close> is what the closure returned.\<close>

fun ending :: "answer \<Rightarrow> json result \<Rightarrow> event list" where
  "ending (Raised _) r = [RollbackSub]"
| "ending _ r = [RestoreRole, DisableTimeout TIMER] @ (if isl r then [] else [ReleaseSub])"

locale agent_executor =
  fixes exec :: "env \<Rightarrow> db \<Rightarrow> json result spi"
    and allowed :: bool and refusal :: string
    and prep :: "(string \<times> datum list) list" and unavailable :: string
    and ms :: int
    and stmt :: "string \<times> datum list"
    and reply :: "json option result \<Rightarrow> json result"
  assumes refuse_eq: "\<not> allowed \<Longrightarrow> exec env db = io_ok (Inl refusal)"
    and exec_eq: "allowed \<Longrightarrow> exec env db =
       transaction db (run_in_subtransaction (
         try_bind (all_ok (drop_privileges env db # map (exec_ok db) prep)) (\<lambda>dropped.
           if \<not> dropped then io_ok (Inl unavailable)
           else
             try_bind (emit (EnableTimeout TIMER ms)) (\<lambda>_.
             try_bind (with_fixed_role (try_bind (get_one_json db (fst stmt) (snd stmt)) (\<lambda>r. io_ok (reply r)))) (\<lambda>r.
             try_bind (emit (DisableTimeout TIMER)) (\<lambda>_. io_ok r))))))"
    and fresh: "stmt \<notin> insert (assume_worker_role, []) (set prep)"
begin

abbreviation confinement :: "env \<Rightarrow> event list" where
  "confinement env \<equiv>
     [StartTransaction, BeginSub] @ privilege_drop env @ map ok_exec prep @ [EnableTimeout TIMER ms, FixRole]"

abbreviation issue :: "db \<Rightarrow> json result spi" where
  "issue db \<equiv>
     try_bind (emit (EnableTimeout TIMER ms)) (\<lambda>_.
     try_bind (with_fixed_role (try_bind (get_one_json db (fst stmt) (snd stmt)) (\<lambda>r. io_ok (reply r)))) (\<lambda>r.
     try_bind (emit (DisableTimeout TIMER)) (\<lambda>_. io_ok r)))"

text \<open>Issuing the statement, and what closing the subtransaction adds.\<close>

lemma issue_trace:
  assumes "issue db tr = (x, tr')"
  obtains a v where "\<forall>e. a = Raised e \<longrightarrow> v = Inl e" "caught x = v"
    "tr' @ sub_end x = tr @ [EnableTimeout TIMER ms, FixRole] @ Exec (fst stmt) (snd stmt) a # ending a v"
proof -
  let ?tr1 = "tr @ [EnableTimeout TIMER ms, FixRole]"
  obtain y tr2 where y: "get_one_json db (fst stmt) (snd stmt) ?tr1 = (y, tr2)" by fastforce
  then obtain a where a: "tr2 = ?tr1 @ [Exec (fst stmt) (snd stmt) a]" "answered a y"
    unfolding get_one_json_def by (rule spi_call_trace)
  from assms y a have "(\<exists>e. a = Raised e \<and> x = Inl e \<and> tr' = tr2)
    \<or> (\<exists>v. (\<forall>e. a \<noteq> Raised e) \<and> x = Inr v \<and> tr' = tr2 @ [RestoreRole, DisableTimeout TIMER])"
    by (auto simp: try_bind_def spi_simps with_fixed_role_def io_ok_def answered_def split: answer.splits)
  then show ?thesis
  proof (elim disjE exE conjE)
    fix e assume "a = Raised e" "x = Inl e" "tr' = tr2"
    with a(1) show ?thesis by (intro that [of a "Inl e"]) simp_all
  next
    fix v assume v: "\<forall>e. a \<noteq> Raised e" "x = Inr v" "tr' = tr2 @ [RestoreRole, DisableTimeout TIMER]"
    then have "ending a v = [RestoreRole, DisableTimeout TIMER] @ (if isl v then [] else [ReleaseSub])"
      by (cases a) simp_all
    with a(1) v show ?thesis by (intro that [of a v]) simp_all
  qed
qed

text \<open>The ways a run ends: refused, set-up failed (by an error value or by an error), or the statement ran.\<close>

lemma trace:
  assumes "exec env db tr = (r, tr')"
  obtains (refused) "\<not> allowed" "r = Inr (Inl refusal)" "tr' = tr"
  | (not_set_up) new c where "allowed" "only (insert (assume_worker_role, []) (set prep)) new"
      "tr' = (tr @ [StartTransaction, BeginSub] @ new) @ c"
      "closes db (tr @ [StartTransaction, BeginSub] @ new) (Inr (Inl unavailable)) r c"
  | (set_up_raised) new e c where "allowed" "only (insert (assume_worker_role, []) (set prep)) new"
      "tr' = (tr @ [StartTransaction, BeginSub] @ new @ [RollbackSub]) @ c"
      "closes db (tr @ [StartTransaction, BeginSub] @ new @ [RollbackSub]) (Inr (Inl e)) r c"
  | (ran) a v c where "allowed" "\<And>e. a = Raised e \<Longrightarrow> v = Inl e"
      "tr' = (tr @ confinement env @ Exec (fst stmt) (snd stmt) a # ending a v) @ c"
      "closes db (tr @ confinement env @ Exec (fst stmt) (snd stmt) a # ending a v) (Inr v) r c"
proof (cases allowed)
  case True
  let ?prep = "all_ok (drop_privileges env db # map (exec_ok db) prep)"
  let ?body = "try_bind ?prep (\<lambda>dropped. if \<not> dropped then io_ok (Inl unavailable) else issue db)"
  from assms exec_eq [OF True] have "transaction db (run_in_subtransaction ?body) tr = (r, tr')" by simp
  then obtain x tr1 c where x: "?body (tr @ [StartTransaction, BeginSub]) = (x, tr1)"
    and tr': "tr' = (tr1 @ sub_end x) @ c" and r: "closes db (tr1 @ sub_end x) (Inr (caught x)) r c"
    by (rule contained_trace)
  obtain s tr2 where s: "?prep (tr @ [StartTransaction, BeginSub]) = (s, tr2)" by fastforce
  then obtain new where new: "tr2 = (tr @ [StartTransaction, BeginSub]) @ new"
    "only (insert (assume_worker_role, []) (set prep)) new"
    "s = Inr True \<longrightarrow> new = privilege_drop env @ map ok_exec prep"
    by (rule setup_trace)
  consider (raised) e where "s = Inl e" | (no) "s = Inr False" | (yes) "s = Inr True"
    by (cases s) auto
  then show ?thesis
  proof cases
    case raised
    with x s have "x = Inl e" "tr1 = tr2" by (auto simp: try_bind_def)
    with True r tr' new show ?thesis by (intro set_up_raised [of new c e]) simp_all
  next
    case no
    with x s have "x = Inr (Inl unavailable)" "tr1 = tr2" by (auto simp: try_bind_def)
    with True r tr' new show ?thesis by (intro not_set_up [of new c]) simp_all
  next
    case yes
    from s yes have "?body (tr @ [StartTransaction, BeginSub]) = issue db tr2"
      by (simp add: try_bind_def [of ?prep] del: all_ok.simps)
    with x have "issue db tr2 = (x, tr1)" by simp
    then obtain a v where "\<forall>e. a = Raised e \<longrightarrow> v = Inl e" "caught x = v"
      "tr1 @ sub_end x = tr2 @ [EnableTimeout TIMER ms, FixRole] @ Exec (fst stmt) (snd stmt) a # ending a v"
      by (rule issue_trace)
    with True r tr' new yes show ?thesis by (intro ran [of a v c]) simp_all
  qed
qed (use assms refuse_eq that(1) in \<open>auto simp: io_ok_def\<close>)

lemma contained:
  "(\<exists>v. fst (exec env db tr) = Inr v)
   \<or> (\<exists>e. fst (exec env db tr) = Inl e \<and> commit_error db (snd (exec env db tr)) = Some e)"
proof -
  obtain r tr' where e: "exec env db tr = (r, tr')" by fastforce
  show ?thesis by (rule trace [OF e]; (drule closes_value)?; auto simp: e)
qed

lemma prep_other: "only (insert (assume_worker_role, []) (set prep)) new \<Longrightarrow> stmt \<notin> set (executed new)"
  using only_quiet fresh by blast

lemma confinement_other: "stmt \<notin> set (executed (confinement env))"
  using fresh by (auto simp: privilege_drop_def)

lemma ending_other: "executed (ending a v) = []"
  by (cases a) simp_all

lemma statement_mem: "stmt \<notin> set (executed tr) \<Longrightarrow> Exec (fst stmt) (snd stmt) a \<notin> set tr"
  using executed_mem [of "fst stmt" "snd stmt" a tr] by auto

text \<open>The agent's statement is issued at most once, right after the whole confinement.\<close>

lemma confined:
  assumes "exec env db tr = (r, tr @ pre @ Exec (fst stmt) (snd stmt) a # post)"
  shows "allowed \<and> pre = confinement env \<and> stmt \<notin> set (executed post)"
proof -
  have other: False if "tr @ pre @ Exec (fst stmt) (snd stmt) a # post = (tr @ [StartTransaction, BeginSub] @ new @ rb) @ c"
    "only (insert (assume_worker_role, []) (set prep)) new" "rb \<in> {[], [RollbackSub]}" "c \<in> {[], [CommitTransaction]}" for new rb c
  proof -
    from that(1) have "pre @ Exec (fst stmt) (snd stmt) a # post = [StartTransaction, BeginSub] @ new @ rb @ c" by simp
    moreover have "Exec (fst stmt) (snd stmt) a \<in> set (pre @ Exec (fst stmt) (snd stmt) a # post)" by simp
    ultimately have "Exec (fst stmt) (snd stmt) a \<in> set ([StartTransaction, BeginSub] @ new @ rb @ c)" by simp
    with statement_mem [OF prep_other [OF that(2)], of a] that(3,4) show False by auto
  qed
  from assms show ?thesis
  proof (rule trace)
    fix new c
    assume "tr @ pre @ Exec (fst stmt) (snd stmt) a # post = (tr @ [StartTransaction, BeginSub] @ new) @ c"
      and "only (insert (assume_worker_role, []) (set prep)) new"
      and "closes db (tr @ [StartTransaction, BeginSub] @ new) (Inr (Inl unavailable)) r c"
    with other [of new "[]" c] closes_commit show ?thesis by fastforce
  next
    fix new e c
    assume "tr @ pre @ Exec (fst stmt) (snd stmt) a # post = (tr @ [StartTransaction, BeginSub] @ new @ [RollbackSub]) @ c"
      and "only (insert (assume_worker_role, []) (set prep)) new"
      and "closes db (tr @ [StartTransaction, BeginSub] @ new @ [RollbackSub]) (Inr (Inl e)) r c"
    with other [of new "[RollbackSub]" c] closes_commit show ?thesis by fastforce
  next
    fix b v c
    assume al: allowed and cl: "closes db (tr @ confinement env @ Exec (fst stmt) (snd stmt) b # ending b v) (Inr v) r c"
      and "tr @ pre @ Exec (fst stmt) (snd stmt) a # post
        = (tr @ confinement env @ Exec (fst stmt) (snd stmt) b # ending b v) @ c"
    then have "pre @ Exec (fst stmt) (snd stmt) a # post = confinement env @ Exec (fst stmt) (snd stmt) b # (ending b v @ c)"
      by simp
    moreover have x: "executed (ending b v @ c) = []" using closes_commit [OF cl] by (auto simp: ending_other)
    ultimately have "pre = confinement env \<and> post = ending b v @ c"
      using split_at_statement [of pre "fst stmt" "snd stmt" a post "confinement env" b "ending b v @ c"]
        confinement_other [of env] by simp
    with al x show ?thesis by simp
  qed simp
qed

text \<open>
  The statement timer after a run: it is left running exactly when the agent's statement raised an error
  other than by running into the timer itself.
\<close>

lemma timer_left_running:
  assumes "exec env db tr = (r, tr @ new)"
  shows "timer_armed fired False new \<longleftrightarrow>
    (\<exists>e. Exec (fst stmt) (snd stmt) (Raised e) \<in> set new \<and> \<not> fired (Exec (fst stmt) (snd stmt) (Raised e)))"
proof -
  have other: ?thesis if "tr @ new = (tr @ [StartTransaction, BeginSub] @ p @ rb) @ c"
    "only (insert (assume_worker_role, []) (set prep)) p" "rb \<in> {[], [RollbackSub]}" "c \<in> {[], [CommitTransaction]}" for p rb c
    using that only_quiet [OF that(2), of fired] statement_mem [OF prep_other [OF that(2)]] by auto
  from assms show ?thesis
  proof (rule trace)
    fix p c
    assume "tr @ new = (tr @ [StartTransaction, BeginSub] @ p) @ c"
      and "only (insert (assume_worker_role, []) (set prep)) p"
      and "closes db (tr @ [StartTransaction, BeginSub] @ p) (Inr (Inl unavailable)) r c"
    with other [of p "[]" c] closes_commit show ?thesis by fastforce
  next
    fix p e c
    assume "tr @ new = (tr @ [StartTransaction, BeginSub] @ p @ [RollbackSub]) @ c"
      and "only (insert (assume_worker_role, []) (set prep)) p"
      and "closes db (tr @ [StartTransaction, BeginSub] @ p @ [RollbackSub]) (Inr (Inl e)) r c"
    with other [of p "[RollbackSub]" c] closes_commit show ?thesis by fastforce
  next
    fix a v c
    assume cl: "closes db (tr @ confinement env @ Exec (fst stmt) (snd stmt) a # ending a v) (Inr v) r c"
      and "tr @ new = (tr @ confinement env @ Exec (fst stmt) (snd stmt) a # ending a v) @ c"
    then have n: "new = confinement env @ Exec (fst stmt) (snd stmt) a # ending a v @ c" by simp
    have c: "c = [] \<or> c = [CommitTransaction]" using closes_commit [OF cl] by blast
    then have m: "Exec (fst stmt) (snd stmt) (Raised e) \<in> set new \<longleftrightarrow> a = Raised e" for e
      using statement_mem [OF confinement_other, of "Raised e" env] by (cases a) (auto simp: n)
    have "timer_armed fired False new \<longleftrightarrow> (\<exists>e. a = Raised e \<and> \<not> fired (Exec (fst stmt) (snd stmt) (Raised e)))"
      using c by (cases a; elim disjE; simp add: n)
    then show ?thesis by (simp only: m)
  qed simp
qed

text \<open>
  A run that returns an error without rolling its subtransaction back leaves it open; every other run
  that returns closes it.
\<close>

lemma depth_after:
  assumes "exec env db tr = (Inr v, tr @ new)"
  shows "sub_depth new = (if isl v \<and> new \<noteq> [] \<and> RollbackSub \<notin> set new then 1 else 0)"
  using assms
proof (rule trace)
  fix p c
  assume "tr @ new = (tr @ [StartTransaction, BeginSub] @ p) @ c" and o: "only (insert (assume_worker_role, []) (set prep)) p"
    and "closes db (tr @ [StartTransaction, BeginSub] @ p) (Inr (Inl unavailable)) (Inr v) c"
  moreover have "RollbackSub \<notin> set p" using o by (auto simp: list_all_iff)
  ultimately show ?thesis using only_quiet [OF o] by (auto dest!: closes_returns)
next
  fix p e c
  assume "tr @ new = (tr @ [StartTransaction, BeginSub] @ p @ [RollbackSub]) @ c"
    and o: "only (insert (assume_worker_role, []) (set prep)) p"
    and "closes db (tr @ [StartTransaction, BeginSub] @ p @ [RollbackSub]) (Inr (Inl e)) (Inr v) c"
  with only_quiet [OF o] show ?thesis by (auto dest!: closes_returns)
next
  fix a w c
  assume t: "tr @ new = (tr @ confinement env @ Exec (fst stmt) (snd stmt) a # ending a w) @ c"
    and "closes db (tr @ confinement env @ Exec (fst stmt) (snd stmt) a # ending a w) (Inr w) (Inr v) c"
    and e: "\<And>e. a = Raised e \<Longrightarrow> w = Inl e"
  then have "w = v" "new = confinement env @ Exec (fst stmt) (snd stmt) a # ending a v @ [CommitTransaction]"
    by (auto dest!: closes_returns)
  moreover have "RollbackSub \<notin> set (confinement env)" by (auto simp: privilege_drop_def)
  ultimately show ?thesis by (cases a; cases v) auto
qed simp_all

text \<open>
  What an open subtransaction does to the worker: nothing that the run did is committed, and neither is
  anything the worker does later, however well nested.
\<close>

lemma left_open:
  assumes "exec env db tr = (Inr (Inl e), tr @ new)" "new \<noteq> []" "RollbackSub \<notin> set new" and "well_nested later"
  shows "survivors [] (new @ later) = []"
proof -
  have stuck: "survivors [] (new @ later) = []" if "new = [StartTransaction, BeginSub] @ p @ [CommitTransaction]" "list_all flat p" for p
  proof -
    from survivors_flat [OF that(2), of "[]" "[[]]" "CommitTransaction # later"] obtain y where
      "survivors [[], []] (p @ CommitTransaction # later) = survivors [y, []] later" by auto
    with that(1) survivors_open [of "[y, []]" later] assms(4) show ?thesis by (simp add: well_nested_def)
  qed
  from assms(1) show ?thesis
  proof (rule trace)
    fix p c
    assume "tr @ new = (tr @ [StartTransaction, BeginSub] @ p) @ c" and o: "only (insert (assume_worker_role, []) (set prep)) p"
      and "closes db (tr @ [StartTransaction, BeginSub] @ p) (Inr (Inl unavailable)) (Inr (Inl e)) c"
    then have "new = [StartTransaction, BeginSub] @ p @ [CommitTransaction]" by (auto dest!: closes_returns)
    moreover have "list_all flat p" using o by (rule list.pred_mono_strong) (rule plain_flat)
    ultimately show ?thesis by (rule stuck)
  next
    fix p e' c
    assume "tr @ new = (tr @ [StartTransaction, BeginSub] @ p @ [RollbackSub]) @ c"
    with assms(3) show ?thesis by auto
  next
    fix a v c
    let ?p = "privilege_drop env @ map ok_exec prep @ [EnableTimeout TIMER ms, FixRole]
      @ Exec (fst stmt) (snd stmt) a # [RestoreRole, DisableTimeout TIMER]"
    assume t: "tr @ new = (tr @ confinement env @ Exec (fst stmt) (snd stmt) a # ending a v) @ c"
      and "closes db (tr @ confinement env @ Exec (fst stmt) (snd stmt) a # ending a v) (Inr v) (Inr (Inl e)) c"
    then have "v = Inl e" "c = [CommitTransaction]" by (auto dest!: closes_returns)
    with t assms(3) have "new = [StartTransaction, BeginSub] @ ?p @ [CommitTransaction]" by (cases a) auto
    moreover have "list_all flat ?p" by (auto simp: privilege_drop_def list_all_iff)
    ultimately show ?thesis by (rule stuck)
  qed (use assms(2) in simp)
qed

end

end
