(* ===== verification/Sandbox.thy ===== *)
theory Sandbox
  imports Contracts
begin

text \<open>
  Sandboxed SQL (\<open>sandbox.rs\<close>): claim validated agent statements, run each as the agent's role in a
  read-only, time-limited subtransaction, and record what came of it. \<open>run_in_subtransaction\<close> is in
  \<open>Spi_Session\<close>.
\<close>

section \<open>Claiming\<close>

definition claim_sql_jobs :: "env \<Rightarrow> db \<Rightarrow> int \<Rightarrow> json spi" where
  "claim_sql_jobs env db limit = claim env db ''SELECT allgres_public.fn_claim_sql($1)'' ''calls'' limit"

section \<open>Running one statement\<close>

definition valid_pg_role :: "string \<Rightarrow> bool" where
  "valid_pg_role s \<longleftrightarrow>
     (case strip_prefix ''allgres_agent_'' s of
        Some hex \<Rightarrow> length hex = 32 \<and> list_all is_ascii_hexdigit hex
      | None \<Rightarrow> False)"

definition PG_STATEMENT_TIMEOUT_ID :: int where
  "PG_STATEMENT_TIMEOUT_ID = 3"

text \<open>\<open>pg_role.filter(valid_pg_role).unwrap_or("sandbox")\<close>.\<close>

definition effective_role :: "string option \<Rightarrow> string" where
  "effective_role pg_role =
     (case pg_role of Some r \<Rightarrow> if valid_pg_role r then r else ''sandbox'' | None \<Rightarrow> ''sandbox'')"

definition fmt_i32 :: "int \<Rightarrow> string" where
  "fmt_i32 n = (if n < 0 then CHR ''-'' # fmt_dec (nat (- n)) else fmt_dec (nat n))"

definition set_role :: "string \<Rightarrow> string \<times> datum list" where
  "set_role role = (''SET LOCAL ROLE '' @ role, [])"

definition set_search_path :: "string \<times> datum list" where
  "set_search_path = (''SET LOCAL search_path = pg_temp'', [])"

definition set_read_only :: "string \<times> datum list" where
  "set_read_only = (''SET LOCAL transaction_read_only = on'', [])"

definition set_timeout :: "int \<Rightarrow> string \<times> datum list" where
  "set_timeout ms = (''SET LOCAL statement_timeout = '' @ [CHR 0x27] @ fmt_i32 ms @ ''ms'' @ [CHR 0x27], [])"

definition set_agent :: "string \<Rightarrow> string \<times> datum list" where
  "set_agent agent_id =
     (''SELECT set_config('' @ [CHR 0x27] @ ''allgres.agent_id'' @ [CHR 0x27] @ '', $1, true)'', [DText agent_id])"

definition run_sandboxed_sql :: "string \<Rightarrow> string \<Rightarrow> string option \<Rightarrow> env \<Rightarrow> db \<Rightarrow> json result spi" where
  "run_sandboxed_sql agent_id sql pg_role env db =
     (let role = effective_role pg_role in
      transaction db (run_in_subtransaction (
        try_bind (all_ok
          [drop_privileges env db,
           exec_ok db (set_role role),
           exec_ok db set_search_path,
           exec_ok db set_read_only,
           exec_ok db (set_timeout SQL_STATEMENT_TIMEOUT_MS),
           exec_ok db (set_agent agent_id)]) (\<lambda>dropped.
        if \<not> dropped then io_ok (Inl ''sandbox role unavailable'')
        else
          try_bind (emit (EnableTimeout PG_STATEMENT_TIMEOUT_ID SQL_STATEMENT_TIMEOUT_MS)) (\<lambda>_.
          try_bind (with_fixed_role (
            try_bind (get_one_json db ''SELECT allgres_public.fn_run_sandboxed_sql($1)'' [DText sql]) (\<lambda>r.
            io_ok (case r of
                     Inr (Some v) \<Rightarrow> Inr v
                   | Inr None \<Rightarrow> Inl ''sandboxed execution returned nothing''
                   | Inl e \<Rightarrow> Inl e)))) (\<lambda>r.
          try_bind (emit (DisableTimeout PG_STATEMENT_TIMEOUT_ID)) (\<lambda>_. io_ok r)))))))"

section \<open>Recording the result\<close>

text \<open>\<open>n as i32\<close>.\<close>

definition as_i32 :: "int \<Rightarrow> int" where
  "as_i32 n = sint (word_of_int n :: 32 word)"

record sql_outcome =
  out_ok :: bool
  out_rows :: "json option"
  out_row_count :: "int option"
  out_truncated :: bool
  out_error :: "string option"

definition sql_failed :: "string \<Rightarrow> sql_outcome" where
  "sql_failed e = \<lparr>out_ok = False, out_rows = None, out_row_count = None, out_truncated = False, out_error = Some e\<rparr>"

definition sql_result_row :: "json result \<Rightarrow> sql_outcome" where
  "sql_result_row outcome =
     (case outcome of
        Inr v \<Rightarrow>
          if get_bool ''ok'' v = Some True then
            \<lparr>out_ok = True, out_rows = json_get ''rows'' v,
             out_row_count = map_option as_i32 (Option.bind (json_get ''row_count'' v) as_i64),
             out_truncated = (case get_bool ''truncated'' v of Some b \<Rightarrow> b | None \<Rightarrow> False),
             out_error = None\<rparr>
          else sql_failed (case get_str ''error'' v of Some e \<Rightarrow> e | None \<Rightarrow> ''sql execution failed'')
      | Inl e \<Rightarrow> sql_failed e)"

definition complete_sql :: "string \<Rightarrow> json result \<Rightarrow> string \<times> datum list" where
  "complete_sql call_id outcome =
     (let row = sql_result_row outcome in
      (''SELECT allgres_public.fn_complete_sql($1::uuid, $2, $3, $4, $5, $6)'',
       [DText call_id, DBool (out_ok row), opt_datum DJson (out_rows row), opt_datum DInt (out_row_count row),
        DBool (out_truncated row), opt_datum DText (out_error row)]))"

definition submit_sql_result :: "string \<Rightarrow> json result \<Rightarrow> env \<Rightarrow> db \<Rightarrow> unit spi" where
  "submit_sql_result call_id outcome env db =
     complete_row env db
       (get_one_json db (fst (complete_sql call_id outcome)) (snd (complete_sql call_id outcome)))
       ''fn_complete_sql'' (''call '' @ call_id)"

section \<open>The pump\<close>

definition sql_job :: "env \<Rightarrow> db \<Rightarrow> json \<Rightarrow> unit spi option" where
  "sql_job env db call =
     (case (get_str ''call_id'' call, get_str ''agent_id'' call, get_str ''sql'' call) of
        (Some call_id, Some agent_id, Some sql) \<Rightarrow>
          if \<not> valid_uuid call_id \<or> \<not> valid_uuid agent_id then None
          else Some (
            try_bind (run_sandboxed_sql agent_id sql (get_str ''pg_role'' call) env db) (\<lambda>outcome.
            submit_sql_result call_id outcome env db))
      | _ \<Rightarrow> None)"

definition pump_sql :: "env \<Rightarrow> db \<Rightarrow> nat spi" where
  "pump_sql env db =
     try_bind (claim_sql_jobs env db SQL_CLAIM_LIMIT) (\<lambda>claimed.
       case get_array ''calls'' claimed of
         None \<Rightarrow> io_ok 0
       | Some calls \<Rightarrow> pump_jobs (sql_job env db) calls 0)"

section \<open>Facts\<close>

lemma valid_pg_role_iff:
  "valid_pg_role s \<longleftrightarrow> (\<exists>hex. s = ''allgres_agent_'' @ hex \<and> hex_group 32 hex)"
  by (auto simp: valid_pg_role_def strip_prefix_def hex_group_def prefix_def split: option.splits)

lemma effective_role_cases:
  "effective_role pg_role = ''sandbox'' \<or> (\<exists>hex. effective_role pg_role = ''allgres_agent_'' @ hex \<and> hex_group 32 hex)"
  by (auto simp: effective_role_def valid_pg_role_iff split: option.splits)

lemmas prep_defs = set_role_def set_search_path_def set_read_only_def set_timeout_def set_agent_def assume_worker_role_def

interpretation sandboxed: agent_executor "run_sandboxed_sql agent_id sql pg_role" True refusal
    "[set_role (effective_role pg_role), set_search_path, set_read_only,
      set_timeout SQL_STATEMENT_TIMEOUT_MS, set_agent agent_id]"
    "''sandbox role unavailable''" SQL_STATEMENT_TIMEOUT_MS
    "(''SELECT allgres_public.fn_run_sandboxed_sql($1)'', [DText sql])"
    "\<lambda>r. case r of Inr (Some v) \<Rightarrow> Inr v | Inr None \<Rightarrow> Inl ''sandboxed execution returned nothing'' | Inl e \<Rightarrow> Inl e"
  for agent_id sql pg_role refusal
proof (unfold_locales, goal_cases)
  case (2 env db)
  show ?case
    by (simp only: run_sandboxed_sql_def Let_def PG_STATEMENT_TIMEOUT_ID_def TIMER_def list.map fst_conv snd_conv)
qed (simp_all add: prep_defs)

interpretation sql_completion: completion "submit_sql_result call_id outcome" "''fn_complete_sql''" "''call '' @ call_id"
    "opt_datum DJson" one_json "complete_sql call_id outcome"
  for call_id outcome
  by unfold_locales
    (auto simp: submit_sql_result_def get_one_json_def complete_sql_def Let_def assume_worker_role_def)

section \<open>Properties\<close>

text \<open>
  C3. Whenever \<open>run_sandboxed_sql\<close> issues the agent's statement, the session is confined: in a fresh
  transaction and subtransaction, privileges were dropped (unless \<open>ALLGRES_DROP_PRIVILEGES=0\<close>), and each of these succeeded before it, in
  this order: the role was set to \<open>sandbox\<close> or to a name made of the fixed prefix and 32 hexadecimal
  digits, the search path was emptied, the transaction was made read-only, the statement time-out
  and the agent identity were set; then the timer was armed and role changes were forbidden. The
  statement is issued at most once. This holds whatever PostgreSQL answers.
\<close>

theorem sandboxed_sql_confined:
  assumes "run_sandboxed_sql agent_id sql pg_role env db tr
      = (r, tr @ pre @ Exec ''SELECT allgres_public.fn_run_sandboxed_sql($1)'' [DText sql] a # post)"
  shows "\<exists>role. (role = ''sandbox'' \<or> (\<exists>hex. role = ''allgres_agent_'' @ hex \<and> hex_group 32 hex))
    \<and> pre = [StartTransaction, BeginSub] @ privilege_drop env
        @ [Exec (''SET LOCAL ROLE '' @ role) [] (Answer DNull),
           Exec ''SET LOCAL search_path = pg_temp'' [] (Answer DNull),
           Exec ''SET LOCAL transaction_read_only = on'' [] (Answer DNull),
           ok_exec (set_timeout 5000), ok_exec (set_agent agent_id),
           EnableTimeout 3 5000, FixRole]
    \<and> (''SELECT allgres_public.fn_run_sandboxed_sql($1)'', [DText sql]) \<notin> set (executed post)"
proof -
  from assms sandboxed.confined [of agent_id sql pg_role env db tr r pre a post]
  have "pre = [StartTransaction, BeginSub] @ privilege_drop env
      @ map ok_exec [set_role (effective_role pg_role), set_search_path, set_read_only,
          set_timeout SQL_STATEMENT_TIMEOUT_MS, set_agent agent_id]
      @ [EnableTimeout TIMER SQL_STATEMENT_TIMEOUT_MS, FixRole]"
    and once: "(''SELECT allgres_public.fn_run_sandboxed_sql($1)'', [DText sql]) \<notin> set (executed post)"
    by simp_all
  then have "pre = [StartTransaction, BeginSub] @ privilege_drop env
        @ [Exec (''SET LOCAL ROLE '' @ effective_role pg_role) [] (Answer DNull),
           Exec ''SET LOCAL search_path = pg_temp'' [] (Answer DNull),
           Exec ''SET LOCAL transaction_read_only = on'' [] (Answer DNull),
           ok_exec (set_timeout 5000), ok_exec (set_agent agent_id),
           EnableTimeout 3 5000, FixRole]"
    by (simp add: set_role_def set_search_path_def set_read_only_def TIMER_def SQL_STATEMENT_TIMEOUT_MS_def)
  with once effective_role_cases [of pg_role] show ?thesis by blast
qed

definition obliging_db :: db where
  "obliging_db = \<lparr>run_stmt = (\<lambda>_ _ _. SpiOk ()), one_bool = (\<lambda>_ _ _. SpiOk (Some True)), one_json = (\<lambda>_ _ _. SpiOk (Some JNull)),
     commit_error = (\<lambda>_. None)\<rparr>"

text \<open>A run against a database that grants everything.\<close>

lemma obliging_run:
  "run_sandboxed_sql agent_id sql None (\<lambda>_. None) obliging_db [] =
     (Inr (Inr JNull),
      [] @ ([StartTransaction, BeginSub, Exec assume_worker_role [] (Answer (DBool True)),
        ok_exec (set_role ''sandbox''), ok_exec set_search_path, ok_exec set_read_only, ok_exec (set_timeout 5000),
        ok_exec (set_agent agent_id), EnableTimeout 3 5000, FixRole])
      @ Exec ''SELECT allgres_public.fn_run_sandboxed_sql($1)'' [DText sql] (Answer (DJson JNull))
      # [RestoreRole, DisableTimeout 3, ReleaseSub, CommitTransaction])"
  by (simp add: run_sandboxed_sql_def Let_def effective_role_def transaction_def run_in_subtransaction_def try_bind_def
      spi_simps drop_privileges_def get_one_bool_def get_one_json_def spi_call_def spi_run_def exec_ok_def io_ok_def
      with_fixed_role_def obliging_db_def PG_STATEMENT_TIMEOUT_ID_def SQL_STATEMENT_TIMEOUT_MS_def)

theorem sandboxed_sql_confined_witness:
  "\<exists>pre a post r. run_sandboxed_sql ''a'' ''SELECT 1'' None (\<lambda>_. None) obliging_db [] =
      (r, [] @ pre @ Exec ''SELECT allgres_public.fn_run_sandboxed_sql($1)'' [DText ''SELECT 1''] a # post)
    \<and> Exec ''SET LOCAL transaction_read_only = on'' [] (Answer DNull) \<in> set pre \<and> EnableTimeout 3 5000 \<in> set pre"
  using sandboxed_sql_confined [OF obliging_run [of "''a''" "''SELECT 1''"]] obliging_run [of "''a''" "''SELECT 1''"]
  by fastforce

end
