(* ===== verification/Function_Exec.thy ===== *)
theory Function_Exec
  imports Sandbox
begin

text \<open>
  PL/pgSQL functions of agents (\<open>function_exec.rs\<close>): building the PostgreSQL object with the execution
  guard in its body, calling it as the agent's role, and recording both. \<open>with_fixed_role\<close> is in
  \<open>Spi_Session\<close>. The wall clock is an argument: \<open>now\<close> reads it from the history, \<open>None\<close> when it is before
  the epoch.
\<close>

section \<open>Names\<close>

definition valid_sql_ident :: "string \<Rightarrow> string \<Rightarrow> bool" where
  "valid_sql_ident s pre \<longleftrightarrow>
     (case strip_prefix pre s of
        Some hex \<Rightarrow> length hex = 32 \<and> list_all is_ascii_hexdigit hex
      | None \<Rightarrow> False)"

section \<open>Building\<close>

definition claim_function_build_jobs :: "env \<Rightarrow> db \<Rightarrow> int \<Rightarrow> json spi" where
  "claim_function_build_jobs env db limit =
     claim env db ''SELECT allgres_public.fn_claim_function_builds($1)'' ''builds'' limit"

definition delimiter :: "string \<Rightarrow> string" where
  "delimiter tag = CHR ''$'' # tag @ ''$''"

text \<open>\<open>while body.contains(..) { tag.push('x') }\<close>.\<close>

function free_tag :: "string \<Rightarrow> string \<Rightarrow> string" where
  "free_tag body tag = (if sublist (delimiter tag) body then free_tag body (tag @ ''x'') else tag)"
  by pat_completeness auto
termination
proof (relation "measure (\<lambda>(body, tag). Suc (length body) - length tag)")
  fix body tag
  assume "sublist (delimiter tag) body"
  then have "length (delimiter tag) \<le> length body" by (rule sublist_length_le)
  then show "((body, tag @ ''x''), body, tag) \<in> measure (\<lambda>(body, tag). Suc (length body) - length tag)"
    by (simp add: delimiter_def)
qed simp

declare free_tag.simps [simp del]

definition dollar_quote :: "nat option \<Rightarrow> string \<Rightarrow> string \<times> string" where
  "dollar_quote now body =
     (let nanos = (case now of Some d \<Rightarrow> d | None \<Rightarrow> 0);
          tag = free_tag body (''body_'' @ fmt_x nanos)
      in (tag, delimiter tag @ [nl] @ body @ [nl] @ delimiter tag))"

definition object_declaration :: "bool \<Rightarrow> string \<Rightarrow> string" where
  "object_declaration procedure sql_ident =
     (if procedure then ''PROCEDURE allgres_functions.'' @ sql_ident @ ''(p_args jsonb, INOUT p_result jsonb)''
      else ''FUNCTION allgres_functions.'' @ sql_ident @ ''(p_args jsonb) RETURNS jsonb'')"

definition ddl :: "bool \<Rightarrow> string \<Rightarrow> nat option \<Rightarrow> string \<Rightarrow> string" where
  "ddl procedure sql_ident now source =
     ''CREATE OR REPLACE '' @ object_declaration procedure sql_ident @ '' LANGUAGE plpgsql SECURITY INVOKER AS ''
       @ snd (dollar_quote now source) @ '';''"

definition wrap :: "string \<Rightarrow> string \<Rightarrow> string \<Rightarrow> string" where
  "wrap sql_ident body terminator =
     ''BEGIN'' @ [nl] @ ''PERFORM allgres_private.assert_local_execution('' @ [CHR 0x27] @ sql_ident @ [CHR 0x27] @ '');'' @ [nl]
       @ body @ [nl] @ terminator @ [nl] @ ''END;''"

text \<open>\<open>Spi::run(..).map_err(..)?\<close> in a closure that returns a \<open>Result\<close>.\<close>

definition run_or_return :: "unit result spi \<Rightarrow> 'a result spi \<Rightarrow> 'a result spi" where
  "run_or_return m k = try_bind m (\<lambda>r. case r of Inl e \<Rightarrow> io_ok (Inl e) | Inr _ \<Rightarrow> k)"

text \<open>\<open>Spi::run(&ddl(source))\<close>: the tag of the quotes depends on the clock.\<close>

definition run_ddl :: "db \<Rightarrow> (event list \<Rightarrow> nat option) \<Rightarrow> bool \<Rightarrow> string \<Rightarrow> string \<Rightarrow> unit result spi" where
  "run_ddl db now procedure sql_ident source tr =
     spi_run db (ddl procedure sql_ident (now tr) source) [] tr"

definition run_guarded_build ::
    "string \<Rightarrow> string \<Rightarrow> bool \<Rightarrow> (event list \<Rightarrow> nat option) \<Rightarrow> env \<Rightarrow> db \<Rightarrow> unit result spi" where
  "run_guarded_build sql_ident body procedure now env db =
     (if \<not> valid_sql_ident sql_ident (if procedure then ''proc_'' else ''fn_'') then io_ok (Inl ''invalid sql_ident'')
      else
        try_bind (transaction db (run_in_subtransaction (
          try_bind (all_ok [drop_privileges env db, exec_ok db (''SET LOCAL ROLE allgres_function_admin'', [])]) (\<lambda>ready.
          if \<not> ready then io_ok (Inl ''allgres_function_admin role unavailable'')
          else
            run_or_return (spi_run db ''SET LOCAL check_function_bodies = on'' []) (
            run_or_return (run_ddl db now procedure sql_ident body) (
            try_bind (run_in_subtransaction (
                run_or_return (run_ddl db now procedure sql_ident (wrap sql_ident body '''')) (io_ok (Inr JNull)))) (\<lambda>r.
            if \<not> isl r then io_ok (Inr JNull)
            else run_or_return (run_ddl db now procedure sql_ident (wrap sql_ident body '';'')) (io_ok (Inr JNull))))))))) (\<lambda>r.
        io_ok (map_sum id (\<lambda>_. ()) r)))"

definition run_function_build :: "string \<Rightarrow> string \<Rightarrow> (event list \<Rightarrow> nat option) \<Rightarrow> env \<Rightarrow> db \<Rightarrow> unit result spi" where
  "run_function_build sql_ident body = run_guarded_build sql_ident body False"

text \<open>\<open>(ok, error)\<close> of a build.\<close>

definition build_row :: "string \<Rightarrow> unit result \<Rightarrow> datum list" where
  "build_row row_id outcome =
     (case outcome of Inr _ \<Rightarrow> [DText row_id, DBool True, DNull] | Inl e \<Rightarrow> [DText row_id, DBool False, DText e])"

definition submit_function_build_result :: "string \<Rightarrow> unit result \<Rightarrow> env \<Rightarrow> db \<Rightarrow> unit spi" where
  "submit_function_build_result function_id outcome env db =
     complete_row env db
       (spi_run db ''SELECT allgres_public.fn_complete_function_build($1::uuid, $2, $3)'' (build_row function_id outcome))
       ''fn_complete_function_build'' function_id"

definition function_build_job :: "(event list \<Rightarrow> nat option) \<Rightarrow> env \<Rightarrow> db \<Rightarrow> json \<Rightarrow> unit spi option" where
  "function_build_job now env db b =
     (case (get_str ''function_id'' b, get_str ''sql_ident'' b, get_str ''body'' b) of
        (Some function_id, Some sql_ident, Some body) \<Rightarrow>
          if \<not> valid_uuid function_id then None
          else Some (
            try_bind (run_function_build sql_ident body now env db) (\<lambda>outcome.
            submit_function_build_result function_id outcome env db))
      | _ \<Rightarrow> None)"

definition pump_function_builds :: "(event list \<Rightarrow> nat option) \<Rightarrow> env \<Rightarrow> db \<Rightarrow> nat spi" where
  "pump_function_builds now env db =
     try_bind (claim_function_build_jobs env db SQL_CLAIM_LIMIT) (\<lambda>claimed.
       case get_array ''builds'' claimed of
         None \<Rightarrow> io_ok 0
       | Some builds \<Rightarrow> pump_jobs (function_build_job now env db) builds 0)"

section \<open>Calling\<close>

definition claim_function_call_jobs :: "env \<Rightarrow> db \<Rightarrow> int \<Rightarrow> json spi" where
  "claim_function_call_jobs env db limit =
     claim env db ''SELECT allgres_public.fn_claim_function_calls($1)'' ''calls'' limit"

definition begin_local_execution :: "string \<Rightarrow> string \<Rightarrow> string \<times> datum list" where
  "begin_local_execution queue call_id =
     (''SELECT allgres_private.begin_local_execution('' @ [CHR 0x27] @ queue @ [CHR 0x27] @ '', $1::uuid)'', [DText call_id])"

definition run_function_call :: "string \<Rightarrow> string \<Rightarrow> json \<Rightarrow> string option \<Rightarrow> env \<Rightarrow> db \<Rightarrow> json result spi" where
  "run_function_call call_id sql_ident args pg_role env db =
     (if \<not> valid_sql_ident sql_ident ''fn_'' then io_ok (Inl ''invalid sql_ident'')
      else
        let role = effective_role pg_role; sql = ''SELECT allgres_functions.'' @ sql_ident @ ''($1::jsonb)'' in
        transaction db (run_in_subtransaction (
          try_bind (all_ok
            [drop_privileges env db,
             exec_ok db (begin_local_execution ''function_calls'' call_id),
             exec_ok db (set_role role),
             exec_ok db set_search_path,
             exec_ok db (set_timeout SQL_STATEMENT_TIMEOUT_MS)]) (\<lambda>dropped.
          if \<not> dropped then io_ok (Inl ''function role unavailable'')
          else
            try_bind (emit (EnableTimeout PG_STATEMENT_TIMEOUT_ID SQL_STATEMENT_TIMEOUT_MS)) (\<lambda>_.
            try_bind (with_fixed_role (
              try_bind (get_one_json db sql [DJson args]) (\<lambda>r.
              io_ok (case r of Inr (Some v) \<Rightarrow> Inr v | Inr None \<Rightarrow> Inr JNull | Inl e \<Rightarrow> Inl e)))) (\<lambda>r.
            try_bind (emit (DisableTimeout PG_STATEMENT_TIMEOUT_ID)) (\<lambda>_. io_ok r)))))))"

text \<open>\<open>(ok, result, error)\<close> of a call.\<close>

definition call_row :: "string \<Rightarrow> json result \<Rightarrow> datum list" where
  "call_row call_id outcome =
     (case outcome of
        Inr v \<Rightarrow> [DText call_id, DBool True, DJson v, DNull]
      | Inl e \<Rightarrow> [DText call_id, DBool False, DNull, DText e])"

definition submit_function_call_result :: "string \<Rightarrow> json result \<Rightarrow> env \<Rightarrow> db \<Rightarrow> unit spi" where
  "submit_function_call_result call_id outcome env db =
     complete_row env db
       (get_one_json db ''SELECT allgres_public.fn_complete_function_call($1::uuid, $2, $3, $4)'' (call_row call_id outcome))
       ''fn_complete_function_call'' (''call '' @ call_id)"

definition function_call_job :: "env \<Rightarrow> db \<Rightarrow> json \<Rightarrow> unit spi option" where
  "function_call_job env db call =
     (case (get_str ''call_id'' call, get_str ''sql_ident'' call) of
        (Some call_id, Some sql_ident) \<Rightarrow>
          if \<not> valid_uuid call_id then None
          else
            let args = (case json_get ''args'' call of Some a \<Rightarrow> a | None \<Rightarrow> jobj []) in
            Some (
              try_bind (run_function_call call_id sql_ident args (get_str ''pg_role'' call) env db) (\<lambda>outcome.
              submit_function_call_result call_id outcome env db))
      | _ \<Rightarrow> None)"

definition pump_function_calls :: "env \<Rightarrow> db \<Rightarrow> nat spi" where
  "pump_function_calls env db =
     try_bind (claim_function_call_jobs env db SQL_CLAIM_LIMIT) (\<lambda>claimed.
       case get_array ''calls'' claimed of
         None \<Rightarrow> io_ok 0
       | Some calls \<Rightarrow> pump_jobs (function_call_job env db) calls 0)"

section \<open>The contracts\<close>

lemma valid_sql_ident_iff:
  "valid_sql_ident s pre \<longleftrightarrow> (\<exists>hex. s = pre @ hex \<and> hex_group 32 hex)"
  by (auto simp: valid_sql_ident_def strip_prefix_def hex_group_def prefix_def split: option.splits)

interpretation fn_call: agent_executor "run_function_call call_id sql_ident args pg_role"
    "valid_sql_ident sql_ident ''fn_''" "''invalid sql_ident''"
    "[begin_local_execution ''function_calls'' call_id, set_role (effective_role pg_role), set_search_path,
      set_timeout SQL_STATEMENT_TIMEOUT_MS]"
    "''function role unavailable''" SQL_STATEMENT_TIMEOUT_MS
    "(''SELECT allgres_functions.'' @ sql_ident @ ''($1::jsonb)'', [DJson args])"
    "\<lambda>r. case r of Inr (Some v) \<Rightarrow> Inr v | Inr None \<Rightarrow> Inr JNull | Inl e \<Rightarrow> Inl e"
  for call_id sql_ident args pg_role
proof (unfold_locales, goal_cases)
  case (2 env db)
  then show ?case
    by (simp only: run_function_call_def Let_def PG_STATEMENT_TIMEOUT_ID_def TIMER_def list.map fst_conv snd_conv if_False
        not_True_eq_False)
qed (simp_all add: run_function_call_def prep_defs begin_local_execution_def)

interpretation fn_build_completion: completion "submit_function_build_result function_id outcome"
    "''fn_complete_function_build''" function_id "\<lambda>_. DNull" run_stmt
    "(''SELECT allgres_public.fn_complete_function_build($1::uuid, $2, $3)'', build_row function_id outcome)"
  for function_id outcome
  by unfold_locales (simp_all add: submit_function_build_result_def spi_run_def assume_worker_role_def)

interpretation fn_call_completion: completion "submit_function_call_result call_id outcome"
    "''fn_complete_function_call''" "''call '' @ call_id" "opt_datum DJson" one_json
    "(''SELECT allgres_public.fn_complete_function_call($1::uuid, $2, $3, $4)'', call_row call_id outcome)"
  for call_id outcome
  by unfold_locales (simp_all add: submit_function_call_result_def get_one_json_def assume_worker_role_def)

section \<open>Quoting a body\<close>

text \<open>
  How PostgreSQL reads a dollar-quoted string: a tag between two dollar signs, then everything up to
  the next occurrence of the same delimiter; the result is the content and what follows.
\<close>

definition dollar_unquote :: "string \<Rightarrow> (string \<times> string) option" where
  "dollar_unquote s =
     (case s of
        c # r \<Rightarrow>
          if c = CHR ''$'' then
            (let d = delimiter (takeWhile (\<lambda>x. x \<noteq> CHR ''$'') r); t = drop (length d) s in
             map_option (\<lambda>i. (take i t, drop (i + length d) t)) (find_sub d t))
          else None
      | [] \<Rightarrow> None)"

lemma free_tag_unused: "\<not> sublist (delimiter (free_tag body tag)) body"
  by (induction body tag rule: free_tag.induct) (subst free_tag.simps, simp)

lemma free_tag_extends: "\<exists>n. free_tag body tag = tag @ replicate n CHR ''x''"
proof (induction body tag rule: free_tag.induct)
  case (1 body tag)
  show ?case
  proof (cases "sublist (delimiter tag) body")
    case True
    with 1 obtain n where "free_tag body (tag @ ''x'') = (tag @ ''x'') @ replicate n CHR ''x''" by blast
    with True show ?thesis by (subst free_tag.simps) (auto intro: exI [of _ "Suc n"])
  next
    case False
    then show ?thesis by (subst free_tag.simps) (auto intro: exI [of _ 0])
  qed
qed

lemma sublist_across:
  assumes "sublist p (xs @ y # ys)" and "y \<notin> set p"
  shows "sublist p xs \<or> sublist p ys"
proof -
  from assms(1) obtain a b where "xs @ y # ys = a @ p @ b" by (auto simp: sublist_def)
  then have "\<exists>us. (xs = a @ us \<and> us @ y # ys = p @ b) \<or> (xs @ us = a \<and> y # ys = us @ p @ b)"
    by (simp add: append_eq_append_conv2)
  then show ?thesis
  proof (elim exE disjE conjE)
    fix us assume "xs = a @ us" "us @ y # ys = p @ b"
    then have "\<exists>vs. us = p @ vs \<or> (us @ vs = p \<and> y # ys = vs @ b)"
      by (auto simp: append_eq_append_conv2)
    then have "\<exists>vs. us = p @ vs" using assms(2) by (auto simp: Cons_eq_append_conv)
    with \<open>xs = a @ us\<close> show ?thesis unfolding sublist_def by blast
  next
    fix us assume "y # ys = us @ p @ b"
    with assms(2) have "p = [] \<or> (\<exists>u. ys = u @ p @ b)" by (cases us) (auto simp: Cons_eq_append_conv)
    then show ?thesis unfolding sublist_def by (metis append_Nil)
  qed
qed

lemma hex_digits_plain: "c \<in> set (fmt_x n) \<Longrightarrow> c \<noteq> CHR ''$'' \<and> c \<noteq> nl"
proof (unfold fmt_x_def, induction "16 :: nat" n rule: fmt_radix.induct)
  case (1 n)
  have "hex_digit m \<noteq> CHR ''$'' \<and> hex_digit m \<noteq> nl" if "m < 16" for m
    using that u8_hex_digit [of m] by (auto split: if_splits)
  moreover have "n mod 16 < 16" by simp
  ultimately show ?case using 1 by (subst (asm) (2) fmt_radix.simps) (auto split: if_splits)
qed

lemma quote_tag_plain:
  "CHR ''$'' \<notin> set (free_tag body (''body_'' @ fmt_x n))" "nl \<notin> set (free_tag body (''body_'' @ fmt_x n))"
proof -
  obtain k where k: "free_tag body (''body_'' @ fmt_x n) = (''body_'' @ fmt_x n) @ replicate k CHR ''x''"
    using free_tag_extends by blast
  show "CHR ''$'' \<notin> set (free_tag body (''body_'' @ fmt_x n))" "nl \<notin> set (free_tag body (''body_'' @ fmt_x n))"
    unfolding k using hex_digits_plain [of _ n] by auto
qed

lemma dollar_unquote_delimiter:
  assumes "CHR ''$'' \<notin> set tag"
  shows "dollar_unquote (delimiter tag @ t) =
    map_option (\<lambda>i. (take i t, drop (i + length (delimiter tag)) t)) (find_sub (delimiter tag) t)"
proof -
  have w: "takeWhile (\<lambda>x. x \<noteq> CHR ''$'') (tag @ CHR ''$'' # t) = tag"
    using assms by (intro takeWhile_stop) auto
  have e: "delimiter tag @ t = CHR ''$'' # tag @ CHR ''$'' # t" by (simp add: delimiter_def)
  have "drop (length (delimiter tag)) (CHR ''$'' # tag @ CHR ''$'' # t) = t" unfolding e [symmetric] by simp
  then show ?thesis unfolding e dollar_unquote_def list.case w Let_def by simp
qed

text \<open>
  C11. The quoting round trip: whatever the body contains and whatever the clock says, PostgreSQL reads
  the quoted string back as exactly the body between two line ends, and the statement goes on right
  after the closing delimiter; no body can end its own quotation early.
\<close>

theorem dollar_quote_roundtrip:
  "dollar_unquote (snd (dollar_quote now body) @ rest) = Some ([nl] @ body @ [nl], rest)"
proof -
  define tag where "tag = free_tag body (''body_'' @ fmt_x (case now of Some d \<Rightarrow> d | None \<Rightarrow> 0))"
  let ?d = "delimiter tag" and ?c = "[nl] @ body @ [nl]"
  have plain: "CHR ''$'' \<notin> set tag" "nl \<notin> set tag" unfolding tag_def by (rule quote_tag_plain)+
  have q: "snd (dollar_quote now body) = ?d @ ?c @ ?d" by (simp add: dollar_quote_def tag_def Let_def)
  have nd: "nl \<notin> set ?d" using plain by (simp add: delimiter_def)
  have short: "\<not> sublist ?d (butlast ?d)" using sublist_length_le [of ?d "butlast ?d"] by (auto simp: delimiter_def)
  have "\<not> sublist ?d (?c @ butlast ?d)"
  proof
    assume "sublist ?d (?c @ butlast ?d)"
    with sublist_across [of ?d "[]" nl "body @ nl # butlast ?d"] nd have "sublist ?d (body @ nl # butlast ?d)"
      by (simp add: delimiter_def)
    from sublist_across [OF this nd] short have "sublist ?d body" by simp
    with free_tag_unused show False unfolding tag_def by blast
  qed
  then have f: "find_sub ?d (?c @ ?d @ rest) = Some (length ?c)"
    by (rule find_sub_append_None) (simp add: delimiter_def)
  have "dollar_unquote (?d @ (?c @ ?d @ rest))
      = Some (take (length ?c) (?c @ ?d @ rest), drop (length ?c + length ?d) (?c @ ?d @ rest))"
    unfolding dollar_unquote_delimiter [OF plain(1)] f by (simp only: option.map)
  also have "\<dots> = Some (?c, rest)" by simp
  finally show ?thesis using q by simp
qed

section \<open>What a build commits\<close>

text \<open>No statement of the trace came back as an error value; PostgreSQL raises its errors.\<close>

definition errors_raised :: "event list \<Rightarrow> bool" where
  "errors_raised tr \<longleftrightarrow> (\<forall>sql args e. Exec sql args (ReturnedErr e) \<notin> set tr)"

lemma errors_raised_simps [simp]:
  "errors_raised [] \<longleftrightarrow> True" "errors_raised (xs @ ys) \<longleftrightarrow> errors_raised xs \<and> errors_raised ys"
  "errors_raised (Exec sql args (Answer v) # tr) \<longleftrightarrow> errors_raised tr"
  "errors_raised (Exec sql args (Raised e) # tr) \<longleftrightarrow> errors_raised tr"
  "errors_raised (Exec sql args (ReturnedErr e) # tr) \<longleftrightarrow> False"
  "errors_raised (StartTransaction # tr) \<longleftrightarrow> errors_raised tr" "errors_raised (CommitTransaction # tr) \<longleftrightarrow> errors_raised tr"
  "errors_raised (BeginSub # tr) \<longleftrightarrow> errors_raised tr" "errors_raised (ReleaseSub # tr) \<longleftrightarrow> errors_raised tr"
  "errors_raised (RollbackSub # tr) \<longleftrightarrow> errors_raised tr"
  by (auto simp: errors_raised_def)

text \<open>The part of a build after the role is set, as a closure of its own.\<close>

definition build_objects ::
    "string \<Rightarrow> string \<Rightarrow> bool \<Rightarrow> (event list \<Rightarrow> nat option) \<Rightarrow> db \<Rightarrow> json result spi" where
  "build_objects sql_ident body procedure now db =
     run_or_return (spi_run db ''SET LOCAL check_function_bodies = on'' []) (
     run_or_return (run_ddl db now procedure sql_ident body) (
     try_bind (run_in_subtransaction (
         run_or_return (run_ddl db now procedure sql_ident (wrap sql_ident body '''')) (io_ok (Inr JNull)))) (\<lambda>r.
     if \<not> isl r then io_ok (Inr JNull)
     else run_or_return (run_ddl db now procedure sql_ident (wrap sql_ident body '';'')) (io_ok (Inr JNull)))))"

text \<open>What a piece of trace leaves in the (sub)transaction it runs in.\<close>

definition leaves :: "event list \<Rightarrow> string list \<Rightarrow> bool" where
  "leaves new ys \<longleftrightarrow> (\<forall>y st rest. survivors (y # st) (new @ rest) = survivors ((y @ ys) # st) rest)"

text \<open>
  When errors are raised, the part either raises, or ends with the guarded definition in place as the
  last thing done in the subtransaction.
\<close>

lemma build_objects_runs:
  assumes "build_objects sql_ident body procedure now db tr = (x, tr')"
  defines "check \<equiv> ''SET LOCAL check_function_bodies = on''"
    and "df \<equiv> (\<lambda>t source. Exec (ddl procedure sql_ident t source) [])"
  shows "\<exists>new. tr' = tr @ new \<and> (errors_raised new \<longrightarrow>
      (\<exists>e. isl x \<and> new = [Exec check [] (Raised e)])
    \<or> (\<exists>t e. isl x \<and> new = [Exec check [] (Answer DNull), df t body (Raised e)])
    \<or> (\<exists>t1 t2. x = Inr (Inr JNull)
        \<and> new = [Exec check [] (Answer DNull), df t1 body (Answer DNull), BeginSub,
                 df t2 (wrap sql_ident body '''') (Answer DNull), ReleaseSub])
    \<or> (\<exists>t1 t2 t3 e a. (x = Inr (Inr JNull) \<and> a = Answer DNull \<or> isl x \<and> (\<exists>e. a = Raised e))
        \<and> new = [Exec check [] (Answer DNull), df t1 body (Answer DNull), BeginSub,
                 df t2 (wrap sql_ident body '''') (Raised e), RollbackSub, df t3 (wrap sql_ident body '';'') a]))"
  using assms(1)
  by (auto simp: build_objects_def run_or_return_def run_ddl_def spi_run_def spi_call_def try_bind_def io_ok_def
      run_in_subtransaction_def check_def df_def split: spi_res.splits)

lemma build_objects_trace:
  assumes "build_objects sql_ident body procedure now db tr = (x, tr')"
  obtains new where "tr' = tr @ new" "errors_raised new \<longrightarrow>
    (\<exists>ys. leaves new ys \<and> (isl x \<or> (x = Inr (Inr JNull) \<and> ys \<noteq> []
      \<and> (\<exists>t term. last ys = ddl procedure sql_ident t (wrap sql_ident body term)))))"
proof -
  let ?built = "\<lambda>new. \<exists>ys. leaves new ys \<and> (isl x \<or> (x = Inr (Inr JNull) \<and> ys \<noteq> []
      \<and> (\<exists>t term. last ys = ddl procedure sql_ident t (wrap sql_ident body term))))"
  have raised: "?built new" if "isl x" "leaves new ys" for new ys using that by blast
  have built: "?built new" if "x = Inr (Inr JNull)" "leaves new (ys @ [ddl procedure sql_ident t (wrap sql_ident body term)])"
    for new ys t "term" using that by (intro exI [of _ "ys @ [ddl procedure sql_ident t (wrap sql_ident body term)]"]) auto
  let ?c = "''SET LOCAL check_function_bodies = on''" and ?d = "\<lambda>t. ddl procedure sql_ident t body"
  from build_objects_runs [OF assms] show thesis
    apply (elim exE conjE)
    apply (rule that, assumption)
    apply (intro impI, drule (1) mp, elim disjE exE conjE)
    subgoal by (rule raised [of _ "[]"]) (simp_all add: leaves_def)
    subgoal by (rule raised [of _ "[?c]"]) (simp_all add: leaves_def)
    subgoal for new t1 t2 by (rule built [of _ "[?c, ?d t1]" t2 "''''"]) (simp_all add: leaves_def)
    subgoal for new t1 t2 t3 by (rule built [of _ "[?c, ?d t1]" t3 "'';''"]) (simp_all add: leaves_def)
    subgoal for new t1 by (rule raised [of _ "[?c, ?d t1]"]) (simp_all add: leaves_def)
    done
qed

lemma run_guarded_build_eq:
  assumes "valid_sql_ident sql_ident (if procedure then ''proc_'' else ''fn_'')"
  shows "run_guarded_build sql_ident body procedure now env db =
    try_bind (transaction db (run_in_subtransaction (
      try_bind (all_ok (drop_privileges env db # map (exec_ok db) [(''SET LOCAL ROLE allgres_function_admin'', [])])) (\<lambda>ready.
        if \<not> ready then io_ok (Inl ''allgres_function_admin role unavailable'')
        else build_objects sql_ident body procedure now db)))) (\<lambda>r. io_ok (map_sum id (\<lambda>_. ()) r))"
  using assms unfolding run_guarded_build_def build_objects_def by (simp only: list.map not_True_eq_False if_False simp_thms)

text \<open>The prologue of a build leaves statements of its own in the subtransaction.\<close>

lemma only_leaves:
  assumes "only S new"
  shows "\<exists>ys. survivors [[], []] (new @ rest) = survivors [ys, []] rest"
  using survivors_only [OF assms, of "[]" "[[]]" rest] by simp

text \<open>A build with a valid name: the prologue fails, or the objects are built after it.\<close>

lemma run_guarded_build_trace:
  assumes "valid_sql_ident sql_ident (if procedure then ''proc_'' else ''fn_'')"
    and "run_guarded_build sql_ident body procedure now env db tr = (r, tr')"
  obtains (prologue) S n1 e rb c where "only S n1" "rb \<in> {[], [RollbackSub]}"
      "tr' = (tr @ [StartTransaction, BeginSub] @ n1 @ rb) @ c"
      "closes db (tr @ [StartTransaction, BeginSub] @ n1 @ rb) (Inr (Inl e)) r c"
  | (built) S n1 x tr2 c where "only S n1"
      "build_objects sql_ident body procedure now db (tr @ [StartTransaction, BeginSub] @ n1) = (x, tr2)"
      "tr' = (tr2 @ sub_end x) @ c" "closes db (tr2 @ sub_end x) (Inr (map_sum id (\<lambda>_. ()) (caught x))) r c"
proof -
  let ?prep = "all_ok (drop_privileges env db # map (exec_ok db) [(''SET LOCAL ROLE allgres_function_admin'', [])])"
  let ?f = "try_bind ?prep (\<lambda>ready. if \<not> ready then io_ok (Inl ''allgres_function_admin role unavailable'')
        else build_objects sql_ident body procedure now db)"
  obtain v tr1 where t: "transaction db (run_in_subtransaction ?f) tr = (v, tr1)" by fastforce
  then obtain x tr2 c where x: "?f (tr @ [StartTransaction, BeginSub]) = (x, tr2)"
    and tr1: "tr1 = (tr2 @ sub_end x) @ c" and v: "closes db (tr2 @ sub_end x) (Inr (caught x)) v c"
    by (rule contained_trace)
  from assms(2) run_guarded_build_eq [OF assms(1)] t
  have "r = map_sum id (map_sum id (\<lambda>_. ())) v" and tr': "tr' = tr1"
    by (simp_all add: try_bind_def io_ok_def split: sum.splits)
  with closes_map [OF v, of "map_sum id (\<lambda>_. ())"]
  have r: "closes db (tr2 @ sub_end x) (Inr (map_sum id (\<lambda>_. ()) (caught x))) r c" by simp
  obtain s tr3 where s: "?prep (tr @ [StartTransaction, BeginSub]) = (s, tr3)" by fastforce
  then obtain n1 where n1: "tr3 = (tr @ [StartTransaction, BeginSub]) @ n1"
    "only (insert (assume_worker_role, []) (set [(''SET LOCAL ROLE allgres_function_admin'', [])])) n1"
    by (rule setup_trace)
  show ?thesis
  proof (cases "s = Inr True")
    case True
    with x s n1(1) have "build_objects sql_ident body procedure now db (tr @ [StartTransaction, BeginSub] @ n1) = (x, tr2)"
      by (simp add: try_bind_def)
    with n1(2) r tr' tr1 show ?thesis by (intro built) simp_all
  next
    case False
    with x s obtain e where "tr2 = tr3" "x = Inl e \<or> x = Inr (Inl e)"
      by (auto simp: try_bind_def split: sum.splits if_splits)
    with n1 r tr' tr1 show ?thesis by (intro prologue [of _ n1 "sub_end x" c e]) auto
  qed
qed

lemma run_guarded_build_contained:
  "(\<exists>v. fst (run_guarded_build sql_ident body procedure now env db tr) = Inr v)
   \<or> (\<exists>e. fst (run_guarded_build sql_ident body procedure now env db tr) = Inl e
        \<and> commit_error db (snd (run_guarded_build sql_ident body procedure now env db tr)) = Some e)"
proof (cases "valid_sql_ident sql_ident (if procedure then ''proc_'' else ''fn_'')")
  case True
  obtain r tr' where e: "run_guarded_build sql_ident body procedure now env db tr = (r, tr')" by fastforce
  show ?thesis by (rule run_guarded_build_trace [OF True e]; drule closes_value; auto simp: e)
qed (simp add: run_guarded_build_def io_ok_def)

text \<open>
  C5. An unguarded object never commits. If PostgreSQL raises its errors, a build either reports an
  error (or unwinds, when the commit itself raises) and nothing it did is committed, or it reports
  success and the last statement committed is the one that (re)defines the object with the execution
  guard as the first statement of its body.
\<close>

theorem unguarded_never_commits:
  assumes "run_guarded_build sql_ident body procedure now env db tr = (r, tr @ new)" and "errors_raised new"
  shows "((\<exists>e. r = Inr (Inl e) \<or> r = Inl e) \<and> survivors [] new = [])
    \<or> (r = Inr (Inr ()) \<and> survivors [] new \<noteq> []
        \<and> (\<exists>t term. last (survivors [] new) = ddl procedure sql_ident t (wrap sql_ident body term)))"
proof (cases "valid_sql_ident sql_ident (if procedure then ''proc_'' else ''fn_'')")
  case False
  with assms(1) show ?thesis by (simp add: run_guarded_build_def)
next
  case True
  from True assms(1) show ?thesis
  proof (rule run_guarded_build_trace)
    fix S n1 e rb c
    assume o: "only S n1" and rb: "rb \<in> {[], [RollbackSub]}" and n: "tr @ new = (tr @ [StartTransaction, BeginSub] @ n1 @ rb) @ c"
      and cl: "closes db (tr @ [StartTransaction, BeginSub] @ n1 @ rb) (Inr (Inl e)) r c"
    from only_leaves [OF o] obtain ys where "survivors [[], []] (n1 @ rb @ c) = survivors [ys, []] (rb @ c)" by blast
    with n rb closes_commit [OF cl] have "survivors [] new = []" by auto
    with closes_value [OF cl] show ?thesis by blast
  next
    fix S n1 and x :: "json result result" and tr2 c
    let ?fin = "sub_end x @ c"
    assume o: "only S n1"
      and b: "build_objects sql_ident body procedure now db (tr @ [StartTransaction, BeginSub] @ n1) = (x, tr2)"
      and tr': "tr @ new = (tr2 @ sub_end x) @ c"
      and cl: "closes db (tr2 @ sub_end x) (Inr (map_sum id (\<lambda>_. ()) (caught x))) r c"
    from b obtain n2 where n2: "tr2 = (tr @ [StartTransaction, BeginSub] @ n1) @ n2" "errors_raised n2 \<longrightarrow>
      (\<exists>ys. leaves n2 ys \<and> (isl x \<or> (x = Inr (Inr JNull) \<and> ys \<noteq> []
        \<and> (\<exists>t term. last ys = ddl procedure sql_ident t (wrap sql_ident body term)))))"
      by (rule build_objects_trace)
    with tr' have new: "new = [StartTransaction, BeginSub] @ n1 @ n2 @ ?fin" by simp
    with assms(2) n2(2) obtain ys where ys: "leaves n2 ys" "isl x \<or> (x = Inr (Inr JNull) \<and> ys \<noteq> []
        \<and> (\<exists>t term. last ys = ddl procedure sql_ident t (wrap sql_ident body term)))" by auto
    from only_leaves [OF o] obtain zs where "survivors [[], []] (n1 @ n2 @ ?fin) = survivors [zs, []] (n2 @ ?fin)" by blast
    with new ys(1) have sv: "survivors [] new = survivors [zs @ ys, []] ?fin" by (simp add: leaves_def)
    from ys(2) show ?thesis
    proof (elim disjE conjE exE)
      assume "isl x"
      with closes_value [OF cl] sv show ?thesis by (cases x) auto
    next
      fix t t'
      assume x: "x = Inr (Inr JNull)" "ys \<noteq> []" "last ys = ddl procedure sql_ident t (wrap sql_ident body t')"
      from x(1) closes_value [OF cl] sv have "(r = Inr (Inr ()) \<and> survivors [] new = zs @ ys) \<or> (\<exists>e. r = Inl e \<and> survivors [] new = [])"
        by auto
      with x(2) x(3) [symmetric] show ?thesis by (metis append_is_Nil_conv last_appendR)
    qed
  qed
qed

definition sample_ident :: string where
  "sample_ident = ''fn_0123456789abcdef0123456789abcdef''"

lemma sample_ident_valid: "valid_sql_ident sample_ident ''fn_''"
  by code_simp

theorem unguarded_never_commits_witness:
  "\<exists>new. run_guarded_build sample_ident ''RETURN 1'' False (\<lambda>_. None) (\<lambda>_. None) obliging_db [] = (Inr (Inr ()), [] @ new)
    \<and> (\<exists>t term. last (survivors [] new) = ddl False sample_ident t (wrap sample_ident ''RETURN 1'' term))"
proof -
  let ?d = "ddl False sample_ident None"
  let ?new = "[StartTransaction, BeginSub, Exec assume_worker_role [] (Answer (DBool True)),
    Exec ''SET LOCAL ROLE allgres_function_admin'' [] (Answer DNull),
    Exec ''SET LOCAL check_function_bodies = on'' [] (Answer DNull), Exec (?d ''RETURN 1'') [] (Answer DNull),
    BeginSub, Exec (?d (wrap sample_ident ''RETURN 1'' '''')) [] (Answer DNull), ReleaseSub, ReleaseSub, CommitTransaction]"
  have "run_guarded_build sample_ident ''RETURN 1'' False (\<lambda>_. None) (\<lambda>_. None) obliging_db [] = (Inr (Inr ()), [] @ ?new)"
    by (simp add: run_guarded_build_def sample_ident_valid transaction_def run_in_subtransaction_def try_bind_def
        spi_simps drop_privileges_def get_one_bool_def spi_call_def spi_run_def exec_ok_def io_ok_def
        run_or_return_def run_ddl_def obliging_db_def)
  moreover from unguarded_never_commits [OF this]
  have "\<exists>t term. last (survivors [] ?new) = ddl False sample_ident t (wrap sample_ident ''RETURN 1'' term)" by simp
  ultimately show ?thesis by blast
qed

end
