(* ===== verification/Procedure_Exec.thy ===== *)
theory Procedure_Exec
  imports Function_Exec
begin

text \<open>
  PL/pgSQL procedures of agents (\<open>procedure_exec.rs\<close>): built by the same guarded build as functions,
  called with \<open>CALL\<close> under a longer time-out, recorded in their own queue. The properties of calls that
  functions and procedures share are stated here, for both.
\<close>

section \<open>Building\<close>

definition claim_procedure_build_jobs :: "env \<Rightarrow> db \<Rightarrow> int \<Rightarrow> json spi" where
  "claim_procedure_build_jobs env db limit =
     claim env db ''SELECT allgres_public.fn_claim_procedure_builds($1)'' ''builds'' limit"

definition run_procedure_build :: "string \<Rightarrow> string \<Rightarrow> (event list \<Rightarrow> nat option) \<Rightarrow> env \<Rightarrow> db \<Rightarrow> unit result spi" where
  "run_procedure_build sql_ident body = run_guarded_build sql_ident body True"

definition submit_procedure_build_result :: "string \<Rightarrow> unit result \<Rightarrow> env \<Rightarrow> db \<Rightarrow> unit spi" where
  "submit_procedure_build_result procedure_id outcome env db =
     complete_row env db
       (spi_run db ''SELECT allgres_public.fn_complete_procedure_build($1::uuid, $2, $3)'' (build_row procedure_id outcome))
       ''fn_complete_procedure_build'' procedure_id"

definition procedure_build_job :: "(event list \<Rightarrow> nat option) \<Rightarrow> env \<Rightarrow> db \<Rightarrow> json \<Rightarrow> unit spi option" where
  "procedure_build_job now env db b =
     (case (get_str ''procedure_id'' b, get_str ''sql_ident'' b, get_str ''body'' b) of
        (Some procedure_id, Some sql_ident, Some body) \<Rightarrow>
          if \<not> valid_uuid procedure_id then None
          else Some (
            try_bind (run_procedure_build sql_ident body now env db) (\<lambda>outcome.
            submit_procedure_build_result procedure_id outcome env db))
      | _ \<Rightarrow> None)"

definition pump_procedure_builds :: "(event list \<Rightarrow> nat option) \<Rightarrow> env \<Rightarrow> db \<Rightarrow> nat spi" where
  "pump_procedure_builds now env db =
     try_bind (claim_procedure_build_jobs env db SQL_CLAIM_LIMIT) (\<lambda>claimed.
       case get_array ''builds'' claimed of
         None \<Rightarrow> io_ok 0
       | Some builds \<Rightarrow> pump_jobs (procedure_build_job now env db) builds 0)"

section \<open>Calling\<close>

definition claim_procedure_call_jobs :: "env \<Rightarrow> db \<Rightarrow> int \<Rightarrow> json spi" where
  "claim_procedure_call_jobs env db limit =
     claim env db ''SELECT allgres_public.fn_claim_procedure_calls($1)'' ''calls'' limit"

definition call_procedure :: "string \<Rightarrow> string" where
  "call_procedure sql_ident =
     ''CALL allgres_functions.'' @ sql_ident @ ''($1::jsonb, '' @ [CHR 0x27] @ ''{}'' @ [CHR 0x27] @ ''::jsonb)''"

definition run_procedure_call :: "string \<Rightarrow> string \<Rightarrow> json \<Rightarrow> string option \<Rightarrow> env \<Rightarrow> db \<Rightarrow> json result spi" where
  "run_procedure_call call_id sql_ident args pg_role env db =
     (if \<not> valid_sql_ident sql_ident ''proc_'' then io_ok (Inl ''invalid sql_ident'')
      else
        let role = effective_role pg_role; sql = call_procedure sql_ident in
        transaction db (run_in_subtransaction (
          try_bind (all_ok
            [drop_privileges env db,
             exec_ok db (begin_local_execution ''procedure_calls'' call_id),
             exec_ok db (set_role role),
             exec_ok db set_search_path,
             exec_ok db (set_timeout PROCEDURE_CALL_TIMEOUT_MS)]) (\<lambda>dropped.
          if \<not> dropped then io_ok (Inl ''procedure role unavailable'')
          else
            try_bind (emit (EnableTimeout PG_STATEMENT_TIMEOUT_ID PROCEDURE_CALL_TIMEOUT_MS)) (\<lambda>_.
            try_bind (with_fixed_role (
              try_bind (get_one_json db sql [DJson args]) (\<lambda>r.
              io_ok (case r of Inr (Some v) \<Rightarrow> Inr v | Inr None \<Rightarrow> Inr JNull | Inl e \<Rightarrow> Inl e)))) (\<lambda>r.
            try_bind (emit (DisableTimeout PG_STATEMENT_TIMEOUT_ID)) (\<lambda>_. io_ok r)))))))"

definition submit_procedure_call_result :: "string \<Rightarrow> json result \<Rightarrow> env \<Rightarrow> db \<Rightarrow> unit spi" where
  "submit_procedure_call_result call_id outcome env db =
     complete_row env db
       (get_one_json db ''SELECT allgres_public.fn_complete_procedure_call($1::uuid, $2, $3, $4)'' (call_row call_id outcome))
       ''fn_complete_procedure_call'' (''call '' @ call_id)"

definition procedure_call_job :: "env \<Rightarrow> db \<Rightarrow> json \<Rightarrow> unit spi option" where
  "procedure_call_job env db call =
     (case (get_str ''call_id'' call, get_str ''sql_ident'' call) of
        (Some call_id, Some sql_ident) \<Rightarrow>
          if \<not> valid_uuid call_id then None
          else
            let args = (case json_get ''args'' call of Some a \<Rightarrow> a | None \<Rightarrow> jobj []) in
            Some (
              try_bind (run_procedure_call call_id sql_ident args (get_str ''pg_role'' call) env db) (\<lambda>outcome.
              submit_procedure_call_result call_id outcome env db))
      | _ \<Rightarrow> None)"

definition pump_procedure_calls :: "env \<Rightarrow> db \<Rightarrow> nat spi" where
  "pump_procedure_calls env db =
     try_bind (claim_procedure_call_jobs env db SQL_CLAIM_LIMIT) (\<lambda>claimed.
       case get_array ''calls'' claimed of
         None \<Rightarrow> io_ok 0
       | Some calls \<Rightarrow> pump_jobs (procedure_call_job env db) calls 0)"

section \<open>The contracts\<close>

interpretation proc_call: agent_executor "run_procedure_call call_id sql_ident args pg_role"
    "valid_sql_ident sql_ident ''proc_''" "''invalid sql_ident''"
    "[begin_local_execution ''procedure_calls'' call_id, set_role (effective_role pg_role), set_search_path,
      set_timeout PROCEDURE_CALL_TIMEOUT_MS]"
    "''procedure role unavailable''" PROCEDURE_CALL_TIMEOUT_MS
    "(call_procedure sql_ident, [DJson args])"
    "\<lambda>r. case r of Inr (Some v) \<Rightarrow> Inr v | Inr None \<Rightarrow> Inr JNull | Inl e \<Rightarrow> Inl e"
  for call_id sql_ident args pg_role
proof (unfold_locales, goal_cases)
  case (2 env db)
  then show ?case
    by (simp only: run_procedure_call_def Let_def PG_STATEMENT_TIMEOUT_ID_def TIMER_def list.map fst_conv snd_conv if_False
        not_True_eq_False)
qed (simp_all add: run_procedure_call_def call_procedure_def prep_defs begin_local_execution_def)

interpretation proc_build_completion: completion "submit_procedure_build_result procedure_id outcome"
    "''fn_complete_procedure_build''" procedure_id "\<lambda>_. DNull" run_stmt
    "(''SELECT allgres_public.fn_complete_procedure_build($1::uuid, $2, $3)'', build_row procedure_id outcome)"
  for procedure_id outcome
  by unfold_locales (simp_all add: submit_procedure_build_result_def spi_run_def assume_worker_role_def)

interpretation proc_call_completion: completion "submit_procedure_call_result call_id outcome"
    "''fn_complete_procedure_call''" "''call '' @ call_id" "opt_datum DJson" one_json
    "(''SELECT allgres_public.fn_complete_procedure_call($1::uuid, $2, $3, $4)'', call_row call_id outcome)"
  for call_id outcome
  by unfold_locales (simp_all add: submit_procedure_call_result_def get_one_json_def assume_worker_role_def)

section \<open>Properties of calls\<close>

text \<open>What precedes a call: \<open>queue\<close> names the table of calls, \<open>ms\<close> the time-out.\<close>

definition call_confinement :: "string \<Rightarrow> string \<Rightarrow> string \<Rightarrow> int \<Rightarrow> env \<Rightarrow> event list" where
  "call_confinement queue call_id role ms env =
     [StartTransaction, BeginSub] @ privilege_drop env
     @ [ok_exec (begin_local_execution queue call_id),
        Exec (''SET LOCAL ROLE '' @ role) [] (Answer DNull),
        Exec ''SET LOCAL search_path = pg_temp'' [] (Answer DNull),
        ok_exec (set_timeout ms), EnableTimeout 3 ms, FixRole]"

lemma call_confinement_eq:
  "[StartTransaction, BeginSub] @ privilege_drop env
    @ map ok_exec [begin_local_execution queue call_id, set_role role, set_search_path, set_timeout ms]
    @ [EnableTimeout TIMER ms, FixRole] = call_confinement queue call_id role ms env"
  by (simp add: call_confinement_def set_role_def set_search_path_def TIMER_def)

lemma function_call_confined:
  assumes "run_function_call call_id sql_ident args pg_role env db tr
      = (r, tr @ pre @ Exec (''SELECT allgres_functions.'' @ sql_ident @ ''($1::jsonb)'') [DJson args] a # post)"
  shows "valid_sql_ident sql_ident ''fn_''"
    "pre = call_confinement ''function_calls'' call_id (effective_role pg_role) 5000 env"
    "(''SELECT allgres_functions.'' @ sql_ident @ ''($1::jsonb)'', [DJson args]) \<notin> set (executed post)"
  using fn_call.confined [of call_id sql_ident args pg_role env db tr r pre a post, unfolded fst_conv snd_conv, OF assms]
  unfolding call_confinement_eq SQL_STATEMENT_TIMEOUT_MS_def by simp_all

lemma procedure_call_confined:
  assumes "run_procedure_call call_id sql_ident args pg_role env db tr
      = (r, tr @ pre @ Exec (call_procedure sql_ident) [DJson args] a # post)"
  shows "valid_sql_ident sql_ident ''proc_''"
    "pre = call_confinement ''procedure_calls'' call_id (effective_role pg_role) 60000 env"
    "(call_procedure sql_ident, [DJson args]) \<notin> set (executed post)"
  using proc_call.confined [of call_id sql_ident args pg_role env db tr r pre a post, unfolded fst_conv snd_conv, OF assms]
  unfolding call_confinement_eq PROCEDURE_CALL_TIMEOUT_MS_def by simp_all

text \<open>
  C4. Whenever a function or a procedure of an agent is called, its name is the fixed prefix and 32
  hexadecimal digits, and the call is issued once, in a fresh subtransaction, right after the
  privilege drop, the local-execution grant for this call, the switch to the agent's role (or
  \<open>sandbox\<close>), the empty search path, the time-out (5 s for a function, 60 s for a procedure), the armed
  timer and the role lock, each of which succeeded. (With \<open>ALLGRES_DROP_PRIVILEGES=0\<close> the privilege drop
  is empty; the switch of the role is not.)
\<close>

theorem agent_calls_confined:
  "(run_function_call call_id sql_ident args pg_role env db tr
      = (r, tr @ pre @ Exec (''SELECT allgres_functions.'' @ sql_ident @ ''($1::jsonb)'') [DJson args] a # post)
    \<longrightarrow> (\<exists>hex. sql_ident = ''fn_'' @ hex \<and> hex_group 32 hex)
      \<and> (\<exists>role. (role = ''sandbox'' \<or> (\<exists>hex. role = ''allgres_agent_'' @ hex \<and> hex_group 32 hex))
          \<and> pre = call_confinement ''function_calls'' call_id role 5000 env)
      \<and> (''SELECT allgres_functions.'' @ sql_ident @ ''($1::jsonb)'', [DJson args]) \<notin> set (executed post))
   \<and> (run_procedure_call call_id sql_ident args pg_role env db tr
      = (r, tr @ pre @ Exec (call_procedure sql_ident) [DJson args] a # post)
    \<longrightarrow> (\<exists>hex. sql_ident = ''proc_'' @ hex \<and> hex_group 32 hex)
      \<and> (\<exists>role. (role = ''sandbox'' \<or> (\<exists>hex. role = ''allgres_agent_'' @ hex \<and> hex_group 32 hex))
          \<and> pre = call_confinement ''procedure_calls'' call_id role 60000 env)
      \<and> (call_procedure sql_ident, [DJson args]) \<notin> set (executed post))"
  using effective_role_cases [of pg_role] function_call_confined [of call_id sql_ident args pg_role env db tr r pre a post]
    procedure_call_confined [of call_id sql_ident args pg_role env db tr r pre a post]
  unfolding valid_sql_ident_iff
  by (intro conjI impI) blast+

text \<open>A call of a function against a database that grants everything except that the function itself fails.\<close>

definition failing_db :: db where
  "failing_db = obliging_db\<lparr>one_json := (\<lambda>_ _ _. PgError ''division by zero'')\<rparr>"

lemma failing_call:
  "run_function_call ''c'' sample_ident JNull None (\<lambda>_. None) failing_db [] =
     (Inr (Inl ''division by zero''),
      [] @ call_confinement ''function_calls'' ''c'' ''sandbox'' 5000 (\<lambda>_. None)
      @ Exec (''SELECT allgres_functions.'' @ sample_ident @ ''($1::jsonb)'') [DJson JNull] (Raised ''division by zero'')
      # [RollbackSub, CommitTransaction])"
proof -
  have v: "(\<not> valid_sql_ident sample_ident ''fn_'') = False" using sample_ident_valid by simp
  show ?thesis
    unfolding run_function_call_def v if_False Let_def
    by (simp add: call_confinement_def privilege_drop_def effective_role_def transaction_def run_in_subtransaction_def try_bind_def
        spi_simps drop_privileges_def get_one_bool_def get_one_json_def spi_call_def spi_run_def exec_ok_def io_ok_def
        with_fixed_role_def failing_db_def obliging_db_def set_role_def set_search_path_def
        PG_STATEMENT_TIMEOUT_ID_def SQL_STATEMENT_TIMEOUT_MS_def)
qed

theorem agent_calls_confined_witness:
  "\<exists>r pre a post. run_function_call ''c'' sample_ident JNull None (\<lambda>_. None) failing_db [] =
      (r, [] @ pre @ Exec (''SELECT allgres_functions.'' @ sample_ident @ ''($1::jsonb)'') [DJson JNull] a # post)
    \<and> (\<exists>hex. sample_ident = ''fn_'' @ hex \<and> hex_group 32 hex)"
  using agent_calls_confined [THEN conjunct1, rule_format, OF failing_call] failing_call by blast



text \<open>
  C36. A run of any of the three executors that ends in an error which was not raised and caught (the
  worker role is not ready, \<open>Spi\<close> refuses one of the set-up statements, the agent's statement returns an
  \<open>Err\<close>, or in the sandbox nothing at all) neither releases nor rolls back the subtransaction it began: the
  enclosing transaction is committed with one subtransaction still open. PostgreSQL then commits
  nothing, and neither does it for anything the worker does afterwards, however well nested its later
  transactions are. A run that was refused for the name of its object has begun none.
\<close>

theorem err_leaves_subtransaction_open:
  assumes "run_sandboxed_sql agent_id sql pg_role env db tr = (Inr (Inl e), tr @ new)
      \<or> (run_function_call call_id sql_ident args pg_role env db tr = (Inr (Inl e), tr @ new) \<and> new \<noteq> [])
      \<or> (run_procedure_call call_id sql_ident args pg_role env db tr = (Inr (Inl e), tr @ new) \<and> new \<noteq> [])"
    and "RollbackSub \<notin> set new"
  shows "sub_depth new = 1 \<and> (well_nested later \<longrightarrow> survivors [] (new @ later) = [])"
proof -
  have "new \<noteq> []" if "run_sandboxed_sql agent_id sql pg_role env db tr = (Inr (Inl e), tr @ new)"
    by (rule sandboxed.trace [OF that]) (auto split: option.splits)
  with assms(1) consider
      (sql) "run_sandboxed_sql agent_id sql pg_role env db tr = (Inr (Inl e), tr @ new)" "new \<noteq> []"
    | (fn) "run_function_call call_id sql_ident args pg_role env db tr = (Inr (Inl e), tr @ new)" "new \<noteq> []"
    | (proc) "run_procedure_call call_id sql_ident args pg_role env db tr = (Inr (Inl e), tr @ new)" "new \<noteq> []" by blast
  then show ?thesis
  proof cases
    case sql
    with assms(2) sandboxed.depth_after [OF sql(1)] sandboxed.left_open [OF sql(1)] show ?thesis by simp
  next
    case fn
    with assms(2) fn_call.depth_after [OF fn(1)] fn_call.left_open [OF fn(1)] show ?thesis by simp
  next
    case proc
    with assms(2) proc_call.depth_after [OF proc(1)] proc_call.left_open [OF proc(1)] show ?thesis by simp
  qed
qed

text \<open>A database that grants everything but does not know the setting for read-only transactions.\<close>

definition guardless_db :: db where
  "guardless_db = obliging_db\<lparr>run_stmt := (\<lambda>_ sql _. if sql = fst set_read_only then SpiErr ''refused'' else SpiOk ())\<rparr>"

lemma guardless_run:
  "run_sandboxed_sql ''a'' ''SELECT 1'' None (\<lambda>_. None) guardless_db [] =
     (Inr (Inl ''sandbox role unavailable''), [] @ [StartTransaction, BeginSub, Exec assume_worker_role [] (Answer (DBool True)),
        ok_exec (set_role ''sandbox''), ok_exec set_search_path, Exec (fst set_read_only) (snd set_read_only) (ReturnedErr ''refused''),
        CommitTransaction])"
  by (simp add: run_sandboxed_sql_def Let_def effective_role_def transaction_def run_in_subtransaction_def try_bind_def
      spi_simps drop_privileges_def get_one_bool_def spi_call_def spi_run_def exec_ok_def io_ok_def
      guardless_db_def obliging_db_def set_role_def set_search_path_def set_read_only_def)

theorem err_leaves_subtransaction_open_witness:
  "survivors [] (snd (run_sandboxed_sql ''a'' ''SELECT 1'' None (\<lambda>_. None) guardless_db [])
     @ [StartTransaction, Exec ''UPDATE t SET x = 1'' [] (Answer DNull), CommitTransaction]) = []"
proof -
  let ?later = "[StartTransaction, Exec ''UPDATE t SET x = 1'' [] (Answer DNull), CommitTransaction]"
  have "well_nested ?later" by (simp add: well_nested_def take_Cons' split: nat.splits)
  with err_leaves_subtransaction_open [OF disjI1 [OF guardless_run], of ?later] show ?thesis
    unfolding guardless_run by simp
qed

end
