(* ===== verification/Http_Pool.thy ===== *)
theory Http_Pool
  imports Outbound_Http "HOL-Library.Multiset"
begin

text \<open>
  The HTTP thread pool and the cancellation flags (\<open>outbound.rs\<close>: \<open>OutboundQueue\<close>, \<open>OutboundJob\<close>,
  \<open>OutboundResult\<close>, \<open>CancelGuard\<close>, \<open>spawn_http_pool\<close>). The threads run concurrently with the runtime
  worker: \<open>pool_step\<close> is one atomic action of one thread. A cancellation flag is a shared cell
  (\<open>Arc<AtomicBool>\<close>), so flags live in a store and \<open>OUTBOUND_CANCEL_FLAGS\<close> maps a call to an address.
\<close>

section \<open>Data\<close>

datatype OutboundQueue = Outbound | Oauth | AgentEmbedding | ProviderProbe

record OutboundJob =
  job_id :: string
  job_queue :: OutboundQueue
  job_call :: json

record OutboundResult =
  res_id :: string
  res_queue :: OutboundQueue
  res_status :: int
  res_body :: string

text \<open>
  A thread waits for a job, has received one, is inside \<open>perform_http\<close> with its flag registered, or has
  a result to send.
\<close>

datatype worker = Idle | Received OutboundJob | Running OutboundJob nat | Finished OutboundResult

record pool =
  job_chan :: "OutboundJob list"
  workers :: "worker list"
  res_chan :: "OutboundResult list"
  OUTBOUND_CANCEL_FLAGS :: "string \<rightharpoonup> nat"
  cells :: "nat \<Rightarrow> bool"
  next_cell :: nat

section \<open>Operations\<close>

definition register :: "string \<Rightarrow> pool \<Rightarrow> nat \<times> pool" where
  "register call_id p =
     (let flag = next_cell p in
      (flag, p\<lparr>next_cell := flag + 1, cells := (cells p)(flag := False),
               OUTBOUND_CANCEL_FLAGS := (OUTBOUND_CANCEL_FLAGS p)(call_id \<mapsto> flag)\<rparr>))"

definition drop_guard :: "string \<Rightarrow> pool \<Rightarrow> pool" where
  "drop_guard call_id p = p\<lparr>OUTBOUND_CANCEL_FLAGS := (OUTBOUND_CANCEL_FLAGS p)(call_id := None)\<rparr>"

definition set_worker :: "nat \<Rightarrow> worker \<Rightarrow> pool \<Rightarrow> pool" where
  "set_worker i w p = p\<lparr>workers := (workers p)[i := w]\<rparr>"

text \<open>The pool after \<open>threads\<close> threads were started; \<open>spawned\<close> says which of them the system granted.\<close>

definition spawn_http_pool :: "nat \<Rightarrow> (nat \<Rightarrow> bool) \<Rightarrow> pool" where
  "spawn_http_pool threads spawned =
     \<lparr>job_chan = [], workers = map (\<lambda>_. Idle) (filter spawned [0..<threads]), res_chan = [],
      OUTBOUND_CANCEL_FLAGS = Map.empty, cells = (\<lambda>_. False), next_cell = 0\<rparr>"

text \<open>\<open>Sender::send\<close>: fails when every receiver is gone, that is, when no thread was started.\<close>

definition send_job :: "OutboundJob \<Rightarrow> pool \<Rightarrow> pool option" where
  "send_job j p = (if workers p = [] then None else Some (p\<lparr>job_chan := job_chan p @ [j]\<rparr>))"

definition try_recv :: "pool \<Rightarrow> (OutboundResult \<times> pool) option" where
  "try_recv p = (case res_chan p of [] \<Rightarrow> None | r # rs \<Rightarrow> Some (r, p\<lparr>res_chan := rs\<rparr>))"

inductive pool_step :: "codec \<Rightarrow> pool \<Rightarrow> pool \<Rightarrow> bool" for c where
  recv: "i < length (workers p) \<Longrightarrow> workers p ! i = Idle \<Longrightarrow> job_chan p = j # js \<Longrightarrow>
    pool_step c p (set_worker i (Received j) (p\<lparr>job_chan := js\<rparr>))"
| start: "i < length (workers p) \<Longrightarrow> workers p ! i = Received j \<Longrightarrow> register (job_id j) p = (a, p') \<Longrightarrow>
    pool_step c p (set_worker i (Running j a) p')"
| finish: "i < length (workers p) \<Longrightarrow> workers p ! i = Running j a \<Longrightarrow>
    perform_http c n (job_call j) = ((st, b), tr) \<Longrightarrow>
    pool_step c p (set_worker i
      (Finished \<lparr>res_id = job_id j, res_queue = job_queue j, res_status = st, res_body = b\<rparr>)
      (drop_guard (job_id j) p))"
| send: "i < length (workers p) \<Longrightarrow> workers p ! i = Finished r \<Longrightarrow>
    pool_step c p (set_worker i Idle (p\<lparr>res_chan := res_chan p @ [r]\<rparr>))"

inductive_cases pool_stepE: "pool_step c p p'"

section \<open>What is outstanding\<close>

type_synonym ticket_id = "string \<times> OutboundQueue"

definition job_key :: "OutboundJob \<Rightarrow> ticket_id" where
  "job_key j = (job_id j, job_queue j)"

definition res_key :: "OutboundResult \<Rightarrow> ticket_id" where
  "res_key r = (res_id r, res_queue r)"

fun worker_keys :: "worker \<Rightarrow> ticket_id multiset" where
  "worker_keys Idle = {#}"
| "worker_keys (Received j) = {#job_key j#}"
| "worker_keys (Running j a) = {#job_key j#}"
| "worker_keys (Finished r) = {#res_key r#}"

text \<open>The calls that were handed to the pool and whose results were not taken out of it.\<close>

definition outstanding :: "pool \<Rightarrow> ticket_id multiset" where
  "outstanding p =
     image_mset job_key (mset (job_chan p)) + sum_list (map worker_keys (workers p)) + image_mset res_key (mset (res_chan p))"

lemma sum_list_update:
  fixes f :: "'a \<Rightarrow> 'b :: cancel_comm_monoid_add"
  assumes "i < length xs"
  shows "sum_list (map f (xs[i := x])) + f (xs ! i) = sum_list (map f xs) + f x"
  using assms
proof (induction xs arbitrary: i)
  case (Cons y ys)
  then show ?case by (cases i) (auto simp: ac_simps)
qed simp

lemma worker_keys_update:
  assumes "i < length ws" and "ws ! i = w"
  shows "sum_list (map worker_keys (ws[i := w'])) + worker_keys w = sum_list (map worker_keys ws) + worker_keys w'"
  using sum_list_update [OF assms(1), of worker_keys w'] assms(2) by simp

lemma pool_step_outstanding: "pool_step c p p' \<Longrightarrow> outstanding p' = outstanding p"
proof (induction rule: pool_step.induct)
  case (recv i p j js)
  from worker_keys_update [OF recv(1,2), of "Received j"] recv(3) show ?case
    by (simp add: outstanding_def set_worker_def)
next
  case (start i p j a p')
  from worker_keys_update [OF start(1,2), of "Running j a"] start(3) show ?case
    by (auto simp: outstanding_def set_worker_def register_def Let_def)
next
  case (finish i p j a n st b tr)
  from worker_keys_update [OF finish(1,2),
      of "Finished \<lparr>res_id = job_id j, res_queue = job_queue j, res_status = st, res_body = b\<rparr>"]
  show ?case
    by (simp add: outstanding_def set_worker_def drop_guard_def job_key_def res_key_def)
next
  case (send i p r)
  from worker_keys_update [OF send(1,2), of Idle] show ?case
    by (simp add: outstanding_def set_worker_def)
qed

lemma pool_step_threads: "pool_step c p p' \<Longrightarrow> length (workers p') = length (workers p)"
  by (induction rule: pool_step.induct) (auto simp: set_worker_def register_def drop_guard_def Let_def)

lemma send_job_outstanding: "send_job j p = Some p' \<Longrightarrow> outstanding p' = add_mset (job_key j) (outstanding p)"
  by (auto simp: send_job_def outstanding_def split: if_splits)

lemma try_recv_outstanding: "try_recv p = Some (r, p') \<Longrightarrow> outstanding p = add_mset (res_key r) (outstanding p')"
  by (auto simp: try_recv_def outstanding_def split: list.splits)

section \<open>The cancellation flags\<close>

text \<open>
  A thread runs with a cell of its own; every entry of the map belongs to a thread that runs the call
  it names.
\<close>

definition flags_owned :: "pool \<Rightarrow> bool" where
  "flags_owned p \<longleftrightarrow>
     (\<forall>call_id a. OUTBOUND_CANCEL_FLAGS p call_id = Some a \<longrightarrow>
        (\<exists>i j. i < length (workers p) \<and> workers p ! i = Running j a \<and> job_id j = call_id))
   \<and> (\<forall>i j a. i < length (workers p) \<and> workers p ! i = Running j a \<longrightarrow> a < next_cell p)
   \<and> (\<forall>i j a i' j'. i < length (workers p) \<and> workers p ! i = Running j a
        \<and> i' < length (workers p) \<and> workers p ! i' = Running j' a \<longrightarrow> i = i')"

lemma flags_ownedD:
  assumes "flags_owned p"
  shows "OUTBOUND_CANCEL_FLAGS p call_id = Some a \<Longrightarrow>
      \<exists>i j. i < length (workers p) \<and> workers p ! i = Running j a \<and> job_id j = call_id"
    and "i < length (workers p) \<Longrightarrow> workers p ! i = Running j a \<Longrightarrow> a < next_cell p"
    and "i < length (workers p) \<Longrightarrow> workers p ! i = Running j a \<Longrightarrow>
      i' < length (workers p) \<Longrightarrow> workers p ! i' = Running j' a \<Longrightarrow> i = i'"
  using assms unfolding flags_owned_def by blast+

lemma flags_owned_same:
  assumes "flags_owned p" and "OUTBOUND_CANCEL_FLAGS p' = OUTBOUND_CANCEL_FLAGS p" "next_cell p' = next_cell p"
    and "i < length (workers p)" "\<And>j a. workers p ! i \<noteq> Running j a" "\<And>j a. w \<noteq> Running j a"
    and "workers p' = (workers p)[i := w]"
  shows "flags_owned p'"
  unfolding flags_owned_def
proof (intro conjI allI impI, goal_cases)
  case (1 call_id a)
  with assms(2) flags_ownedD(1) [OF assms(1), of call_id a] obtain k j where
    "k < length (workers p)" "workers p ! k = Running j a" "job_id j = call_id" by auto
  moreover from this assms(5) have "k \<noteq> i" by metis
  ultimately show ?case using assms(7) by (intro exI [of _ k] exI [of _ j]) simp
next
  case (2 k j a)
  with assms(3,4,6,7) flags_ownedD(2) [OF assms(1), of k j a] show ?case by (auto simp: nth_list_update split: if_splits)
next
  case (3 k j a k' j')
  with assms(4,6,7) flags_ownedD(3) [OF assms(1), of k j a k' j'] show ?case by (auto simp: nth_list_update split: if_splits)
qed

lemma flags_owned_start:
  assumes "flags_owned p" and "i < length (workers p)" "workers p ! i = Received j" and "register (job_id j) p = (a, p')"
  shows "flags_owned (set_worker i (Running j a) p')"
  unfolding flags_owned_def
proof (intro conjI allI impI, goal_cases)
  note d = flags_ownedD [OF assms(1)]
  from assms(4) have p': "a = next_cell p" "workers p' = workers p" "next_cell p' = Suc a"
    "OUTBOUND_CANCEL_FLAGS p' = (OUTBOUND_CANCEL_FLAGS p)(job_id j \<mapsto> a)" by (auto simp: register_def Let_def)
  {
    case (1 call_id b)
    show ?case
    proof (cases "call_id = job_id j")
      case True
      with 1 p' assms(2) show ?thesis by (intro exI [of _ i] exI [of _ j]) (auto simp: set_worker_def)
    next
      case False
      with 1 p' have "OUTBOUND_CANCEL_FLAGS p call_id = Some b" by (simp add: set_worker_def)
      from d(1) [OF this] obtain k j' where "k < length (workers p)" "workers p ! k = Running j' b" "job_id j' = call_id" by blast
      moreover from this assms(3) have "k \<noteq> i" by auto
      ultimately show ?thesis using p' by (intro exI [of _ k] exI [of _ j']) (simp add: set_worker_def)
    qed
  next
    case (2 k j' b)
    with assms(2) p' d(2) [of k j' b] show ?case by (auto simp: set_worker_def nth_list_update split: if_splits)
  next
    case (3 k j1 b k' j2)
    with assms(2) p' d(3) [of k j1 b k' j2] d(2) [of k j1 b] d(2) [of k' j2 b] show ?case
      by (auto simp: set_worker_def nth_list_update split: if_splits)
  }
qed

lemma flags_owned_finish:
  assumes "flags_owned p" and "i < length (workers p)" "workers p ! i = Running j a" and "\<And>j a. w \<noteq> Running j a"
  shows "flags_owned (set_worker i w (drop_guard (job_id j) p))"
  unfolding flags_owned_def
proof (intro conjI allI impI, goal_cases)
  note d = flags_ownedD [OF assms(1)]
  {
    case (1 call_id b)
    then have "call_id \<noteq> job_id j" "OUTBOUND_CANCEL_FLAGS p call_id = Some b"
      by (auto simp: set_worker_def drop_guard_def split: if_splits)
    with d(1) [OF this(2)] obtain k j' where "k < length (workers p)" "workers p ! k = Running j' b" "job_id j' = call_id"
      by blast
    moreover from this assms(3) \<open>call_id \<noteq> job_id j\<close> have "k \<noteq> i" by auto
    ultimately show ?case by (intro exI [of _ k] exI [of _ j']) (simp add: set_worker_def drop_guard_def)
  next
    case (2 k j' b)
    with assms(2,4) d(2) [of k j' b] show ?case by (auto simp: set_worker_def drop_guard_def nth_list_update split: if_splits)
  next
    case (3 k j1 b k' j2)
    with assms(2,4) d(3) [of k j1 b k' j2] show ?case
      by (auto simp: set_worker_def drop_guard_def nth_list_update split: if_splits)
  }
qed

lemma pool_step_flags_owned: "pool_step c p p' \<Longrightarrow> flags_owned p \<Longrightarrow> flags_owned p'"
proof (induction rule: pool_step.induct)
  case (recv i p j js)
  show ?case by (rule flags_owned_same [OF recv(4) _ _ recv(1), of _ "Received j"]) (simp_all add: set_worker_def recv(2))
next
  case (start i p j a p')
  from start(4,1,2,3) show ?case by (rule flags_owned_start)
next
  case (finish i p j a n st b tr)
  from finish(4,1,2) show ?case by (rule flags_owned_finish) simp
next
  case (send i p r)
  show ?case by (rule flags_owned_same [OF send(3) _ _ send(1), of _ Idle]) (simp_all add: set_worker_def send(2))
qed

text \<open>When an identifier is outstanding at most once, a thread that runs its call has its flag in the map.\<close>

definition once :: "string \<Rightarrow> ticket_id multiset \<Rightarrow> bool" where
  "once call_id M \<longleftrightarrow> count (image_mset fst M) call_id \<le> 1"

definition flagged :: "string \<Rightarrow> pool \<Rightarrow> bool" where
  "flagged call_id p \<longleftrightarrow>
     (\<forall>i j a. i < length (workers p) \<and> workers p ! i = Running j a \<and> job_id j = call_id
        \<longrightarrow> OUTBOUND_CANCEL_FLAGS p call_id = Some a)"

lemma mem_sum_keys: "i < length ws \<Longrightarrow> x \<in># worker_keys (ws ! i) \<Longrightarrow> x \<in># sum_list (map worker_keys ws)"
proof (induction ws arbitrary: i)
  case (Cons w ws)
  then show ?case by (cases i) auto
qed simp

lemma same_id_same_worker:
  assumes "once call_id (outstanding p)" and "i < length (workers p)" "k < length (workers p)"
    and "(call_id, q) \<in># worker_keys (workers p ! i)" "(call_id, q') \<in># worker_keys (workers p ! k)"
  shows "i = k"
proof (rule ccontr)
  assume "i \<noteq> k"
  let ?rest = "sum_list (map worker_keys ((workers p)[i := Idle]))"
  have "(call_id, q') \<in># ?rest"
    using assms(3,5) \<open>i \<noteq> k\<close> by (intro mem_sum_keys [of k]) simp_all
  then have r: "call_id \<in># image_mset fst ?rest" by force
  have "sum_list (map worker_keys (workers p)) = ?rest + worker_keys (workers p ! i)"
    using worker_keys_update [OF assms(2) refl, of Idle] by simp
  then have "count (image_mset fst (outstanding p)) call_id \<ge>
      count (image_mset fst ?rest) call_id + count (image_mset fst (worker_keys (workers p ! i))) call_id"
    by (simp add: outstanding_def)
  moreover have "call_id \<in># image_mset fst (worker_keys (workers p ! i))" using assms(4) by force
  then have "1 \<le> count (image_mset fst (worker_keys (workers p ! i))) call_id" by (simp only: count_greater_eq_one_iff)
  moreover have "1 \<le> count (image_mset fst ?rest) call_id" using r by (simp only: count_greater_eq_one_iff)
  moreover have "count (image_mset fst (outstanding p)) call_id \<le> 1" using assms(1) unfolding once_def .
  ultimately show False by linarith
qed

lemma update_running:
  assumes "ws[i := w] ! k = Running j a" and "k < length ws" and "\<And>j a. w \<noteq> Running j a"
  shows "k \<noteq> i" and "ws ! k = Running j a"
  using assms by (cases "k = i"; simp)+

lemma other_running:
  assumes "once (job_id j) (outstanding p)" and "i < length (workers p)" "job_key j \<in># worker_keys (workers p ! i)"
    and "k \<noteq> i" "k < length (workers p)" "workers p ! k = Running j' b"
  shows "job_id j' \<noteq> job_id j"
  using assms same_id_same_worker [OF assms(1,2,5), of "job_queue j" "job_queue j'"]
  by (auto simp: job_key_def)

lemma pool_step_flagged:
  "pool_step c p p' \<Longrightarrow> once call_id (outstanding p) \<Longrightarrow> flagged call_id p \<Longrightarrow> flagged call_id p'"
proof (induction rule: pool_step.induct)
  case (recv i p j js)
  then show ?case by (auto simp: flagged_def set_worker_def nth_list_update)
next
  case (start i p j a p')
  from start(3) have p': "workers p' = workers p"
    "OUTBOUND_CANCEL_FLAGS p' = (OUTBOUND_CANCEL_FLAGS p)(job_id j \<mapsto> a)" by (auto simp: register_def Let_def)
  have "OUTBOUND_CANCEL_FLAGS p' call_id = Some b"
    if "k < length (workers p)" "(workers p)[i := Running j a] ! k = Running j' b" "job_id j' = call_id" for k j' b
    using that p' start(1,2,4,5) other_running [OF _ start(1), of j k j' b]
    by (cases "k = i") (auto simp: flagged_def)
  with p'(1) show ?case unfolding flagged_def by (auto simp: set_worker_def)
next
  case (finish i p j a n st b tr)
  let ?w = "Finished \<lparr>res_id = job_id j, res_queue = job_queue j, res_status = st, res_body = b\<rparr>"
  have "job_id j \<noteq> call_id \<and> OUTBOUND_CANCEL_FLAGS p call_id = Some b'"
    if "k < length (workers p)" "(workers p)[i := ?w] ! k = Running j' b'" "job_id j' = call_id" for k j' b'
    using that update_running [OF that(2,1)] finish(1,2,4,5) other_running [OF _ finish(1), of j k j' b']
    by (auto simp: flagged_def)
  then show ?case unfolding flagged_def by (auto simp: set_worker_def drop_guard_def)
next
  case (send i p r)
  then show ?case by (auto simp: flagged_def set_worker_def nth_list_update)
qed

section \<open>The work left to the threads\<close>

text \<open>Every step of a thread takes one call one stage further.\<close>

fun stages :: "worker \<Rightarrow> nat" where
  "stages Idle = 0"
| "stages (Received _) = 3"
| "stages (Running _ _) = 2"
| "stages (Finished _) = 1"

definition thread_work :: "pool \<Rightarrow> nat" where
  "thread_work p = 4 * length (job_chan p) + sum_list (map stages (workers p))"

lemma pool_step_work: "pool_step c p p' \<Longrightarrow> thread_work p' < thread_work p"
proof (induction rule: pool_step.induct)
  case (recv i p j js)
  with sum_list_update [OF recv(1), of stages "Received j"] show ?case by (simp add: thread_work_def set_worker_def)
next
  case (start i p j a p')
  with sum_list_update [OF start(1), of stages "Running j a"] show ?case
    by (auto simp: thread_work_def set_worker_def register_def Let_def)
next
  case (finish i p j a n st b tr)
  with sum_list_update [OF finish(1), of stages
      "Finished \<lparr>res_id = job_id j, res_queue = job_queue j, res_status = st, res_body = b\<rparr>"]
  show ?case by (simp add: thread_work_def set_worker_def drop_guard_def)
next
  case (send i p r)
  with sum_list_update [OF send(1), of stages Idle] show ?case by (simp add: thread_work_def set_worker_def)
qed

end
