(* ===== verification/Runtime_Worker.thy ===== *)
theory Runtime_Worker
  imports Procedure_Exec Http_Pool
begin

text \<open>
  The runtime worker (\<open>runtime_worker.rs\<close>): claiming outbound calls from four queues, handing them to
  the HTTP pool, recording results, propagating cancellations, answering dashboard requests, and
  the main loop with its schedule. The loop is a step relation: each phase of an iteration is a step
  of its own, and between any two of them the pool threads may act. \<open>drop_privileges\<close> is in
  \<open>Spi_Session\<close>.
\<close>

section \<open>Transactions of the worker\<close>

definition extension_is_installed :: "db \<Rightarrow> bool spi" where
  "extension_is_installed db =
     transaction db (
       try_bind (get_one_bool db (''SELECT EXISTS (SELECT 1 FROM pg_extension WHERE extname = '' @ [CHR 0x27] @ ''allgres'' @ [CHR 0x27] @ '')'') []) (\<lambda>r.
       io_ok (case r of Inr (Some b) \<Rightarrow> b | _ \<Rightarrow> False)))"

definition report_err :: "string \<Rightarrow> json option result spi \<Rightarrow> unit spi" where
  "report_err what m =
     try_bind m (\<lambda>r. case r of Inl e \<Rightarrow> emit (Warning (''Allgres: '' @ what @ '' failed: '' @ e)) | Inr _ \<Rightarrow> io_ok ())"

definition dispatch_and_claim :: "env \<Rightarrow> db \<Rightarrow> nat \<Rightarrow> json spi" where
  "dispatch_and_claim env db limit =
     transaction db (
       try_bind (drop_privileges env db) (\<lambda>dropped.
         if \<not> dropped then io_ok (no_jobs ''calls'')
         else
           try_bind (report_err ''fn_watchdog''
             (get_one_json db ''SELECT allgres_public.fn_watchdog($1)'' [DInt (as_i32 (int (HTTP_TIMEOUT div 1000)) * 2)])) (\<lambda>_.
           try_bind (report_err ''fn_dispatch_tasks''
             (get_one_json db ''SELECT allgres_public.fn_dispatch_tasks()'' [])) (\<lambda>_.
           try_bind (get_one_json db ''SELECT allgres_public.fn_claim_outbound($1)'' [DInt (as_i32 (int limit))]) (\<lambda>r.
           io_ok (case r of Inr (Some v) \<Rightarrow> v | _ \<Rightarrow> no_jobs ''calls''))))))"

definition claim_oauth_jobs :: "env \<Rightarrow> db \<Rightarrow> int \<Rightarrow> json spi" where
  "claim_oauth_jobs env db limit = claim env db ''SELECT allgres_public.fn_claim_oauth($1)'' ''calls'' limit"

definition claim_agent_embedding_jobs :: "env \<Rightarrow> db \<Rightarrow> int \<Rightarrow> json spi" where
  "claim_agent_embedding_jobs env db limit = claim env db ''SELECT allgres_public.fn_claim_agent_embedding($1)'' ''calls'' limit"

definition claim_provider_probe_jobs :: "env \<Rightarrow> db \<Rightarrow> int \<Rightarrow> json spi" where
  "claim_provider_probe_jobs env db limit = claim env db ''SELECT allgres_public.fn_claim_provider_probe($1)'' ''calls'' limit"

text \<open>PostgreSQL text holds no NUL; the rest is cut at a character boundary.\<close>

definition stored_body :: "string \<Rightarrow> string" where
  "stored_body body = truncate_utf8 (filter (\<lambda>c. c \<noteq> CHR 0x00) body) MAX_RESPONSE_BYTES"

definition result_row :: "string \<Rightarrow> int \<Rightarrow> string \<Rightarrow> datum list" where
  "result_row call_id st body = [DText call_id, DInt st, DText (stored_body body)]"

definition submit_http_result :: "string \<Rightarrow> int \<Rightarrow> string \<Rightarrow> env \<Rightarrow> db \<Rightarrow> unit spi" where
  "submit_http_result call_id st body env db =
     complete_row env db
       (get_one_json db ''SELECT allgres_public.fn_complete_outbound($1::uuid, $2, $3)'' (result_row call_id st body))
       ''fn_complete_outbound'' (''call '' @ call_id)"

definition submit_oauth_result :: "string \<Rightarrow> int \<Rightarrow> string \<Rightarrow> env \<Rightarrow> db \<Rightarrow> unit spi" where
  "submit_oauth_result call_id st body env db =
     complete_row env db
       (get_one_json db ''SELECT allgres_public.fn_complete_oauth($1::uuid, $2, $3)'' (result_row call_id st body))
       ''fn_complete_oauth'' (''call '' @ call_id)"

definition submit_agent_embedding_result :: "string \<Rightarrow> int \<Rightarrow> string \<Rightarrow> env \<Rightarrow> db \<Rightarrow> unit spi" where
  "submit_agent_embedding_result call_id st body env db =
     complete_row env db
       (get_one_json db ''SELECT allgres_public.fn_complete_agent_embedding($1::uuid, $2, $3)'' (result_row call_id st body))
       ''fn_complete_agent_embedding'' (''call '' @ call_id)"

definition submit_provider_probe_result :: "string \<Rightarrow> int \<Rightarrow> string \<Rightarrow> env \<Rightarrow> db \<Rightarrow> unit spi" where
  "submit_provider_probe_result call_id st body env db =
     complete_row env db
       (get_one_json db ''SELECT allgres_public.fn_complete_provider_probe($1::uuid, $2, $3)'' (result_row call_id st body))
       ''fn_complete_provider_probe'' (''call '' @ call_id)"

definition dashboard_rpc :: "codec \<Rightarrow> env \<Rightarrow> db \<Rightarrow> string \<Rightarrow> string spi" where
  "dashboard_rpc c env db request =
     transaction db (
       try_bind (drop_privileges env db) (\<lambda>dropped.
         if \<not> dropped then io_ok (rpc_error c ''privilege_drop_failed'')
         else
           try_bind (get_one_json db ''SELECT allgres.dashboard_rpc($1::jsonb)'' [DText request]) (\<lambda>r.
           io_ok (case r of Inr (Some v) \<Rightarrow> to_str c v | _ \<Rightarrow> rpc_error c ''empty_rpc_result''))))"

section \<open>Cancellation\<close>

text \<open>
  \<open>propagate_outbound_cancellations\<close>: \<open>ids\<close> are the keys of the flag map in the order of iteration; the
  database says which of them are lost; their flags, where still present, are set.
\<close>

definition check_lost :: "env \<Rightarrow> db \<Rightarrow> string list \<Rightarrow> string list spi" where
  "check_lost env db ids =
     (if ids = [] then io_ok []
      else
        transaction db (
          try_bind (drop_privileges env db) (\<lambda>dropped.
            if \<not> dropped then io_ok []
            else
              try_bind (get_one_json db ''SELECT to_jsonb(allgres_public.fn_check_lost_outbound($1::text[]::uuid[]))'' [DTexts ids]) (\<lambda>r.
              io_ok (case r of
                       Inr (Some v) \<Rightarrow> (case as_array v of Some a \<Rightarrow> List.map_filter as_str a | None \<Rightarrow> [])
                     | _ \<Rightarrow> [])))))"

primrec set_flags :: "string list \<Rightarrow> pool \<Rightarrow> pool" where
  "set_flags [] p = p"
| "set_flags (call_id # lost) p =
     set_flags lost
       (case OUTBOUND_CANCEL_FLAGS p call_id of
          Some flag \<Rightarrow> p\<lparr>cells := (cells p)(flag := True)\<rparr>
        | None \<Rightarrow> p)"

section \<open>The queues\<close>

definition capacity :: nat where
  "capacity = HTTP_THREADS * 2"

definition claim_queue :: "env \<Rightarrow> db \<Rightarrow> OutboundQueue \<Rightarrow> nat \<Rightarrow> json spi" where
  "claim_queue env db q spare =
     (case q of
        Outbound \<Rightarrow> dispatch_and_claim env db spare
      | Oauth \<Rightarrow> claim_oauth_jobs env db (as_i32 (int spare))
      | AgentEmbedding \<Rightarrow> claim_agent_embedding_jobs env db (as_i32 (int spare))
      | ProviderProbe \<Rightarrow> claim_provider_probe_jobs env db (as_i32 (int spare)))"

fun insert_kind :: "string \<Rightarrow> json \<Rightarrow> json" where
  "insert_kind kind (JObject m) = JObject (obj_insert ''kind'' (JString kind) m)"
| "insert_kind kind v = v"

definition tagged :: "OutboundQueue \<Rightarrow> json \<Rightarrow> json" where
  "tagged q v =
     (case q of
        Outbound \<Rightarrow> v
      | Oauth \<Rightarrow> insert_kind ''oauth'' v
      | AgentEmbedding \<Rightarrow> insert_kind ''embedding'' v
      | ProviderProbe \<Rightarrow> insert_kind ''function'' v)"

definition job_of :: "OutboundQueue \<Rightarrow> json \<Rightarrow> OutboundJob option" where
  "job_of q v =
     (case get_str ''call_id'' v of
        None \<Rightarrow> None
      | Some call_id \<Rightarrow>
          if \<not> valid_uuid call_id then None else Some \<lparr>job_id = call_id, job_queue = q, job_call = tagged q v\<rparr>)"

text \<open>Handing claimed calls to the pool: the pool, \<open>in_flight\<close> and \<open>queued\<close>; a failed send ends the loop.\<close>

fun enqueue :: "OutboundQueue \<Rightarrow> json list \<Rightarrow> pool \<Rightarrow> nat \<Rightarrow> nat \<Rightarrow> pool \<times> nat \<times> nat" where
  "enqueue q [] p n k = (p, n, k)"
| "enqueue q (v # vs) p n k =
     (case job_of q v of
        None \<Rightarrow> enqueue q vs p n k
      | Some j \<Rightarrow>
          (case send_job j p of
             None \<Rightarrow> (p, n, k)
           | Some p \<Rightarrow> enqueue q vs p (n + 1) (k + 1)))"

definition calls_of :: "json \<Rightarrow> json list" where
  "calls_of claimed = (case get_array ''calls'' claimed of Some calls \<Rightarrow> calls | None \<Rightarrow> [])"

definition complete_result :: "env \<Rightarrow> db \<Rightarrow> OutboundResult \<Rightarrow> unit spi" where
  "complete_result env db r =
     (case res_queue r of
        Outbound \<Rightarrow> submit_http_result (res_id r) (res_status r) (res_body r) env db
      | Oauth \<Rightarrow> submit_oauth_result (res_id r) (res_status r) (res_body r) env db
      | AgentEmbedding \<Rightarrow> submit_agent_embedding_result (res_id r) (res_status r) (res_body r) env db
      | ProviderProbe \<Rightarrow> submit_provider_probe_result (res_id r) (res_status r) (res_body r) env db)"

text \<open>The pumps that run on the worker's own thread; the result is how many jobs they processed.\<close>

definition run_pumps :: "(event list \<Rightarrow> nat option) \<Rightarrow> env \<Rightarrow> db \<Rightarrow> bool \<Rightarrow> nat spi" where
  "run_pumps wall env db ready =
     (if \<not> ready then io_ok 0
      else
        try_bind (pump_sql env db) (\<lambda>sql_ran.
        try_bind (pump_function_builds wall env db) (\<lambda>fb.
        try_bind (pump_function_calls env db) (\<lambda>fc.
        try_bind (pump_procedure_builds wall env db) (\<lambda>pb.
        try_bind (pump_procedure_calls env db) (\<lambda>pc.
        io_ok (sql_ran + (fb + fc) + (pb + pc))))))))"

section \<open>The main loop\<close>

datatype phase =
    Wait | Rpc | Harvest | Cancel | Lost "string list" | Pump | Claim OutboundQueue nat | Execute nat
  | Stopped | Crashed string

record system =
  phase :: phase
  in_flight :: nat
  ready :: bool
  next_pump :: nat
  idle_delay :: nat
  session :: "event list"
  http :: pool

text \<open>The state before the loop; \<open>bound\<close> says whether the RPC socket could be bound and made non-blocking.\<close>

definition allgres_runtime_main :: "bool \<Rightarrow> (nat \<Rightarrow> bool) \<Rightarrow> nat \<Rightarrow> system" where
  "allgres_runtime_main bound spawned now =
     \<lparr>phase = (if bound then Wait else Stopped), in_flight = 0, ready = False, next_pump = now, idle_delay = PUMP_IDLE_MIN,
      session = [], http = spawn_http_pool HTTP_THREADS spawned\<rparr>"

text \<open>A dashboard request inside \<open>handle_rpc_stream\<close>: the second component keeps an error that unwinds.\<close>

definition rpc_call :: "codec \<Rightarrow> env \<Rightarrow> db \<Rightarrow> string \<Rightarrow> event list \<times> string option \<Rightarrow> string \<times> (event list \<times> string option)" where
  "rpc_call c env db request s =
     (case dashboard_rpc c env db request (fst s) of
        (Inr out, tr) \<Rightarrow> (out, (tr, None))
      | (Inl e, tr) \<Rightarrow> ([], (tr, Some e)))"

fun after_claim :: "OutboundQueue \<Rightarrow> nat \<Rightarrow> phase" where
  "after_claim Outbound k = Claim Oauth k"
| "after_claim Oauth k = Claim AgentEmbedding k"
| "after_claim AgentEmbedding k = Claim ProviderProbe k"
| "after_claim ProviderProbe k = Execute k"

definition schedule :: "nat \<Rightarrow> nat \<Rightarrow> system \<Rightarrow> system" where
  "schedule now work s =
     (if 0 < work then s\<lparr>idle_delay := PUMP_IDLE_MIN, next_pump := now + PUMP_BUSY\<rparr>
      else s\<lparr>next_pump := now + idle_delay s, idle_delay := min (idle_delay s * 2) PUMP_IDLE_MAX\<rparr>)"

inductive sys_step :: "codec \<Rightarrow> env \<Rightarrow> db \<Rightarrow> (event list \<Rightarrow> nat option) \<Rightarrow> system \<Rightarrow> system \<Rightarrow> bool"
  for c env db wall where
  thread: "pool_step c (http s) p \<Longrightarrow> sys_step c env db wall s (s\<lparr>http := p\<rparr>)"
| wake: "phase s = Wait \<Longrightarrow> sys_step c env db wall s (s\<lparr>phase := Rpc\<rparr>)"
| stop: "phase s = Wait \<Longrightarrow> sys_step c env db wall s (s\<lparr>phase := Stopped\<rparr>)"
| rpc: "phase s = Rpc \<Longrightarrow>
    handle_rpc_stream c (rpc_call c env db) (ready s) incoming (session s, None) = (out, (tr, crash)) \<Longrightarrow>
    sys_step c env db wall s
      (s\<lparr>session := tr, phase := (case crash of None \<Rightarrow> Rpc | Some e \<Rightarrow> Crashed e)\<rparr>)"
| rpc_done: "phase s = Rpc \<Longrightarrow> warnings \<in> {[], [Warning w]} \<Longrightarrow>
    sys_step c env db wall s (s\<lparr>phase := Harvest, session := session s @ warnings\<rparr>)"
| harvest: "phase s = Harvest \<Longrightarrow> try_recv (http s) = Some (r, p) \<Longrightarrow>
    complete_result env db r (session s) = (x, tr) \<Longrightarrow>
    sys_step c env db wall s
      (s\<lparr>http := p, in_flight := in_flight s - 1, session := tr,
         phase := (case x of Inr _ \<Rightarrow> Harvest | Inl e \<Rightarrow> Crashed e)\<rparr>)"
| harvested: "phase s = Harvest \<Longrightarrow> try_recv (http s) = None \<Longrightarrow>
    sys_step c env db wall s (s\<lparr>phase := Cancel\<rparr>)"
| ask_lost: "phase s = Cancel \<Longrightarrow> distinct ids \<Longrightarrow> set ids = dom (OUTBOUND_CANCEL_FLAGS (http s)) \<Longrightarrow>
    check_lost env db ids (session s) = (x, tr) \<Longrightarrow>
    sys_step c env db wall s
      (s\<lparr>session := tr, phase := (case x of Inr lost \<Rightarrow> Lost lost | Inl e \<Rightarrow> Crashed e)\<rparr>)"
| set_lost: "phase s = Lost lost \<Longrightarrow>
    sys_step c env db wall s (s\<lparr>http := set_flags lost (http s), phase := Pump\<rparr>)"
| not_yet: "phase s = Pump \<Longrightarrow> now < next_pump s \<Longrightarrow> sys_step c env db wall s (s\<lparr>phase := Wait\<rparr>)"
| check_ready: "phase s = Pump \<Longrightarrow> next_pump s \<le> now \<Longrightarrow> extension_is_installed db (session s) = (x, tr) \<Longrightarrow>
    sys_step c env db wall s
      (case x of
         Inr b \<Rightarrow> s\<lparr>session := tr, ready := b, phase := Claim Outbound 0\<rparr>
       | Inl e \<Rightarrow> s\<lparr>session := tr, phase := Crashed e\<rparr>)"
| no_claim: "phase s = Claim q k \<Longrightarrow> \<not> (ready s \<and> in_flight s < capacity) \<Longrightarrow>
    sys_step c env db wall s (s\<lparr>phase := after_claim q k\<rparr>)"
| claims: "phase s = Claim q k \<Longrightarrow> ready s \<Longrightarrow> in_flight s < capacity \<Longrightarrow>
    claim_queue env db q (capacity - in_flight s) (session s) = (Inr claimed, tr) \<Longrightarrow>
    enqueue q (calls_of claimed) (http s) (in_flight s) k = (p, n, k') \<Longrightarrow>
    sys_step c env db wall s (s\<lparr>session := tr, http := p, in_flight := n, phase := after_claim q k'\<rparr>)"
| claim_crash: "phase s = Claim q k \<Longrightarrow> ready s \<Longrightarrow> in_flight s < capacity \<Longrightarrow>
    claim_queue env db q (capacity - in_flight s) (session s) = (Inl e, tr) \<Longrightarrow>
    sys_step c env db wall s (s\<lparr>session := tr, phase := Crashed e\<rparr>)"
| execute: "phase s = Execute k \<Longrightarrow> run_pumps wall env db (ready s) (session s) = (x, tr) \<Longrightarrow>
    sys_step c env db wall s
      (case x of
         Inr processed \<Rightarrow> schedule now (k + processed) (s\<lparr>session := tr, phase := Wait\<rparr>)
       | Inl e \<Rightarrow> s\<lparr>session := tr, phase := Crashed e\<rparr>)"

abbreviation reachable :: "codec \<Rightarrow> env \<Rightarrow> db \<Rightarrow> (event list \<Rightarrow> nat option) \<Rightarrow> system \<Rightarrow> bool" where
  "reachable c env db wall s \<equiv>
     \<exists>bound spawned now. (sys_step c env db wall)\<^sup>*\<^sup>* (allgres_runtime_main bound spawned now) s"

end
