(* ===== verification/Dashboard_Path.thy ===== *)
theory Dashboard_Path
  imports Web_Server Runtime_Worker
begin

text \<open>
  The path of a dashboard request through both workers: the web worker's handler (\<open>web.rs\<close>) writes the
  request to the private socket, the runtime worker reads it (\<open>rpc.rs\<close>), runs the statement that
  serves it (\<open>dashboard_rpc\<close> of \<open>runtime_worker.rs\<close>) and writes the answer back.
\<close>

section \<open>The two ends of the socket\<close>

abbreviation dashboard_stmt :: string where
  "dashboard_stmt \<equiv> ''SELECT allgres.dashboard_rpc($1::jsonb)''"

text \<open>
  What a request written to the socket meets when the runtime worker's session stands at \<open>tr\<close>: the reply
  and the session afterwards. An error that unwinds closes the connection without a reply.
\<close>

definition serve_socket ::
    "codec \<Rightarrow> env \<Rightarrow> db \<Rightarrow> bool \<Rightarrow> event list \<Rightarrow> string \<Rightarrow> rpc_io \<times> event list" where
  "serve_socket c env db installed tr request =
     (let (out, tr', _) = handle_rpc_stream c (rpc_call c env db) installed (Some request) (tr, None) in (Reply out, tr'))"

section \<open>The statement behind a request\<close>

lemma dashboard_rpc_trace:
  assumes "dashboard_rpc c env db t tr = (x, tr')"
  shows "(\<exists>a post. tr' = tr @ (StartTransaction # privilege_drop env) @ Exec dashboard_stmt [DText t] a # post
            \<and> post \<in> {[], [CommitTransaction]})
       \<or> (\<exists>w post. tr' = tr @ StartTransaction # w @ post \<and> only {(assume_worker_role, [])} w
            \<and> post \<in> {[], [CommitTransaction]})"
proof -
  let ?stmt = "try_bind (get_one_json db dashboard_stmt [DText t]) (\<lambda>r.
      io_ok (case r of Inr (Some v) \<Rightarrow> to_str c v | _ \<Rightarrow> rpc_error c ''empty_rpc_result''))"
  let ?body = "try_bind (drop_privileges env db) (\<lambda>dropped.
      if \<not> dropped then io_ok (rpc_error c ''privilege_drop_failed'') else ?stmt)"
  from assms have "transaction db ?body tr = (x, tr')" by (simp only: dashboard_rpc_def)
  then obtain y tr1 post where y: "?body (tr @ [StartTransaction]) = (y, tr1)" and post: "tr' = tr1 @ post" "closes db tr1 y x post"
    by (rule transaction_trace)
  note post = closes_commit [OF post(2)] post(1)
  obtain d tr2 where d: "drop_privileges env db (tr @ [StartTransaction]) = (d, tr2)" by fastforce
  then obtain n where n: "tr2 = (tr @ [StartTransaction]) @ n" "only {(assume_worker_role, [])} n"
    "d = Inr True \<longrightarrow> n = privilege_drop env" by (rule drop_privileges_trace)
  show ?thesis
  proof (cases "d = Inr True")
    case True
    obtain z tr3 where z: "get_one_json db dashboard_stmt [DText t] tr2 = (z, tr3)" by fastforce
    then obtain a where "tr3 = tr2 @ [Exec dashboard_stmt [DText t] a]"
      unfolding get_one_json_def by (rule spi_call_trace)
    moreover from y d True z have "tr1 = tr3" by (auto simp: try_bind_def io_ok_def split: sum.splits)
    ultimately show ?thesis using n True post by (intro disjI1 exI [of _ a] exI [of _ post]) simp
  next
    case False
    with y d have "tr1 = tr2" by (cases d) (auto simp: try_bind_def io_ok_def)
    with n post show ?thesis by (intro disjI2 exI [of _ n] exI [of _ post]) simp
  qed
qed

lemma rpc_stream_statement:
  assumes "handle_rpc_stream c (rpc_call c env db) installed inc (tr, None) = (out, tr @ pre @ Exec dashboard_stmt args a # post, crash)"
  shows "installed \<and> pre = StartTransaction # privilege_drop env \<and> post \<in> {[], [CommitTransaction]}
    \<and> (\<exists>bytes. inc = Some bytes \<and> args = [DText (take MAX_REQUEST_BYTES bytes)]
        \<and> utf8_valid (take MAX_REQUEST_BYTES bytes) \<and> from_str c (take MAX_REQUEST_BYTES bytes) \<noteq> None)"
proof -
  from assms obtain bytes where i: "inc = Some bytes" "installed" "utf8_valid (take MAX_REQUEST_BYTES bytes)"
      "from_str c (take MAX_REQUEST_BYTES bytes) \<noteq> None"
    and e: "rpc_call c env db (take MAX_REQUEST_BYTES bytes) (tr, None) = (out, tr @ pre @ Exec dashboard_stmt args a # post, crash)"
    by (auto simp: handle_rpc_stream_def Let_def split: option.splits if_splits)
  let ?t = "take MAX_REQUEST_BYTES bytes"
  from e obtain x where "dashboard_rpc c env db ?t tr = (x, tr @ pre @ Exec dashboard_stmt args a # post)"
    by (auto simp: rpc_call_def split: prod.splits sum.splits)
  from dashboard_rpc_trace [OF this]
  have "pre = StartTransaction # privilege_drop env \<and> args = [DText ?t] \<and> post \<in> {[], [CommitTransaction]}"
  proof (elim disjE exE conjE)
    fix a' p
    assume "tr @ pre @ Exec dashboard_stmt args a # post
        = tr @ (StartTransaction # privilege_drop env) @ Exec dashboard_stmt [DText ?t] a' # p" "p \<in> {[], [CommitTransaction]}"
    then show ?thesis
      by (cases "env ''ALLGRES_DROP_PRIVILEGES'' = Some ''0''")
        (auto simp: privilege_drop_def append_eq_Cons_conv assume_worker_role_def)
  next
    fix w p
    assume e: "tr @ pre @ Exec dashboard_stmt args a # post = tr @ StartTransaction # w @ p"
      and w: "only {(assume_worker_role, [])} w" "p \<in> {[], [CommitTransaction]}"
    have "Exec dashboard_stmt args a \<in> set (pre @ Exec dashboard_stmt args a # post)" by simp
    also have "pre @ Exec dashboard_stmt args a # post = StartTransaction # w @ p" using e by (simp only: same_append_eq)
    finally have "Exec dashboard_stmt args a \<in> set (StartTransaction # w @ p)" .
    with w(2) have "Exec dashboard_stmt args a \<in> set w" by auto
    with only_quiet [OF w(1)] executed_mem [of dashboard_stmt args a w] show ?thesis by (auto simp: assume_worker_role_def)
  qed
  with i show ?thesis by blast
qed

section \<open>A sample request\<close>

text \<open>A status request, and a database whose dashboard function answers \<open>{"ok": true}\<close>.\<close>

definition status_request :: http_request where
  "status_request =
     \<lparr>req_method = ''GET'', path = ''/api/v1/status'',
      headers = [(''x-allgres-client'', ''1''), (''content-length'', ''0'')], body = []\<rparr>"

definition overview :: json where
  "overview = jobj [(''action'', JString ''overview''), (''session_token'', JNull)]"

definition fine :: json where
  "fine = jobj [(''ok'', JBool True)]"

definition path_codec :: codec where
  "path_codec =
     \<lparr>from_str = (\<lambda>t. if t = ''q'' then Some overview else if t = ''v'' then Some fine else None),
      to_str = (\<lambda>x. if x = overview then ''q'' else ''v'')\<rparr>"

definition path_db :: db where
  "path_db = obliging_db\<lparr>one_json := (\<lambda>_ _ _. SpiOk (Some fine))\<rparr>"

definition path_conn :: conn where
  "path_conn = (sample_conn status_request)\<lparr>runtime := (\<lambda>_ request. fst (serve_socket path_codec (\<lambda>_. None) path_db True [] request))\<rparr>"

lemma status_dispatch: "api_dispatch c status_request = Done (Forward overview)"
proof -
  have "route status_request = ''/api/v1/status''" "header status_request ''x-allgres-session'' = None" by code_simp+
  then show ?thesis
    by (simp add: api_dispatch_def Let_def with_session_def opt_json_def overview_def status_request_def)
qed

lemma path_codec_facts:
  "to_str path_codec overview = ''q''" "from_str path_codec ''q'' = Some overview"
  "to_str path_codec fine = ''v''" "from_str path_codec ''v'' = Some fine"
proof -
  have "overview \<noteq> fine" by code_simp
  then show "to_str path_codec overview = ''q''" "from_str path_codec ''q'' = Some overview"
    "to_str path_codec fine = ''v''" "from_str path_codec ''v'' = Some fine"
    by (auto simp: path_codec_def)
qed

lemma path_drop:
  "drop_privileges (\<lambda>_. None) path_db tr = (Inr True, tr @ privilege_drop (\<lambda>_. None))"
  by (simp add: drop_privileges_def path_db_def obliging_db_def get_one_bool_def spi_call_def try_bind_def io_ok_def privilege_drop_def)

lemma path_forwarded:
  "\<exists>eff st'. handle_web_connection path_codec [] open_config path_conn (shared initial_server) = (eff, st') \<and> forwarded eff = [overview]"
proof -
  have r: "read_http_request 0 (\<lambda>k. (k, Some (print_request status_request))) = Some status_request"
    by (rule read_one_chunk; simp add: sample_defs status_request_def)
  have a: "csrf_ok status_request" "route status_request = ''/api/v1/status''" by code_simp+
  have "forwarded (serve_api path_codec path_conn status_request) = [overview]"
    by (simp add: serve_api_def api_route_def status_dispatch)
  with r a show ?thesis
    by (simp add: handle_web_connection_def path_conn_def sample_conn_def limited_def rate_limited_def rate_check_def
        serve_guarded_def locked_out_def auth_failures_exceeded_def authorized_def open_config_def serve_route_def
        initial_server_def no_windows_def hits_of_def RATE_GENERAL_LIMIT_def RATE_AUTH_FAIL_LIMIT_def mock_routes_def Let_def split_def status_request_def)
qed

lemma path_stream:
  "handle_rpc_stream path_codec (rpc_call path_codec (\<lambda>_. None) path_db) True (Some (to_str path_codec overview)) ([], None)
     = (''v'', [] @ (StartTransaction # privilege_drop (\<lambda>_. None))
         @ Exec dashboard_stmt [DText ''q''] (Spi_Session.Answer (DJson fine)) # [CommitTransaction], None)"
proof -
  have "utf8_valid ''q''" by code_simp
  then show ?thesis
    by (simp add: handle_rpc_stream_def path_codec_facts MAX_REQUEST_BYTES_def rpc_call_def dashboard_rpc_def transaction_def
        try_bind_def spi_simps io_ok_def path_drop get_one_json_def spi_call_def)
      (simp add: path_db_def obliging_db_def path_codec_facts try_bind_def spi_simps io_ok_def)
qed

section \<open>Properties\<close>

text \<open>
  C6. A dashboard request reaches the database through both guards: when a request that a web connection
  forwarded makes the runtime worker issue its statement, the connection carried a request that was
  admitted (cross-origin check, lock-out, token or ticket), the extension is installed, the statement
  runs in a transaction of its own right after the privilege drop (which \<open>ALLGRES_DROP_PRIVILEGES=0\<close>
  makes empty), and its argument is the text of the forwarded request, which is UTF-8, parses as JSON and was cut at \<open>MAX_REQUEST_BYTES\<close>.
\<close>

theorem dashboard_statement_guarded:
  assumes "handle_web_connection c html cfg k st = (eff, st')" and "q \<in> set (forwarded eff)"
    and "handle_rpc_stream c (rpc_call c env db) installed (Some (to_str c q)) (tr, None)
      = (out, tr @ pre @ Exec dashboard_stmt args a # post, crash)"
  shows "(\<exists>r. read_http_request (start_now k) (incoming k) = Some r \<and> prefix ''/api/v1/'' (route r)
      \<and> admitted_request cfg k r (snd (limited k st)))
    \<and> (\<exists>act. get_str ''action'' q = Some act)
    \<and> installed \<and> pre = StartTransaction # privilege_drop env \<and> post \<in> {[], [CommitTransaction]}
    \<and> (\<exists>t. args = [DText t] \<and> t = take MAX_REQUEST_BYTES (to_str c q) \<and> utf8_valid t \<and> from_str c t \<noteq> None)"
proof -
  from assms(2) have "forwarded eff \<noteq> [] \<or> panicked eff" by auto
  from forwarded_admitted [OF assms(1) this] assms(2) rpc_stream_statement [OF assms(3)] show ?thesis by auto
qed

theorem dashboard_statement_guarded_witness:
  "\<exists>r. read_http_request (start_now path_conn) (incoming path_conn) = Some r
     \<and> admitted_request open_config path_conn r (snd (limited path_conn (shared initial_server)))"
proof -
  obtain eff st' where h: "handle_web_connection path_codec [] open_config path_conn (shared initial_server) = (eff, st')"
    and q: "overview \<in> set (forwarded eff)" using path_forwarded by fastforce
  from dashboard_statement_guarded [OF h q path_stream] show ?thesis by blast
qed

text \<open>
  C22. The path of a dashboard request is transparent: when the web worker dispatches a request as \<open>q\<close>,
  its text survives the JSON codec and fits the limit, the privilege drop lands and the database
  answers the dashboard statement with \<open>v\<close> and commits, then the client receives exactly the text of \<open>v\<close>, with
  status 400 when \<open>v\<close> says \<open>ok: false\<close> and 200 otherwise; and all the session sees of it is one
  committed transaction with the privilege drop and the statement.
\<close>

theorem dashboard_round_trip:
  assumes "api_dispatch c r = Done (Forward q)"
    and "utf8_valid (to_str c q)" "from_str c (to_str c q) = Some q" "length (to_str c q) \<le> MAX_REQUEST_BYTES"
    and "utf8_valid (to_str c v)" "from_str c (to_str c v) = Some v"
    and "drop_privileges env db (tr @ [StartTransaction]) = (Inr True, tr @ StartTransaction # privilege_drop env)"
    and "one_json db (tr @ StartTransaction # privilege_drop env) dashboard_stmt [DText (to_str c q)] = SpiOk (Some v)"
    and "commit_error db (tr @ StartTransaction # privilege_drop env
      @ [Exec dashboard_stmt [DText (to_str c q)] (Spi_Session.Answer (DJson v))]) = None"
    and "runtime k 0 = (\<lambda>request. fst (serve_socket c env db True tr request))"
  shows "serve_api c k r =
      \<lparr>written = respond_json (if get_bool ''ok'' v = Some False then ''400 Bad Request'' else ''200 OK'') (to_str c v),
       forwarded = [q], panicked = False\<rparr>
    \<and> snd (serve_socket c env db True tr (to_str c q)) =
        tr @ StartTransaction # privilege_drop env
          @ [Exec dashboard_stmt [DText (to_str c q)] (Spi_Session.Answer (DJson v)), CommitTransaction]"
proof -
  have "dashboard_rpc c env db (to_str c q) tr = (Inr (to_str c v), tr @ StartTransaction # privilege_drop env
      @ [Exec dashboard_stmt [DText (to_str c q)] (Spi_Session.Answer (DJson v)), CommitTransaction])"
    using assms(7-9)
    by (simp add: dashboard_rpc_def transaction_def try_bind_def spi_simps io_ok_def get_one_json_def spi_call_def)
  with assms(2-4) have s: "serve_socket c env db True tr (to_str c q) = (Reply (to_str c v), tr @ StartTransaction # privilege_drop env
      @ [Exec dashboard_stmt [DText (to_str c q)] (Spi_Session.Answer (DJson v)), CommitTransaction])"
    by (simp add: serve_socket_def handle_rpc_stream_def rpc_call_def)
  then have "Web_Server.rpc c (runtime k 0) q = v"
    using assms(5,6,10) by (simp add: Web_Server.rpc_def)
  with assms(1) s show ?thesis by (simp add: serve_api_def api_route_def)
qed

theorem dashboard_round_trip_witness:
  "written (serve_api path_codec path_conn status_request) = respond_json ''200 OK'' ''v''"
proof -
  have "utf8_valid ''q''" "utf8_valid ''v''" by code_simp+
  moreover have "get_bool ''ok'' fine = Some True" by code_simp
  moreover have "runtime path_conn 0 = (\<lambda>request. fst (serve_socket path_codec (\<lambda>_. None) path_db True [] request))"
    by (simp add: path_conn_def)
  ultimately show ?thesis
    using dashboard_round_trip [OF status_dispatch, of path_codec fine "\<lambda>_. None" path_db "[]" path_conn] path_drop [of "[StartTransaction]"]
    by (simp add: path_codec_facts path_db_def obliging_db_def MAX_REQUEST_BYTES_def)
qed

end
