(* ===== verification/Runtime_Trace.thy ===== *)
theory Runtime_Trace
  imports Runtime_Worker
begin

text \<open>
  What the transactions of the runtime worker leave in the trace of the session: which calls a claim
  hands out, which completions are recorded, and that no other transaction of the worker does either.
  The four completion functions of HTTP calls are instances of \<open>completion\<close>.
\<close>

section \<open>What the trace says about calls\<close>

fun claim_stmt :: "OutboundQueue \<Rightarrow> string" where
  "claim_stmt Outbound = ''SELECT allgres_public.fn_claim_outbound($1)''"
| "claim_stmt Oauth = ''SELECT allgres_public.fn_claim_oauth($1)''"
| "claim_stmt AgentEmbedding = ''SELECT allgres_public.fn_claim_agent_embedding($1)''"
| "claim_stmt ProviderProbe = ''SELECT allgres_public.fn_claim_provider_probe($1)''"

fun complete_stmt :: "OutboundQueue \<Rightarrow> string" where
  "complete_stmt Outbound = ''SELECT allgres_public.fn_complete_outbound($1::uuid, $2, $3)''"
| "complete_stmt Oauth = ''SELECT allgres_public.fn_complete_oauth($1::uuid, $2, $3)''"
| "complete_stmt AgentEmbedding = ''SELECT allgres_public.fn_complete_agent_embedding($1::uuid, $2, $3)''"
| "complete_stmt ProviderProbe = ''SELECT allgres_public.fn_complete_provider_probe($1::uuid, $2, $3)''"

definition queues :: "OutboundQueue list" where
  "queues = [Outbound, Oauth, AgentEmbedding, ProviderProbe]"

definition call_stmts :: "string set" where
  "call_stmts = set (map claim_stmt queues) \<union> set (map complete_stmt queues)"

text \<open>The calls of a claim's answer that are handed out, and the calls a trace hands out and records.\<close>

definition handed_by :: "OutboundQueue \<Rightarrow> json \<Rightarrow> ticket_id multiset" where
  "handed_by q claimed = mset (map job_key (List.map_filter (job_of q) (calls_of claimed)))"

fun ev_handed :: "event \<Rightarrow> ticket_id multiset" where
  "ev_handed (Exec sql args (Answer (DJson v))) =
     sum_list (map (\<lambda>q. handed_by q v) (filter (\<lambda>q. claim_stmt q = sql) queues))"
| "ev_handed _ = {#}"

fun ev_recorded :: "event \<Rightarrow> ticket_id multiset" where
  "ev_recorded (Exec sql (DText call_id # args) a) =
     mset (map (\<lambda>q. (call_id, q)) (filter (\<lambda>q. complete_stmt q = sql) queues))"
| "ev_recorded _ = {#}"

definition handed_out :: "event list \<Rightarrow> ticket_id multiset" where
  "handed_out tr = sum_list (map ev_handed tr)"

definition recorded :: "event list \<Rightarrow> ticket_id multiset" where
  "recorded tr = sum_list (map ev_recorded tr)"

lemma avoids_silent:
  assumes "list_all (avoids call_stmts) new"
  shows "handed_out (tr @ new) = handed_out tr" "recorded (tr @ new) = recorded tr"
proof -
  have e: "ev_handed e = {#} \<and> ev_recorded e = {#}" if "avoids call_stmts e" for e
  proof (cases e)
    case (Exec sql args a)
    with that have n: "filter (\<lambda>q. claim_stmt q = sql) queues = []" "filter (\<lambda>q. complete_stmt q = sql) queues = []"
      by (auto simp: filter_empty_conv call_stmts_def)
    have "ev_handed (Exec sql args a) = {#}"
    proof (cases a)
      case (Answer d)
      then show ?thesis by (cases d) (simp_all add: n)
    qed simp_all
    moreover have "ev_recorded (Exec sql args a) = {#}"
    proof (cases args)
      case (Cons d ds)
      then show ?thesis by (cases d) (simp_all add: n)
    qed simp
    ultimately show ?thesis using Exec by simp
  qed simp_all
  from assms e have "sum_list (map ev_handed new) = {#}" "sum_list (map ev_recorded new) = {#}"
    by (induction new) auto
  then show "handed_out (tr @ new) = handed_out tr" "recorded (tr @ new) = recorded tr"
    by (simp_all add: handed_out_def recorded_def)
qed

text \<open>Everything else the worker runs leaves these statements alone.\<close>

lemmas call_stmts_simps = call_stmts_def queues_def

lemma worker_role_no_call [simp]: "assume_worker_role \<notin> call_stmts"
  by (simp add: call_stmts_simps assume_worker_role_def)

lemma emits_installed: "emits (avoids call_stmts) (extension_is_installed db)"
  unfolding extension_is_installed_def by (intro emits_rules) (simp add: call_stmts_simps)

lemma emits_rpc: "emits (avoids call_stmts) (dashboard_rpc c env db request)"
  unfolding dashboard_rpc_def by (auto intro!: emits_rules) (simp add: call_stmts_simps)

lemma emits_check_lost: "emits (avoids call_stmts) (check_lost env db ids)"
  unfolding check_lost_def by (auto intro!: emits_rules) (simp add: call_stmts_simps)

lemmas pump_stmt_simps = set_role_def set_search_path_def set_read_only_def set_timeout_def set_agent_def
  begin_local_execution_def call_procedure_def

lemma emits_sandboxed: "emits (avoids call_stmts) (run_sandboxed_sql agent_id sql pg_role env db)"
  unfolding run_sandboxed_sql_def Let_def
  by (auto intro!: emits_rules) (simp_all add: pump_stmt_simps call_stmts_simps)

lemma emits_function_call: "emits (avoids call_stmts) (run_function_call call_id sql_ident args pg_role env db)"
  unfolding run_function_call_def Let_def
  by (auto intro!: emits_rules) (simp_all add: pump_stmt_simps call_stmts_simps)

lemma emits_procedure_call: "emits (avoids call_stmts) (run_procedure_call call_id sql_ident args pg_role env db)"
  unfolding run_procedure_call_def Let_def
  by (auto intro!: emits_rules) (simp_all add: pump_stmt_simps call_stmts_simps)

lemma emits_run_ddl: "emits (avoids call_stmts) (run_ddl db now procedure sql_ident source)"
proof -
  have "ddl procedure sql_ident t source \<notin> call_stmts" for t
    by (simp add: ddl_def call_stmts_simps)
  then have "emits (avoids call_stmts) (spi_run db (ddl procedure sql_ident t source) [])" for t
    by (rule emits_avoids_spi)
  then show ?thesis unfolding emits_def run_ddl_def by blast
qed

lemma emits_run_or_return:
  "emits P m \<Longrightarrow> emits P k \<Longrightarrow> emits P (run_or_return m k)"
  unfolding run_or_return_def by (auto intro!: emits_rules split: sum.split)

lemma emits_build: "emits (avoids call_stmts) (run_guarded_build sql_ident body procedure now env db)"
  unfolding run_guarded_build_def
  by (auto intro!: emits_rules emits_run_ddl emits_run_or_return) (simp_all add: call_stmts_simps)

lemma emits_pump_sql: "emits (avoids call_stmts) (pump_sql env db)"
  unfolding pump_sql_def claim_sql_jobs_def
  by (auto simp: sql_job_def submit_sql_result_def complete_sql_def Let_def
      intro!: emits_rules emits_sandboxed split: option.splits if_splits)
    (simp_all add: call_stmts_simps)

lemma emits_pump_functions:
  "emits (avoids call_stmts) (pump_function_builds now env db)" "emits (avoids call_stmts) (pump_function_calls env db)"
  unfolding pump_function_builds_def claim_function_build_jobs_def pump_function_calls_def claim_function_call_jobs_def
  by (auto simp: function_build_job_def submit_function_build_result_def run_function_build_def
        function_call_job_def submit_function_call_result_def Let_def
      intro!: emits_rules emits_build emits_function_call split: option.splits if_splits)
    (simp_all add: call_stmts_simps)

lemma emits_pump_procedures:
  "emits (avoids call_stmts) (pump_procedure_builds now env db)" "emits (avoids call_stmts) (pump_procedure_calls env db)"
  unfolding pump_procedure_builds_def claim_procedure_build_jobs_def pump_procedure_calls_def claim_procedure_call_jobs_def
  by (auto simp: procedure_build_job_def submit_procedure_build_result_def run_procedure_build_def
        procedure_call_job_def submit_procedure_call_result_def Let_def
      intro!: emits_rules emits_build emits_procedure_call split: option.splits if_splits)
    (simp_all add: call_stmts_simps)

lemma emits_run_pumps: "emits (avoids call_stmts) (run_pumps wall env db b)"
  unfolding run_pumps_def
  by (auto intro!: emits_rules emits_pump_sql emits_pump_functions emits_pump_procedures)

section \<open>Claims and completions in the trace\<close>

lemma handed_out_append [simp]: "handed_out (xs @ ys) = handed_out xs + handed_out ys"
  by (simp add: handed_out_def)

lemma recorded_append [simp]: "recorded (xs @ ys) = recorded xs + recorded ys"
  by (simp add: recorded_def)

lemma trace_Cons [simp]:
  "handed_out [] = {#}" "recorded [] = {#}"
  "handed_out (e # tr) = ev_handed e + handed_out tr" "recorded (e # tr) = ev_recorded e + recorded tr"
  by (simp_all add: handed_out_def recorded_def)

lemma claim_stmt_events [simp]:
  "ev_handed (Exec (claim_stmt q) args (Answer (DJson v))) = handed_by q v" "ev_recorded (Exec (claim_stmt q) args a) = {#}"
proof -
  show "ev_handed (Exec (claim_stmt q) args (Answer (DJson v))) = handed_by q v"
    by (cases q) (simp_all add: queues_def)
  have "filter (\<lambda>q'. complete_stmt q' = claim_stmt q) queues = []" by (cases q) (simp_all add: queues_def)
  then show "ev_recorded (Exec (claim_stmt q) args a) = {#}"
    by (cases "Exec (claim_stmt q) args a" rule: ev_recorded.cases) auto
qed

lemma complete_stmt_events [simp]:
  "ev_recorded (Exec (complete_stmt q) (DText call_id # args) a) = {#(call_id, q)#}"
  "ev_handed (Exec (complete_stmt q) args a) = {#}"
proof -
  show "ev_recorded (Exec (complete_stmt q) (DText call_id # args) a) = {#(call_id, q)#}"
    by (cases q) (simp_all add: queues_def)
  have "filter (\<lambda>q'. claim_stmt q' = complete_stmt q) queues = []" by (cases q) (simp_all add: queues_def)
  then show "ev_handed (Exec (complete_stmt q) args a) = {#}"
    by (cases "Exec (complete_stmt q) args a" rule: ev_handed.cases) auto
qed

declare ev_handed.simps(1) [simp del] ev_recorded.simps(1) [simp del]

lemma calls_of_no_jobs [simp]: "calls_of (no_jobs ''calls'') = []"
  by code_simp

lemma handed_by_no_jobs [simp]: "handed_by q (no_jobs ''calls'') = {#}"
  by (simp add: handed_by_def List.map_filter_def)

text \<open>A claim: statements of no interest first, then the claiming statement, in one transaction.\<close>

lemma claim_shape:
  assumes "transaction db (try_bind first (\<lambda>go. if \<not> go then io_ok (no_jobs ''calls'')
      else try_bind (get_one_json db (claim_stmt q) args) (\<lambda>r.
             io_ok (case r of Inr (Some v) \<Rightarrow> v | _ \<Rightarrow> no_jobs ''calls'')))) tr = (x, tr')"
    and "emits (avoids call_stmts) first"
  shows "recorded tr' = recorded tr" and "handed_out tr \<subseteq># handed_out tr'"
    and "x = Inr v \<Longrightarrow> handed_out tr' = handed_out tr + handed_by q v"
proof -
  let ?last = "try_bind (get_one_json db (claim_stmt q) args) (\<lambda>r.
      io_ok (case r of Inr (Some v) \<Rightarrow> v | _ \<Rightarrow> no_jobs ''calls''))"
  obtain x' tr1 c where b: "try_bind first (\<lambda>go. if \<not> go then io_ok (no_jobs ''calls'') else ?last)
      (tr @ [StartTransaction]) = (x', tr1)" and tr': "tr' = tr1 @ c" and cl: "closes db tr1 x' x c"
    using assms(1) by (rule transaction_trace)
  have s: "handed_out tr' = handed_out tr1" "recorded tr' = recorded tr1"
    using closes_commit [OF cl] tr' by auto
  obtain g tr2 where g: "first (tr @ [StartTransaction]) = (g, tr2)" by fastforce
  with assms(2) obtain new where "tr2 = (tr @ [StartTransaction]) @ new" "list_all (avoids call_stmts) new" by (rule emitsD)
  with avoids_silent [of new "tr @ [StartTransaction]"]
  have two: "handed_out tr2 = handed_out tr" "recorded tr2 = recorded tr" by simp_all
  have "recorded tr1 = recorded tr \<and> handed_out tr \<subseteq># handed_out tr1
      \<and> (\<forall>v. x' = Inr v \<longrightarrow> handed_out tr1 = handed_out tr + handed_by q v)"
  proof (cases "g = Inr True")
    case True
    obtain y tr3 where y: "get_one_json db (claim_stmt q) args tr2 = (y, tr3)" by fastforce
    then obtain a where a: "tr3 = tr2 @ [Exec (claim_stmt q) args a]" "answered a y"
      "\<forall>v. y = Inr (Inr v) \<longrightarrow> a = Answer (opt_datum DJson v)"
      unfolding get_one_json_def by (rule spi_call_trace)
    from b g True y have x: "tr1 = tr3"
      "x' = (case y of Inl e \<Rightarrow> Inl e | Inr r \<Rightarrow> Inr (case r of Inr (Some v) \<Rightarrow> v | _ \<Rightarrow> no_jobs ''calls''))"
      by (auto simp: try_bind_def io_ok_def split: sum.splits)
    show ?thesis
    proof (cases y)
      case (Inl e)
      with a x two show ?thesis by (auto simp: answered_def)
    next
      case (Inr r)
      with a x two show ?thesis
        by (cases r; cases "projr r") (auto simp: answered_def split: answer.splits)
    qed
  next
    case False
    with b g two show ?thesis
      by (cases g) (auto simp: try_bind_def io_ok_def)
  qed
  with s cl show "recorded tr' = recorded tr" "handed_out tr \<subseteq># handed_out tr'"
    "x = Inr v \<Longrightarrow> handed_out tr' = handed_out tr + handed_by q v" by (auto dest!: closes_returns)
qed

lemma emits_report_err: "sql \<notin> call_stmts \<Longrightarrow> emits (avoids call_stmts) (report_err what (get_one_json db sql args))"
  unfolding report_err_def by (auto intro!: emits_rules split: sum.split)

lemma claim_queue_claims:
  "claim_queue env db q n = (if q = Outbound then dispatch_and_claim env db n
     else claim env db (claim_stmt q) ''calls'' (as_i32 (int n)))"
  by (cases q) (simp_all add: claim_queue_def claim_oauth_jobs_def claim_agent_embedding_jobs_def claim_provider_probe_jobs_def)

text \<open>The statements before the claim of the first queue, as one action.\<close>

definition before_claim :: "env \<Rightarrow> db \<Rightarrow> bool spi" where
  "before_claim env db =
     try_bind (drop_privileges env db) (\<lambda>dropped.
       if \<not> dropped then io_ok False
       else
         try_bind (report_err ''fn_watchdog''
           (get_one_json db ''SELECT allgres_public.fn_watchdog($1)'' [DInt (as_i32 (int (HTTP_TIMEOUT div 1000)) * 2)])) (\<lambda>_.
         try_bind (report_err ''fn_dispatch_tasks''
           (get_one_json db ''SELECT allgres_public.fn_dispatch_tasks()'' [])) (\<lambda>_. io_ok True)))"

lemma bind_assoc: "try_bind (try_bind m f) g = try_bind m (\<lambda>x. try_bind (f x) g)"
  by (rule ext) (simp add: try_bind_def split: prod.split sum.split)

lemma bind_ok: "try_bind (io_ok x) f = f x"
  by (rule ext) (simp add: try_bind_def io_ok_def)

lemma bind_if: "try_bind (if b then m else m') f = (if b then try_bind m f else try_bind m' f)"
  by simp

lemma dispatch_shape:
  "dispatch_and_claim env db n = transaction db (try_bind (before_claim env db) (\<lambda>go. if \<not> go then io_ok (no_jobs ''calls'')
      else try_bind (get_one_json db (claim_stmt Outbound) [DInt (as_i32 (int n))]) (\<lambda>r.
             io_ok (case r of Inr (Some v) \<Rightarrow> v | _ \<Rightarrow> no_jobs ''calls''))))"
  unfolding dispatch_and_claim_def before_claim_def bind_assoc bind_if bind_ok claim_stmt.simps
  by (simp only: not_True_eq_False not_False_eq_True if_True if_False)

lemma emits_before_claim: "emits (avoids call_stmts) (before_claim env db)"
  unfolding before_claim_def
  by (auto intro!: emits_rules emits_report_err) (simp_all add: call_stmts_simps)

lemma claim_queue_trace:
  assumes "claim_queue env db q n tr = (x, tr')"
  shows "recorded tr' = recorded tr" and "handed_out tr \<subseteq># handed_out tr'"
    and "x = Inr v \<Longrightarrow> handed_out tr' = handed_out tr + handed_by q v"
proof -
  have d: "emits (avoids call_stmts) (drop_privileges env db)" by (simp add: emits_avoids_drop)
  have "recorded tr' = recorded tr \<and> handed_out tr \<subseteq># handed_out tr'
    \<and> (x = Inr v \<longrightarrow> handed_out tr' = handed_out tr + handed_by q v)"
  proof (cases "q = Outbound")
    case True
    with assms have "dispatch_and_claim env db n tr = (x, tr')" by (simp add: claim_queue_claims)
    note c = claim_shape [OF this [unfolded dispatch_shape] emits_before_claim, folded True]
    from c show ?thesis by blast
  next
    case False
    with assms have "claim env db (claim_stmt q) ''calls'' (as_i32 (int n)) tr = (x, tr')" by (simp add: claim_queue_claims)
    note c = claim_shape [OF this [unfolded claim_def] d]
    from c show ?thesis by blast
  qed
  then show "recorded tr' = recorded tr" "handed_out tr \<subseteq># handed_out tr'"
    "x = Inr v \<Longrightarrow> handed_out tr' = handed_out tr + handed_by q v" by blast+
qed

lemma enqueue_effect:
  "enqueue q vs p n k = (p', n', k') \<Longrightarrow>
   \<exists>M. M \<subseteq># mset (map job_key (List.map_filter (job_of q) vs)) \<and> outstanding p' = outstanding p + M
     \<and> n' = n + size M \<and> k' = k + size M \<and> p' = p\<lparr>job_chan := job_chan p'\<rparr>"
proof (induction q vs p n k rule: enqueue.induct)
  case (2 q v vs p n k)
  show ?case
  proof (cases "job_of q v")
    case None
    with 2 show ?thesis by (simp add: List.map_filter_def)
  next
    case (Some j)
    show ?thesis
    proof (cases "send_job j p")
      case None
      with Some 2 show ?thesis by (intro exI [of _ "{#}"]) simp
    next
      case s: (Some p1)
      with Some 2 obtain M where M: "M \<subseteq># mset (map job_key (List.map_filter (job_of q) vs))"
        "outstanding p' = outstanding p1 + M" "n' = n + 1 + size M" "k' = k + 1 + size M" "p' = p1\<lparr>job_chan := job_chan p'\<rparr>"
        by auto
      from s have "p1 = p\<lparr>job_chan := job_chan p @ [j]\<rparr>" by (simp add: send_job_def split: if_splits)
      with M(5) have "p' = p\<lparr>job_chan := job_chan p'\<rparr>" by (metis pool.surjective pool.update_convs(1))
      with M send_job_outstanding [OF s] Some show ?thesis
        by (intro exI [of _ "add_mset (job_key j) M"]) (simp add: List.map_filter_def)
    qed
  qed
qed (auto simp: List.map_filter_def)

text \<open>The contract of recording, for the four queues.\<close>

interpretation http_completion: completion "submit_http_result call_id st body" "''fn_complete_outbound''" "''call '' @ call_id"
    "opt_datum DJson" one_json "(complete_stmt Outbound, result_row call_id st body)"
  for call_id st body
  by unfold_locales (simp_all add: submit_http_result_def get_one_json_def assume_worker_role_def)

interpretation oauth_completion: completion "submit_oauth_result call_id st body" "''fn_complete_oauth''" "''call '' @ call_id"
    "opt_datum DJson" one_json "(complete_stmt Oauth, result_row call_id st body)"
  for call_id st body
  by unfold_locales (simp_all add: submit_oauth_result_def get_one_json_def assume_worker_role_def)

interpretation embedding_completion: completion "submit_agent_embedding_result call_id st body"
    "''fn_complete_agent_embedding''" "''call '' @ call_id"
    "opt_datum DJson" one_json "(complete_stmt AgentEmbedding, result_row call_id st body)"
  for call_id st body
  by unfold_locales (simp_all add: submit_agent_embedding_result_def get_one_json_def assume_worker_role_def)

interpretation probe_completion: completion "submit_provider_probe_result call_id st body"
    "''fn_complete_provider_probe''" "''call '' @ call_id"
    "opt_datum DJson" one_json "(complete_stmt ProviderProbe, result_row call_id st body)"
  for call_id st body
  by unfold_locales (simp_all add: submit_provider_probe_result_def get_one_json_def assume_worker_role_def)

lemma complete_result_row:
  "\<exists>what. complete_result env db r =
     complete_row env db (spi_call (opt_datum DJson) (one_json db) (complete_stmt (res_queue r))
       (result_row (res_id r) (res_status r) (res_body r))) what (''call '' @ res_id r)"
  by (cases "res_queue r")
    (auto simp: complete_result_def submit_http_result_def submit_oauth_result_def submit_agent_embedding_result_def
      submit_provider_probe_result_def get_one_json_def)

lemma only_avoids: "only S w \<Longrightarrow> (\<And>sql args. (sql, args) \<in> S \<Longrightarrow> sql \<notin> T) \<Longrightarrow> list_all (avoids T) w"
proof (induction w)
  case (Cons e w)
  then show ?case by (cases e) auto
qed simp

lemma drop_avoids: "list_all (avoids call_stmts) (privilege_drop env)"
  by (simp add: privilege_drop_def)

lemma complete_result_trace:
  assumes "complete_result env db r tr = (x, tr')"
  shows "handed_out tr' = handed_out tr \<and> (\<exists>D. D \<subseteq># {#res_key r#} \<and> recorded tr' = recorded tr + D)"
proof -
  from complete_result_row [of env db r] assms obtain what where
    e: "complete_row env db (spi_call (opt_datum DJson) (one_json db) (complete_stmt (res_queue r))
       (result_row (res_id r) (res_status r) (res_body r))) what (''call '' @ res_id r) tr = (x, tr')" by auto
  have l: "completion (\<lambda>env db. complete_row env db (spi_call (opt_datum DJson) (one_json db) (complete_stmt (res_queue r))
       (result_row (res_id r) (res_status r) (res_body r))) what (''call '' @ res_id r)) what (''call '' @ res_id r)
       (opt_datum DJson) one_json (complete_stmt (res_queue r), result_row (res_id r) (res_status r) (res_body r))"
    by unfold_locales (simp_all add: result_row_def)
  have c: "handed_out c = {#} \<and> recorded c = {#}" if "c \<in> {[], [CommitTransaction]}" for c using that by auto
  have w: "handed_out w = {#} \<and> recorded w = {#}" if "only S w" "S \<subseteq> {(assume_worker_role, [])}" for S w
    using avoids_silent [OF only_avoids [OF that(1)], of "[]"] that(2) worker_role_no_call by force
  have d: "handed_out (privilege_drop env) = {#}" "recorded (privilege_drop env) = {#}"
    using avoids_silent [OF drop_avoids, of "[]"] by simp_all
  from completion.recorded [OF l e] show ?thesis
  proof (elim disjE exE conjE)
    fix a ws cs
    assume tr': "tr' = tr @ StartTransaction # privilege_drop env @ Exec (fst (complete_stmt (res_queue r),
        result_row (res_id r) (res_status r) (res_body r))) (snd (complete_stmt (res_queue r),
        result_row (res_id r) (res_status r) (res_body r))) a # ws @ cs"
      and s: "only {} ws" "cs \<in> {[], [CommitTransaction]}"
    have "tr' = tr @ [StartTransaction] @ privilege_drop env
        @ [Exec (complete_stmt (res_queue r)) (DText (res_id r) # tl (result_row (res_id r) (res_status r) (res_body r))) a] @ ws @ cs"
      unfolding tr' by (simp add: result_row_def)
    then show ?thesis using c [OF s(2)] w [OF s(1)] d by (simp add: res_key_def)
  next
    fix ws cs
    assume tr': "tr' = tr @ StartTransaction # ws @ cs"
      and s: "only {(assume_worker_role, [])} ws" "cs \<in> {[], [CommitTransaction]}"
    have "tr' = tr @ [StartTransaction] @ ws @ cs" unfolding tr' by simp
    then show ?thesis using c [OF s(2)] w [OF s(1)] by simp
  qed
qed

end
