(* ===== verification/Runtime_Loop.thy ===== *)
theory Runtime_Loop
  imports Runtime_Trace
begin

text \<open>
  Invariants of the main loop over its step relation: the loop's counter is the number of calls in the
  pool, the loop refines a ledger of claimed, outstanding and finished calls, its schedule stays
  within bounds, and cancellation flags belong to running calls.
\<close>

section \<open>Invariants of the loop\<close>

text \<open>The pool's calls, however they stand, are exactly those the loop counts as in flight.\<close>

definition counted :: "system \<Rightarrow> bool" where
  "counted s \<longleftrightarrow> in_flight s = size (outstanding (http s))"

definition paced :: "system \<Rightarrow> bool" where
  "paced s \<longleftrightarrow> PUMP_IDLE_MIN \<le> idle_delay s \<and> idle_delay s \<le> PUMP_IDLE_MAX"

lemma set_flags_only_cells: "\<exists>f. set_flags lost p = p\<lparr>cells := f\<rparr>"
proof (induction lost arbitrary: p)
  case Nil
  show ?case by (rule exI [of _ "cells p"]) simp
next
  case (Cons call_id lost)
  show ?case
  proof (cases "OUTBOUND_CANCEL_FLAGS p call_id")
    case (Some flag)
    from Cons [of "p\<lparr>cells := (cells p)(flag := True)\<rparr>"] Some show ?thesis by auto
  qed (use Cons in auto)
qed

lemma set_flags_pool [simp]: "res_chan (set_flags lost p) = res_chan p" "workers (set_flags lost p) = workers p"
  using set_flags_only_cells [of lost p] by auto

lemma outstanding_cells [simp]: "outstanding (p\<lparr>cells := f\<rparr>) = outstanding p"
  by (simp add: outstanding_def)

lemma set_flags_outstanding [simp]: "outstanding (set_flags lost p) = outstanding p"
  using set_flags_only_cells [of lost p] by auto

lemma rpc_stream_avoids:
  assumes "handle_rpc_stream c (rpc_call c env db) b incoming (tr, None) = (out, (tr', crash))"
  obtains new where "tr' = tr @ new" "list_all (avoids call_stmts) new"
  using handle_rpc_stream_cases [of b c "rpc_call c env db" incoming "(tr, None)"]
proof (elim disjE exE conjE)
  fix t
  assume "handle_rpc_stream c (rpc_call c env db) b incoming (tr, None) = rpc_call c env db t (tr, None)"
  with assms obtain x where "dashboard_rpc c env db t tr = (x, tr')"
    by (auto simp: rpc_call_def split: prod.splits sum.splits)
  with emits_rpc show ?thesis by (rule emitsD) (rule that)
qed (use assms that [of "[]"] in auto)

lemma schedule_simps [simp]:
  "http (schedule now w s) = http s" "in_flight (schedule now w s) = in_flight s" "session (schedule now w s) = session s"
  by (simp_all add: schedule_def)

lemma sys_step_counted: "sys_step c env db wall s s' \<Longrightarrow> counted s \<Longrightarrow> counted s'"
proof (induction rule: sys_step.induct)
  case (thread s p)
  then show ?case using pool_step_outstanding by (simp add: counted_def)
next
  case (harvest s r p x tr)
  from try_recv_outstanding [OF harvest(2)] harvest(4) show ?case by (simp add: counted_def)
next
  case (claims s q k claimed tr p n k')
  from enqueue_effect [OF claims(5)] claims(6) show ?case by (auto simp: counted_def)
qed (auto simp: counted_def split: sum.split)

lemma silent_trace:
  assumes "emits (avoids call_stmts) m" and "m tr = (x, tr')"
  shows "recorded tr' = recorded tr \<and> handed_out tr' = handed_out tr"
proof -
  obtain new where "tr' = tr @ new" "list_all (avoids call_stmts) new" using assms by (rule emitsD)
  with avoids_silent [of new tr] show ?thesis by simp
qed

section \<open>The ledger\<close>

text \<open>
  The specification of the loop and the pool together: a ledger of the calls that were claimed, are
  outstanding and are finished. A claim adds calls, of which some may never be taken on; an outstanding
  call is taken off once, and finished if its result was recorded.
\<close>

record ledger =
  claimed :: "ticket_id multiset"
  bag :: "ticket_id multiset"
  finished :: "ticket_id multiset"

inductive ledger_step :: "ledger \<Rightarrow> ledger \<Rightarrow> bool" where
  idle: "ledger_step L L"
| claim: "M \<subseteq># N \<Longrightarrow> ledger_step L (L\<lparr>claimed := claimed L + N, bag := bag L + M\<rparr>)"
| complete: "bag L = add_mset t B \<Longrightarrow> D \<subseteq># {#t#} \<Longrightarrow> ledger_step L (L\<lparr>bag := B, finished := finished L + D\<rparr>)"

definition ledger_of :: "system \<Rightarrow> ledger" where
  "ledger_of s = \<lparr>claimed = handed_out (session s), bag = outstanding (http s), finished = recorded (session s)\<rparr>"

definition balanced :: "ledger \<Rightarrow> bool" where
  "balanced L \<longleftrightarrow> finished L + bag L \<subseteq># claimed L"

lemma ledger_step_balanced: "ledger_step L L' \<Longrightarrow> balanced L \<Longrightarrow> balanced L'"
proof (induction rule: ledger_step.induct)
  case (claim M N L)
  then have "finished L + bag L + M \<subseteq># claimed L + N" by (simp add: balanced_def subset_mset.add_mono)
  then show ?case by (simp add: balanced_def add.assoc)
next
  case (complete L t B D)
  then have "finished L + D + B \<subseteq># finished L + add_mset t B" by (simp add: subset_mset.add_right_mono)
  moreover have "finished L + add_mset t B \<subseteq># claimed L" using complete by (simp add: balanced_def)
  ultimately have "finished L + D + B \<subseteq># claimed L" by (rule subset_mset.trans)
  then show ?case by (simp add: balanced_def)
qed

lemma ledger_idle:
  "recorded (session s') = recorded (session s) \<Longrightarrow> handed_out (session s') = handed_out (session s) \<Longrightarrow>
   outstanding (http s') = outstanding (http s) \<Longrightarrow> ledger_step (ledger_of s) (ledger_of s')"
  by (simp add: ledger_of_def ledger_step.idle)

lemma sys_step_ledger: "sys_step c env db wall s s' \<Longrightarrow> ledger_step (ledger_of s) (ledger_of s')"
proof (induction rule: sys_step.induct)
  case (thread s p)
  then show ?case using pool_step_outstanding by (intro ledger_idle) simp_all
next
  case (rpc s incoming out tr crash)
  obtain new where "tr = session s @ new" "list_all (avoids call_stmts) new"
    using rpc(2) by (rule rpc_stream_avoids)
  with avoids_silent [of new "session s"] show ?case by (intro ledger_idle) simp_all
next
  case (rpc_done s warnings w)
  then show ?case by (intro ledger_idle) auto
next
  case (harvest s r p x tr)
  from complete_result_trace [OF harvest(3)] obtain D where
    D: "D \<subseteq># {#res_key r#}" "recorded tr = recorded (session s) + D" "handed_out tr = handed_out (session s)" by blast
  have "bag (ledger_of s) = add_mset (res_key r) (outstanding p)"
    using try_recv_outstanding [OF harvest(2)] by (simp add: ledger_of_def)
  from ledger_step.complete [OF this D(1)] D(2,3) show ?case by (simp add: ledger_of_def)
next
  case (ask_lost s ids x tr)
  from silent_trace [OF emits_check_lost ask_lost(4)] show ?case by (intro ledger_idle) simp_all
next
  case (check_ready s now x tr)
  from silent_trace [OF emits_installed check_ready(3)] show ?case by (intro ledger_idle) (simp_all split: sum.split)
next
  case (claims s q k claimed tr p n k')
  from enqueue_effect [OF claims(5)] obtain M where M: "M \<subseteq># handed_by q claimed" "outstanding p = outstanding (http s) + M"
    unfolding handed_by_def by blast
  from claim_queue_trace [OF claims(4)] have "recorded tr = recorded (session s)"
    "handed_out tr = handed_out (session s) + handed_by q claimed" by simp_all
  with ledger_step.claim [OF M(1), of "ledger_of s"] M(2) show ?case by (simp add: ledger_of_def)
next
  case (claim_crash s q k e tr)
  note t = claim_queue_trace [OF claim_crash(4)]
  from t(2) obtain N where "handed_out tr = handed_out (session s) + N" by (auto simp: mset_subset_eq_exists_conv)
  with t(1) ledger_step.claim [of "{#}" N "ledger_of s"] show ?case by (simp add: ledger_of_def)
next
  case (execute s k x tr now)
  from silent_trace [OF emits_run_pumps execute(2)] show ?case by (intro ledger_idle) (simp_all split: sum.split)
qed (intro ledger_idle; simp)+

lemma sys_step_paced: "sys_step c env db wall s s' \<Longrightarrow> paced s \<Longrightarrow> paced s'"
  by (induction rule: sys_step.induct)
    (auto simp: paced_def schedule_def PUMP_IDLE_MIN_def PUMP_IDLE_MAX_def split: sum.split)

text \<open>Only a thread changes the threads and the map of flags.\<close>

lemma sys_step_pool:
  "sys_step c env db wall s s' \<Longrightarrow> pool_step c (http s) (http s')
     \<or> (OUTBOUND_CANCEL_FLAGS (http s') = OUTBOUND_CANCEL_FLAGS (http s) \<and> workers (http s') = workers (http s)
        \<and> next_cell (http s') = next_cell (http s))"
proof (induction rule: sys_step.induct)
  case (harvest s r p x tr)
  then show ?case by (auto simp: try_recv_def split: list.splits)
next
  case (set_lost s lost)
  with set_flags_only_cells [of lost "http s"] show ?case by auto
next
  case (claims s q k claimed tr p n k')
  from enqueue_effect [OF claims(5)] have "p = (http s)\<lparr>job_chan := job_chan p\<rparr>" by blast
  then have "OUTBOUND_CANCEL_FLAGS p = OUTBOUND_CANCEL_FLAGS (http s)" "workers p = workers (http s)" "next_cell p = next_cell (http s)"
    by (metis pool.select_convs pool.surjective pool.update_convs(1))+
  then show ?case by simp
qed (auto split: sum.split)

lemma sys_step_flags_owned: "sys_step c env db wall s s' \<Longrightarrow> flags_owned (http s) \<Longrightarrow> flags_owned (http s')"
  by (drule sys_step_pool, elim disjE) (blast intro: pool_step_flags_owned, simp add: flags_owned_def)

lemma initial:
  "counted (allgres_runtime_main bound spawned now)" "balanced (ledger_of (allgres_runtime_main bound spawned now))"
  "paced (allgres_runtime_main bound spawned now)" "flags_owned (http (allgres_runtime_main bound spawned now))"
proof -
  have "sum_list (map worker_keys (map (\<lambda>_. Idle) xs)) = {#}" for xs :: "nat list" by (induction xs) auto
  then have o: "outstanding (spawn_http_pool n f) = {#}" for n f by (simp add: outstanding_def spawn_http_pool_def)
  show "counted (allgres_runtime_main bound spawned now)" "balanced (ledger_of (allgres_runtime_main bound spawned now))"
    by (simp_all add: counted_def balanced_def ledger_of_def allgres_runtime_main_def o)
  show "paced (allgres_runtime_main bound spawned now)"
    by (simp add: paced_def allgres_runtime_main_def PUMP_IDLE_MIN_def PUMP_IDLE_MAX_def)
  show "flags_owned (http (allgres_runtime_main bound spawned now))"
    by (auto simp: flags_owned_def allgres_runtime_main_def spawn_http_pool_def)
qed

lemma reachable_invariant:
  assumes "reachable c env db wall s" and "\<And>bound spawned now. I (allgres_runtime_main bound spawned now)"
    and "\<And>s s'. sys_step c env db wall s s' \<Longrightarrow> I s \<Longrightarrow> I s'"
  shows "I s"
proof -
  from assms(1) obtain bound spawned now where
    "(sys_step c env db wall)\<^sup>*\<^sup>* (allgres_runtime_main bound spawned now) s" by blast
  then show ?thesis by (induction rule: rtranclp_induct) (use assms(2,3) in blast)+
qed

lemma reachable_invariants:
  assumes "reachable c env db wall s"
  shows "counted s" "balanced (ledger_of s)" "paced s" "flags_owned (http s)"
proof -
  note inv = reachable_invariant [OF assms]
  show "counted s" by (rule inv [of counted, OF initial(1)]) (rule sys_step_counted)
  show "balanced (ledger_of s)"
    by (rule inv [of "\<lambda>s. balanced (ledger_of s)", OF initial(2)]) (blast intro: ledger_step_balanced sys_step_ledger)
  show "paced s" by (rule inv [of paced, OF initial(3)]) (rule sys_step_paced)
  show "flags_owned (http s)" by (rule inv [of "\<lambda>s. flags_owned (http s)", OF initial(4)]) (rule sys_step_flags_owned)
qed

section \<open>Claims that honour their limit\<close>

text \<open>
  The claim functions of the control plane return at most as many calls as they are asked for, and at most
  one when they are asked for none: their queries end in \<open>LIMIT GREATEST(1, LEAST(p_limit, 16))\<close>.
\<close>

definition claims_honour_limit :: "db \<Rightarrow> bool" where
  "claims_honour_limit db \<longleftrightarrow>
     (\<forall>tr q n v. one_json db tr (claim_stmt q) [DInt n] = SpiOk (Some v) \<longrightarrow> int (length (calls_of v)) \<le> max 1 n)"

lemma as_i32_id: "0 \<le> n \<Longrightarrow> n < 2147483648 \<Longrightarrow> as_i32 n = n"
  unfolding as_i32_def sint_sbintrunc' by (intro signed_take_bit_int_eq_self) simp_all

lemma claim_shape_answer:
  assumes "transaction db (try_bind first (\<lambda>go. if \<not> go then io_ok (no_jobs ''calls'')
      else try_bind (get_one_json db (claim_stmt q) args) (\<lambda>r.
             io_ok (case r of Inr (Some v) \<Rightarrow> v | _ \<Rightarrow> no_jobs ''calls'')))) tr = (Inr v, tr')"
  shows "v = no_jobs ''calls'' \<or> (\<exists>t. one_json db t (claim_stmt q) args = SpiOk (Some v))"
proof -
  from assms obtain go t tr1 where "(if \<not> go then io_ok (no_jobs ''calls'')
      else try_bind (get_one_json db (claim_stmt q) args) (\<lambda>r.
             io_ok (case r of Inr (Some v) \<Rightarrow> v | _ \<Rightarrow> no_jobs ''calls''))) t = (Inr v, tr1)"
    by (auto simp: transaction_def try_bind_Inr)
  then consider "v = no_jobs ''calls''"
    | r where "get_one_json db (claim_stmt q) args t = (Inr r, tr1)" "v = (case r of Inr (Some v) \<Rightarrow> v | _ \<Rightarrow> no_jobs ''calls'')"
    by (auto simp: try_bind_Inr split: if_splits)
  then show ?thesis
  proof cases
    case (2 r)
    then show ?thesis
      by (cases "one_json db t (claim_stmt q) args") (auto simp: get_one_json_def spi_call_def split: option.splits)
  qed simp
qed

lemma claim_queue_limit:
  assumes "claims_honour_limit db" and "claim_queue env db q n tr = (Inr v, tr')" and "0 < n" "n \<le> capacity"
  shows "length (calls_of v) \<le> n"
proof -
  have i: "as_i32 (int n) = int n" using assms(4) by (intro as_i32_id) (simp_all add: capacity_def HTTP_THREADS_def)
  have "v = no_jobs ''calls'' \<or> (\<exists>t. one_json db t (claim_stmt q) [DInt (int n)] = SpiOk (Some v))"
  proof (cases "q = Outbound")
    case True
    with assms(2) have "dispatch_and_claim env db n tr = (Inr v, tr')" by (simp add: claim_queue_claims)
    from claim_shape_answer [OF this [unfolded dispatch_shape i]] True show ?thesis by simp
  next
    case False
    with assms(2) have "claim env db (claim_stmt q) ''calls'' (int n) tr = (Inr v, tr')" by (simp add: claim_queue_claims i)
    from claim_shape_answer [OF this [unfolded claim_def]] show ?thesis .
  qed
  with assms(1) have "length (calls_of v) = 0 \<or> int (length (calls_of v)) \<le> max 1 (int n)"
    unfolding claims_honour_limit_def by fastforce
  with assms(3) show ?thesis by auto
qed

lemma enqueue_bound:
  assumes "enqueue q vs p n k = (p', n', k')"
  shows "n' \<le> n + length vs"
proof -
  from enqueue_effect [OF assms] obtain M where "M \<subseteq># mset (map job_key (List.map_filter (job_of q) vs))" "n' = n + size M" by blast
  moreover have "length (List.map_filter (job_of q) vs) \<le> length vs" by (simp add: List.map_filter_def)
  ultimately show ?thesis using size_mset_mono by fastforce
qed

lemma sys_step_within_capacity:
  assumes "claims_honour_limit db"
  shows "sys_step c env db wall s s' \<Longrightarrow> in_flight s \<le> capacity \<Longrightarrow> in_flight s' \<le> capacity"
proof (induction rule: sys_step.induct)
  case (claims s q k claimed tr p n k')
  from claim_queue_limit [OF assms claims(4)] enqueue_bound [OF claims(5)] claims(3) show ?case by simp
qed (auto split: sum.split)

section \<open>Cancellation\<close>

definition lost_stmt :: string where
  "lost_stmt = ''SELECT to_jsonb(allgres_public.fn_check_lost_outbound($1::text[]::uuid[]))''"

text \<open>The calls the database reported as lost, over a whole trace.\<close>

definition reported_lost :: "event list \<Rightarrow> string set" where
  "reported_lost tr =
     {call_id. \<exists>ids a. Exec lost_stmt [DTexts ids] (Answer (DJson (JArray a))) \<in> set tr \<and> JString call_id \<in> set a}"

definition cancelled_are_lost :: "system \<Rightarrow> bool" where
  "cancelled_are_lost s \<longleftrightarrow>
     (\<forall>i j a. i < length (workers (http s)) \<and> workers (http s) ! i = Running j a \<and> cells (http s) a
        \<longrightarrow> job_id j \<in> reported_lost (session s))
   \<and> (\<forall>lost. phase s = Lost lost \<longrightarrow> set lost \<subseteq> reported_lost (session s))"

lemma reported_lost_append: "reported_lost tr \<subseteq> reported_lost (tr @ new)"
  by (auto simp: reported_lost_def)

lemma emits_anything [simp]: "sql \<notin> ({} :: string set)"
  by simp

lemma emits_report_any: "emits (avoids {}) (report_err what (get_one_json db sql args))"
  unfolding report_err_def by (auto intro!: emits_rules split: sum.split)

lemma emits_claim_queue: "emits (avoids {}) (claim_queue env db q n)"
  unfolding claim_queue_def dispatch_and_claim_def claim_oauth_jobs_def claim_agent_embedding_jobs_def claim_provider_probe_jobs_def
  by (cases q) (auto intro!: emits_rules emits_report_any)

lemma emits_complete_result: "emits (avoids {}) (complete_result env db r)"
  unfolding complete_result_def submit_http_result_def submit_oauth_result_def submit_agent_embedding_result_def
    submit_provider_probe_result_def
  by (cases "res_queue r") (auto intro!: emits_rules)

lemma sys_step_session: "sys_step c env db wall s s' \<Longrightarrow> \<exists>new. session s' = session s @ new"
proof (induction rule: sys_step.induct)
  case (rpc s incoming out tr crash)
  from rpc(2) show ?case by (rule rpc_stream_avoids) simp
next
  case (harvest s r p x tr)
  from emits_complete_result harvest(3) show ?case by (rule emitsD) simp
next
  case (ask_lost s ids x tr)
  from emits_check_lost ask_lost(4) show ?case by (rule emitsD) simp
next
  case (check_ready s now x tr)
  from emits_installed check_ready(3) show ?case by (rule emitsD) (simp split: sum.split)
next
  case (claims s q k claimed tr p n k')
  from emits_claim_queue claims(4) show ?case by (rule emitsD) simp
next
  case (claim_crash s q k e tr)
  from emits_claim_queue claim_crash(4) show ?case by (rule emitsD) simp
next
  case (execute s k x tr now)
  from emits_run_pumps execute(2) show ?case by (rule emitsD) (simp split: sum.split)
qed simp_all

lemma map_filter_as_str: "x \<in> set (List.map_filter as_str a) \<longleftrightarrow> JString x \<in> set a"
proof -
  have "as_str y = Some x \<longleftrightarrow> y = JString x" for y by (cases y) auto
  then show ?thesis by (force simp: List.map_filter_def)
qed

lemma check_lost_reported:
  assumes "check_lost env db ids tr = (Inr lost, tr')"
  shows "set lost \<subseteq> reported_lost tr'"
proof (cases "ids = []")
  case False
  let ?body = "try_bind (drop_privileges env db) (\<lambda>dropped.
            if \<not> dropped then io_ok []
            else
              try_bind (get_one_json db lost_stmt [DTexts ids]) (\<lambda>r.
              io_ok (case r of
                       Inr (Some v) \<Rightarrow> (case as_array v of Some a \<Rightarrow> List.map_filter as_str a | None \<Rightarrow> [])
                     | _ \<Rightarrow> [])))"
  from assms False have "transaction db ?body tr = (Inr lost, tr')" unfolding check_lost_def lost_stmt_def by simp
  then obtain x tr1 c where b: "?body (tr @ [StartTransaction]) = (x, tr1)" and tr': "tr' = tr1 @ c"
    and cl: "closes db tr1 x (Inr lost) c"
    by (rule transaction_trace)
  from closes_returns [OF cl] have x: "x = Inr lost" ..
  from b [unfolded x] obtain d t where "(if \<not> d then io_ok [] else try_bind (get_one_json db lost_stmt [DTexts ids]) (\<lambda>r.
      io_ok (case r of Inr (Some v) \<Rightarrow> (case as_array v of Some a \<Rightarrow> List.map_filter as_str a | None \<Rightarrow> [])
        | _ \<Rightarrow> []))) t = (Inr lost, tr1)"
    by (auto simp: try_bind_Inr)
  then consider "lost = []" | r where "get_one_json db lost_stmt [DTexts ids] t = (Inr r, tr1)"
      "lost = (case r of Inr (Some v) \<Rightarrow> (case as_array v of Some a \<Rightarrow> List.map_filter as_str a | None \<Rightarrow> []) | _ \<Rightarrow> [])"
    by (auto simp: try_bind_Inr split: if_splits)
  then have "set lost \<subseteq> reported_lost tr1"
  proof cases
    case (2 r)
    show ?thesis
    proof (cases "\<exists>a. r = Inr (Some (JArray a))")
      case True
      then obtain a where a: "r = Inr (Some (JArray a))" by blast
      from 2(1) have "Exec lost_stmt [DTexts ids] (Answer (DJson (JArray a))) \<in> set tr1"
        unfolding get_one_json_def by (rule spi_call_trace) (simp add: a)
      moreover have "lost = List.map_filter as_str a" using 2(2) a by simp
      ultimately show ?thesis unfolding reported_lost_def by (auto simp: map_filter_as_str) blast
    next
      case False
      then have "lost = []" unfolding 2(2) by (auto split: sum.split option.split elim: as_array.elims)
      then show ?thesis by simp
    qed
  qed simp
  with tr' reported_lost_append show ?thesis by fastforce
qed (use assms in \<open>simp add: check_lost_def\<close>)

lemma set_flags_cells:
  "cells (set_flags lost p) a \<Longrightarrow> cells p a \<or> (\<exists>call_id \<in> set lost. OUTBOUND_CANCEL_FLAGS p call_id = Some a)"
proof (induction lost arbitrary: p)
  case (Cons call_id lost)
  show ?case
  proof (cases "OUTBOUND_CANCEL_FLAGS p call_id")
    case None
    with Cons show ?thesis by auto
  next
    case (Some flag)
    with Cons.prems Cons.IH [of "p\<lparr>cells := (cells p)(flag := True)\<rparr>"] show ?thesis
      by (auto split: if_splits)
  qed
qed simp

lemma pool_step_cells:
  assumes "pool_step c p p'" and "flags_owned p" and "i < length (workers p')" "workers p' ! i = Running j a" "cells p' a"
  shows "workers p ! i = Running j a \<and> i < length (workers p) \<and> cells p a"
  using assms(1)
proof cases
  case (start k j' a' p1)
  then have p1: "workers p1 = workers p" "cells p1 = (cells p)(a' := False)" "a' = next_cell p"
    by (auto simp: register_def Let_def)
  show ?thesis
  proof (cases "i = k")
    case True
    with start p1 assms(3-5) show ?thesis by (simp add: set_worker_def)
  next
    case False
    with start p1 assms(3-5) flags_ownedD(2) [OF assms(2), of i j a] show ?thesis
      by (auto simp: set_worker_def split: if_splits)
  qed
next
  case (recv k j' js)
  with assms(3-5) update_running [of "workers p" k "Received j'" i j a] show ?thesis by (simp add: set_worker_def)
next
  case (finish k j' b n st bd tr)
  with assms(3-5) update_running [of "workers p" k
      "Finished \<lparr>res_id = job_id j', res_queue = job_queue j', res_status = st, res_body = bd\<rparr>" i j a]
  show ?thesis by (simp add: set_worker_def drop_guard_def)
next
  case (send k r)
  with assms(3-5) update_running [of "workers p" k Idle i j a] show ?thesis by (simp add: set_worker_def)
qed

lemma after_claim_phase [simp]: "after_claim q k \<noteq> Lost lost"
  by (cases q) simp_all

lemma schedule_phase [simp]: "phase (schedule now w s) = phase s"
  by (simp add: schedule_def)

lemma sys_step_cancelled_are_lost:
  assumes "sys_step c env db wall s s'" and "flags_owned (http s)" and "cancelled_are_lost s"
  shows "cancelled_are_lost s'"
proof -
  obtain new where new: "session s' = session s @ new" using sys_step_session [OF assms(1)] by blast
  have keep: "cancelled_are_lost s'" if "\<And>i j a. i < length (workers (http s')) \<Longrightarrow> workers (http s') ! i = Running j a \<Longrightarrow>
      cells (http s') a \<Longrightarrow> i < length (workers (http s)) \<and> workers (http s) ! i = Running j a \<and> cells (http s) a"
    and "\<And>lost. phase s' = Lost lost \<Longrightarrow> set lost \<subseteq> reported_lost (session s')"
    using that assms(3) reported_lost_append [of "session s" new] unfolding cancelled_are_lost_def new by blast
  have same: "set lost \<subseteq> reported_lost (session s')" if "phase s = Lost lost" for lost
    using that assms(3) reported_lost_append [of "session s" new] unfolding cancelled_are_lost_def new by blast
  from assms(1) show ?thesis
  proof cases
    case (thread p)
    with pool_step_cells [OF thread(2) assms(2)] same show ?thesis by (intro keep) auto
  next
    case (harvest r p x tr)
    then show ?thesis by (intro keep) (auto simp: try_recv_def split: list.splits sum.splits)
  next
    case (ask_lost ids x tr)
    then show ?thesis by (intro keep) (auto dest: check_lost_reported split: sum.splits)
  next
    case (claims q k claimed tr p n k')
    from enqueue_effect [OF claims(6)] have "p = (http s)\<lparr>job_chan := job_chan p\<rparr>" by blast
    then have "workers p = workers (http s)" "cells p = cells (http s)"
      by (metis pool.select_convs pool.surjective pool.update_convs(1))+
    with claims show ?thesis by (intro keep) auto
  next
    case (set_lost lost)
    have "job_id j \<in> reported_lost (session s)"
      if r: "i < length (workers (http s))" "workers (http s) ! i = Running j a" "cells (set_flags lost (http s)) a" for i j a
      using set_flags_cells [OF r(3)]
    proof
      assume "cells (http s) a"
      with r assms(3) show ?thesis unfolding cancelled_are_lost_def by blast
    next
      assume "\<exists>call_id \<in> set lost. OUTBOUND_CANCEL_FLAGS (http s) call_id = Some a"
      then obtain call_id where cid: "call_id \<in> set lost" "OUTBOUND_CANCEL_FLAGS (http s) call_id = Some a" by blast
      from flags_ownedD(1) [OF assms(2) cid(2)] flags_ownedD(3) [OF assms(2) r(1,2)] r(2) have "job_id j = call_id" by force
      with cid(1) assms(3) set_lost(2) show ?thesis unfolding cancelled_are_lost_def by blast
    qed
    with set_lost set_flags_only_cells [of lost "http s"] show ?thesis by (auto simp: cancelled_are_lost_def)
  qed (intro keep; auto split: sum.splits option.splits)+
qed

end
