(* ===== verification/Runtime_Progress.thy ===== *)
theory Runtime_Progress
  imports Runtime_Loop
begin

text \<open>
  What the main loop gets done: cancelling reaches every running call that was reported lost, and an
  iteration ends.
\<close>

section \<open>Nothing claimed is dropped\<close>

text \<open>With a thread in the pool, every call a claim hands out is taken on.\<close>

lemma enqueue_all:
  "enqueue q vs p n k = (p', n', k') \<Longrightarrow> workers p \<noteq> [] \<Longrightarrow>
   outstanding p' = outstanding p + mset (map job_key (List.map_filter (job_of q) vs))"
proof (induction q vs p n k rule: enqueue.induct)
  case (2 q v vs p n k)
  show ?case
  proof (cases "job_of q v")
    case None
    with 2 show ?thesis by (simp add: List.map_filter_def)
  next
    case (Some j)
    from "2.prems"(2) obtain p1 where p1: "send_job j p = Some p1" "workers p1 \<noteq> []" by (simp add: send_job_def)
    with Some "2.prems" "2.IH"(2) [OF Some p1(1)] send_job_outstanding [OF p1(1)] show ?thesis
      by (simp add: List.map_filter_def)
  qed
qed (simp add: List.map_filter_def)

text \<open>Until a result is harvested, what was handed out is what is outstanding.\<close>

lemma sys_step_all_taken:
  assumes "sys_step c env db wall s s'" "workers (http s) \<noteq> []" "\<nexists>e. phase s' = Crashed e" "res_chan (http s) = []"
    and "handed_out (session s) = outstanding (http s)"
  shows "handed_out (session s') = outstanding (http s')"
  using assms
proof (induction rule: sys_step.induct)
  case (thread s p)
  then show ?case using pool_step_outstanding by simp
next
  case (rpc s incoming out tr crash)
  obtain new where "tr = session s @ new" "list_all (avoids call_stmts) new" using rpc(2) by (rule rpc_stream_avoids)
  with rpc avoids_silent [of new "session s"] show ?case by simp
next
  case (rpc_done s warnings w)
  then show ?case by (auto simp: handed_out_append handed_out_def)
next
  case (harvest s r p x tr)
  then show ?case by (simp add: try_recv_def)
next
  case (ask_lost s ids x tr)
  with silent_trace [OF emits_check_lost ask_lost(4)] show ?case by simp
next
  case (set_lost s lost)
  then show ?case by (simp add: set_flags_outstanding)
next
  case (check_ready s now x tr)
  with silent_trace [OF emits_installed check_ready(3)] show ?case by (simp split: sum.split)
next
  case (claims s q k claimed tr p n k')
  with claim_queue_trace(3) [OF claims(4) refl] enqueue_all [OF claims(5)] show ?case by (simp add: handed_by_def)
next
  case (execute s k x tr now)
  with silent_trace [OF emits_run_pumps execute(2)] show ?case by (simp split: sum.split)
qed simp_all

section \<open>Cancellation reaches running calls\<close>

lemma once_mono: "A \<subseteq># B \<Longrightarrow> once call_id B \<Longrightarrow> once call_id A"
  unfolding once_def by (meson image_mset_subseteq_mono le_trans mset_subset_eq_count)

lemma sys_step_handed_out: "sys_step c env db wall s s' \<Longrightarrow> handed_out (session s) \<subseteq># handed_out (session s')"
  using sys_step_session by (fastforce simp: handed_out_append)

text \<open>As long as the database has handed out an identifier only once, its call has its flag in the map while it runs.\<close>

definition flagged_while_once :: "string \<Rightarrow> system \<Rightarrow> bool" where
  "flagged_while_once call_id s \<longleftrightarrow> (once call_id (handed_out (session s)) \<longrightarrow> flagged call_id (http s))"

lemma sys_step_flagged:
  assumes "sys_step c env db wall s s'" "balanced (ledger_of s)" "flagged_while_once call_id s"
  shows "flagged_while_once call_id s'"
  unfolding flagged_while_once_def
proof
  assume "once call_id (handed_out (session s'))"
  then have u: "once call_id (handed_out (session s))" using sys_step_handed_out [OF assms(1)] once_mono by blast
  then have f: "flagged call_id (http s)" using assms(3) by (simp add: flagged_while_once_def)
  from assms(2) have "outstanding (http s) \<subseteq># handed_out (session s)"
    unfolding balanced_def ledger_of_def by (auto intro: subset_mset.order_trans [rotated])
  with u have "once call_id (outstanding (http s))" by (blast intro: once_mono)
  with sys_step_pool [OF assms(1)] f show "flagged call_id (http s')"
    by (auto dest: pool_step_flagged simp: flagged_def)
qed

lemma reachable_flagged:
  assumes "reachable c env db wall s"
  shows "flagged_while_once call_id s"
proof -
  have "balanced (ledger_of s) \<and> flagged_while_once call_id s"
  proof (rule reachable_invariant [OF assms])
    show "balanced (ledger_of (allgres_runtime_main bound spawned now))
        \<and> flagged_while_once call_id (allgres_runtime_main bound spawned now)" for bound spawned now
      using initial(2) by (auto simp: flagged_while_once_def flagged_def allgres_runtime_main_def spawn_http_pool_def)
  qed (blast intro: ledger_step_balanced sys_step_ledger sys_step_flagged)
  then show ?thesis ..
qed

lemma set_flags_keeps: "cells p a \<Longrightarrow> cells (set_flags lost p) a"
  by (induction lost arbitrary: p) (auto split: option.split)

lemma set_flags_sets: "call_id \<in> set lost \<Longrightarrow> OUTBOUND_CANCEL_FLAGS p call_id = Some a \<Longrightarrow> cells (set_flags lost p) a"
proof (induction lost arbitrary: p)
  case (Cons x lost)
  then show ?case by (cases "x = call_id") (auto intro: set_flags_keeps split: option.split)
qed simp

text \<open>
  Once the loop has acted on an answer that reports calls as lost, every call of the answer that a thread
  is running then has its flag set, if the database handed out its identifier only once.
\<close>

lemma lost_calls_flagged:
  assumes "reachable c env db wall s" and "once (job_id j) (handed_out (session s))"
    and "phase s = Lost lost" and "sys_step c env db wall s s'" "phase s' = Pump"
    and "i < length (workers (http s'))" "workers (http s') ! i = Running j a" "job_id j \<in> set lost"
  shows "cells (http s') a"
proof -
  from assms(4,3,5) have s': "http s' = set_flags lost (http s)" by (cases rule: sys_step.cases) auto
  from reachable_flagged [OF assms(1)] assms(2) have "flagged (job_id j) (http s)" by (simp add: flagged_while_once_def)
  with assms(6,7) s' have "OUTBOUND_CANCEL_FLAGS (http s) (job_id j) = Some a" by (auto simp: flagged_def)
  with assms(8) s' show ?thesis by (simp add: set_flags_sets)
qed

section \<open>An iteration ends\<close>

text \<open>
  How far the loop is from the end of its iteration, counting the phases that are left and, until the
  harvest is over, the calls in the pool: each of them can be harvested once, now or when its thread
  has finished it.
\<close>

fun phase_rank :: "phase \<Rightarrow> nat" where
  "phase_rank Rpc = 10"
| "phase_rank Harvest = 9"
| "phase_rank Cancel = 8"
| "phase_rank (Lost _) = 7"
| "phase_rank Pump = 6"
| "phase_rank (Claim Outbound _) = 5"
| "phase_rank (Claim Oauth _) = 4"
| "phase_rank (Claim AgentEmbedding _) = 3"
| "phase_rank (Claim ProviderProbe _) = 2"
| "phase_rank (Execute _) = 1"
| "phase_rank _ = 0"

definition iteration_rank :: "system \<Rightarrow> nat" where
  "iteration_rank s = phase_rank (phase s) + (if phase s \<in> {Rpc, Harvest} then size (outstanding (http s)) else 0)"

lemma rank_after_claim:
  "phase_rank (after_claim q k) < phase_rank (Claim q k')" "after_claim q k \<noteq> Rpc" "after_claim q k \<noteq> Harvest"
  by (cases q; simp)+

lemma phase_schedule [simp]: "phase (schedule now w s) = phase s"
  by (simp add: schedule_def)

text \<open>
  An iteration is over when the loop waits again, has stopped, or was left by an error. Serving one more
  dashboard connection does not bring it nearer to its end.
\<close>

definition at_rest :: "system \<Rightarrow> bool" where
  "at_rest s \<longleftrightarrow> phase s \<in> {Wait, Stopped} \<or> (\<exists>e. phase s = Crashed e)"

definition serves :: "system \<Rightarrow> system \<Rightarrow> bool" where
  "serves s s' \<longleftrightarrow> phase s = Rpc \<and> phase s' = Rpc \<and> http s' = http s"

lemma sys_step_rank:
  assumes "sys_step c env db wall s s'" "phase s \<noteq> Wait"
  shows "iteration_rank s' < iteration_rank s
    \<or> (iteration_rank s' = iteration_rank s \<and> thread_work (http s') < thread_work (http s))
    \<or> (serves s s' \<and> iteration_rank s' = iteration_rank s)"
  using assms
proof (cases rule: sys_step.cases)
  case (thread p)
  then show ?thesis using pool_step_work pool_step_outstanding [of c "http s" p] by (simp add: iteration_rank_def)
next
  case (harvest r p x tr)
  then show ?thesis using try_recv_outstanding [OF harvest(3)] by (auto simp: iteration_rank_def split: sum.split)
next
  case (no_claim q k)
  then show ?thesis using rank_after_claim(1) [of q k k] by (simp add: iteration_rank_def rank_after_claim(2,3))
next
  case (claims q k claimed tr p n k')
  then show ?thesis using rank_after_claim(1) [of q k' k] by (simp add: iteration_rank_def rank_after_claim(2,3))
next
  case (claim_crash q k e tr)
  then show ?thesis by (cases q) (simp_all add: iteration_rank_def)
qed (auto simp: iteration_rank_def serves_def split: option.split sum.split)

lemma serves_rank: "iteration_rank s' < iteration_rank s \<Longrightarrow> \<not> serves s s'"
  by (auto simp: serves_def iteration_rank_def)

text \<open>A run that is never at rest serves connections for ever.\<close>

lemma run_comes_to_rest:
  assumes "\<And>k. \<not> at_rest (run k) \<Longrightarrow> sys_step c env db wall (run k) (run (Suc k))"
    and "finite {k. serves (run k) (run (Suc k))}"
  shows "\<exists>k. at_rest (run k)"
proof (rule ccontr)
  assume "\<nexists>k. at_rest (run k)"
  then have r: "\<not> at_rest (run k)" for k by blast
  from assms(2) obtain n where n: "serves (run k) (run (Suc k)) \<Longrightarrow> k < n" for k
    using finite_nat_set_iff_bounded by auto
  let ?m = "\<lambda>k. (iteration_rank (run (n + k)), thread_work (http (run (n + k))))"
  have "(?m (Suc k), ?m k) \<in> less_than <*lex*> less_than" for k
    using sys_step_rank [OF assms(1) [OF r [of "n + k"]]] n [of "n + k"] r [of "n + k"] by (auto simp: at_rest_def)
  then have "\<exists>f. \<forall>i. (f (Suc i), f i) \<in> less_than <*lex*> less_than" by (intro exI [of _ ?m] allI)
  with wf_lex_prod [OF wf_less_than wf_less_than] show False
    unfolding wf_iff_no_infinite_down_chain by blast
qed

lemma finite_flags: "flags_owned p \<Longrightarrow> finite (dom (OUTBOUND_CANCEL_FLAGS p))"
proof -
  assume f: "flags_owned p"
  let ?id = "\<lambda>w. case w of Running j _ \<Rightarrow> job_id j | _ \<Rightarrow> []"
  have "dom (OUTBOUND_CANCEL_FLAGS p) \<subseteq> ?id ` set (workers p)"
  proof
    fix x assume "x \<in> dom (OUTBOUND_CANCEL_FLAGS p)"
    then obtain a where "OUTBOUND_CANCEL_FLAGS p x = Some a" by blast
    from flags_ownedD(1) [OF f this] obtain i j where "i < length (workers p)" "workers p ! i = Running j a" "job_id j = x" by blast
    with nth_mem [OF this(1)] show "x \<in> ?id ` set (workers p)" by (intro image_eqI [of _ _ "Running j a"]) simp_all
  qed
  then show ?thesis by (rule finite_subset) simp
qed

text \<open>In every phase of an iteration some step of the loop is enabled.\<close>

lemma claim_enabled:
  assumes "phase s = Claim q k"
  shows "\<exists>s'. sys_step c env db wall s s' \<and> iteration_rank s' < iteration_rank s"
proof (cases "ready s \<and> in_flight s < capacity")
  case False
  from sys_step.no_claim [OF assms this, of c env db wall] assms rank_after_claim(1) [of q k k] show ?thesis
    by (intro exI conjI) (assumption, simp add: iteration_rank_def rank_after_claim(2,3))
next
  case True
  then have t: "ready s" "in_flight s < capacity" by simp_all
  obtain x tr where x: "claim_queue env db q (capacity - in_flight s) (session s) = (x, tr)" by fastforce
  show ?thesis
  proof (cases x)
    case (Inl e)
    from sys_step.claim_crash [OF assms t x [unfolded Inl], of c wall] assms show ?thesis
      by (intro exI conjI) (assumption, cases q, auto simp: iteration_rank_def)
  next
    case (Inr v)
    obtain p n k' where "enqueue q (calls_of v) (http s) (in_flight s) k = (p, n, k')" by (metis prod_cases3)
    from sys_step.claims [OF assms t x [unfolded Inr] this, of c wall] assms rank_after_claim(1) [of q k' k] show ?thesis
      by (intro exI conjI) (assumption, simp add: iteration_rank_def rank_after_claim(2,3))
  qed
qed

lemma loop_enabled:
  assumes "flags_owned (http s)" "phase s \<noteq> Wait" "phase s \<noteq> Stopped" "\<nexists>e. phase s = Crashed e"
  shows "\<exists>s'. sys_step c env db wall s s' \<and> iteration_rank s' < iteration_rank s"
proof (cases "phase s")
  case Rpc
  then show ?thesis
    by (intro exI [of _ "s\<lparr>phase := Harvest, session := session s @ []\<rparr>"] conjI sys_step.rpc_done) (simp_all add: iteration_rank_def)
next
  case Harvest
  show ?thesis
  proof (cases "try_recv (http s)")
    case None
    with Harvest show ?thesis
      by (intro exI [of _ "s\<lparr>phase := Cancel\<rparr>"] conjI sys_step.harvested) (simp_all add: iteration_rank_def)
  next
    case (Some rp)
    obtain r p where rp: "rp = (r, p)" by fastforce
    obtain x tr where "complete_result env db r (session s) = (x, tr)" by fastforce
    from sys_step.harvest [OF Harvest Some [unfolded rp] this, of c wall] Harvest
      try_recv_outstanding [OF Some [unfolded rp]] show ?thesis
      by (intro exI conjI) (assumption, auto simp: iteration_rank_def split: sum.split)
  qed
next
  case Cancel
  obtain ids where ids: "distinct ids" "set ids = dom (OUTBOUND_CANCEL_FLAGS (http s))"
    using finite_distinct_list [OF finite_flags [OF assms(1)]] by blast
  obtain x tr where "check_lost env db ids (session s) = (x, tr)" by fastforce
  from sys_step.ask_lost [OF Cancel ids this, of c wall] Cancel show ?thesis
    by (intro exI conjI) (assumption, auto simp: iteration_rank_def split: sum.split)
next
  case (Lost lost)
  from sys_step.set_lost [OF this, of c env db wall] Lost show ?thesis
    by (intro exI conjI) (assumption, simp add: iteration_rank_def rank_after_claim(2,3))
next
  case Pump
  obtain x tr where "extension_is_installed db (session s) = (x, tr)" by fastforce
  from sys_step.check_ready [OF Pump order_refl this, of c env wall] Pump show ?thesis
    by (intro exI conjI) (assumption, auto simp: iteration_rank_def split: sum.split)
next
  case (Claim q k)
  then show ?thesis by (rule claim_enabled)
next
  case (Execute k)
  obtain x tr where "run_pumps wall env db (ready s) (session s) = (x, tr)" by fastforce
  from sys_step.execute [OF Execute this, of c] Execute show ?thesis
    by (intro exI conjI) (assumption, auto simp: iteration_rank_def split: sum.split)
qed (use assms in auto)

text \<open>From every reachable state there is a run in which the loop takes every step.\<close>

lemma loop_run:
  assumes "reachable c env db wall s"
  shows "\<exists>run. run 0 = s \<and> (\<forall>k. \<not> at_rest (run k) \<longrightarrow>
      sys_step c env db wall (run k) (run (Suc k)) \<and> iteration_rank (run (Suc k)) < iteration_rank (run k))
    \<and> (\<forall>k. at_rest (run k) \<longrightarrow> run (Suc k) = run k)"
proof -
  let ?P = "\<lambda>k x. reachable c env db wall x \<and> (k = 0 \<longrightarrow> x = s)"
  let ?Q = "\<lambda>x y. if at_rest x then y = x else sys_step c env db wall x y \<and> iteration_rank y < iteration_rank x"
  have "\<exists>y. ?P (Suc k) y \<and> ?Q x y" if "?P k x" for k x
  proof (cases "at_rest x")
    case False
    have "flags_owned (http x)" using that by (intro reachable_invariants(4) [of c env db wall]) blast
    from loop_enabled [OF this] False obtain y where
      y: "sys_step c env db wall x y" "iteration_rank y < iteration_rank x" unfolding at_rest_def by blast
    from that obtain bound spawned now where "(sys_step c env db wall)\<^sup>*\<^sup>* (allgres_runtime_main bound spawned now) x" by blast
    then have "(sys_step c env db wall)\<^sup>*\<^sup>* (allgres_runtime_main bound spawned now) y" using y(1) by (rule rtranclp.rtrancl_into_rtrancl)
    with y False show ?thesis by (intro exI [of _ y]) auto
  qed (use that in auto)
  with assms dependent_nat_choice [of ?P "\<lambda>_. ?Q"] obtain run where "\<forall>k. ?P k (run k) \<and> ?Q (run k) (run (Suc k))" by blast
  then show ?thesis by (intro exI [of _ run]) (auto split: if_splits)
qed

end
