(* ===== verification/Runtime_Sample.thy ===== *)
theory Runtime_Sample
  imports Runtime_Progress
begin

text \<open>
  A concrete run of the main loop with its thread pool, at which the properties of the runtime worker
  are instantiated.
\<close>

section \<open>A sample run\<close>

text \<open>
  One call is claimed, taken on by a thread, reported as lost and cancelled. The database grants
  everything, offers one call, and reports every call it is asked about as lost.
\<close>

definition sample_id :: string where
  "sample_id = ''00000000-0000-0000-0000-000000000000''"

definition one_call :: json where
  "one_call = jobj [(''calls'', JArray [jobj [(''call_id'', JString sample_id)]])]"

definition sample_db :: db where
  "sample_db = obliging_db\<lparr>one_json := (\<lambda>tr sql args.
     if sql = claim_stmt Outbound \<and> (case args of [DInt n] \<Rightarrow> 1 \<le> n | _ \<Rightarrow> False) then SpiOk (Some one_call)
     else if sql = lost_stmt then SpiOk (case args of [DTexts ids] \<Rightarrow> Some (JArray (map JString ids)) | _ \<Rightarrow> None)
     else SpiOk None)\<rparr>"

abbreviation sample_env :: env where
  "sample_env \<equiv> \<lambda>_. Some ''0''"

abbreviation sample_codec :: codec where
  "sample_codec \<equiv> \<lparr>from_str = (\<lambda>_. None), to_str = (\<lambda>_. [])\<rparr>"

abbreviation sample_step :: "system \<Rightarrow> system \<Rightarrow> bool" where
  "sample_step \<equiv> sys_step sample_codec sample_env sample_db (\<lambda>_. None)"

abbreviation sample_reachable :: "system \<Rightarrow> bool" where
  "sample_reachable \<equiv> reachable sample_codec sample_env sample_db (\<lambda>_. None)"

text \<open>Where a run of the sample stands: nothing has been harvested, and every call handed out is in the pool.\<close>

definition stands :: "system \<Rightarrow> phase \<Rightarrow> bool \<Rightarrow> nat \<Rightarrow> pool \<Rightarrow> bool" where
  "stands s ph b n p \<longleftrightarrow> sample_reachable s \<and> phase s = ph \<and> ready s = b \<and> in_flight s = n \<and> http s = p
     \<and> handed_out (session s) = outstanding p \<and> res_chan p = [] \<and> workers p \<noteq> []"

lemma stands_step:
  assumes "stands s ph b n p" and "sample_step s s'" and "phase s' = ph'" "ready s' = b'" "in_flight s' = n'" "http s' = p'"
    and "res_chan p' = []" "workers p' \<noteq> []" "\<nexists>e. ph' = Crashed e"
  shows "stands s' ph' b' n' p'"
proof -
  from assms(1) obtain bound spawned now where
    "sample_step\<^sup>*\<^sup>* (allgres_runtime_main bound spawned now) s" unfolding stands_def by blast
  then have "sample_step\<^sup>*\<^sup>* (allgres_runtime_main bound spawned now) s'" using assms(2) by (rule rtranclp.rtrancl_into_rtrancl)
  moreover have "handed_out (session s') = outstanding (http s')"
    by (rule sys_step_all_taken [OF assms(2)]) (use assms in \<open>simp_all add: stands_def\<close>)
  ultimately show ?thesis using assms(3-8) unfolding stands_def by blast
qed

lemma after_claim_runs [simp]: "after_claim q k \<noteq> Crashed e"
  by (cases q) simp_all

lemmas sample_simps = transaction_def try_bind_def spi_simps get_one_bool_def get_one_json_def spi_call_def io_ok_def
  drop_privileges_def sample_db_def obliging_db_def lost_stmt_def

lemma sample_installed: "\<exists>tr'. extension_is_installed sample_db tr = (Inr True, tr')"
  by (simp add: extension_is_installed_def sample_simps)

lemma sample_claim: "\<exists>tr'. claim_queue sample_env sample_db Outbound 8 tr = (Inr one_call, tr')"
  by (simp add: claim_queue_def dispatch_and_claim_def report_err_def sample_simps as_i32_id)

lemma sample_no_claim: "q \<noteq> Outbound \<Longrightarrow> \<exists>tr'. claim_queue sample_env sample_db q n tr = (Inr (no_jobs ''calls''), tr')"
  by (cases q) (simp_all add: claim_queue_def claim_oauth_jobs_def claim_agent_embedding_jobs_def claim_provider_probe_jobs_def
      claim_def sample_simps)

lemma sample_lost: "ids \<noteq> [] \<Longrightarrow> \<exists>tr'. check_lost sample_env sample_db ids tr = (Inr ids, tr')"
proof -
  have "List.map_filter as_str (map JString ids) = ids" by (simp add: List.map_filter_def comp_def)
  then show "ids \<noteq> [] \<Longrightarrow> ?thesis" by (simp add: check_lost_def sample_simps)
qed

lemma sample_pumps: "\<exists>n tr'. run_pumps (\<lambda>_. None) sample_env sample_db True tr = (Inr n, tr')"
proof -
  have "get_array ''calls'' (no_jobs ''calls'') = Some []" "get_array ''builds'' (no_jobs ''builds'') = Some []" by code_simp+
  then show ?thesis
    by (simp add: run_pumps_def pump_sql_def pump_function_builds_def pump_function_calls_def pump_procedure_builds_def
        pump_procedure_calls_def claim_sql_jobs_def claim_function_build_jobs_def claim_function_call_jobs_def
        claim_procedure_build_jobs_def claim_procedure_call_jobs_def claim_def sample_simps)
qed

definition sample_job :: OutboundJob where
  "sample_job = \<lparr>job_id = sample_id, job_queue = Outbound, job_call = jobj [(''call_id'', JString sample_id)]\<rparr>"

lemma sample_calls: "calls_of one_call = [jobj [(''call_id'', JString sample_id)]]"
  by code_simp

lemma sample_job_of: "job_of Outbound (jobj [(''call_id'', JString sample_id)]) = Some sample_job"
  by code_simp

lemma to_cancel:
  assumes "stands s Wait b n p" and "res_chan p = []"
  shows "\<exists>s. stands s Cancel b n p"
proof -
  have "stands (s\<lparr>phase := Rpc\<rparr>) Rpc b n p"
    by (rule stands_step [OF assms(1) sys_step.wake]) (use assms(1) in \<open>simp_all add: stands_def\<close>)
  then have "stands (s\<lparr>phase := Harvest, session := session (s\<lparr>phase := Rpc\<rparr>) @ []\<rparr>) Harvest b n p"
    by (rule stands_step) (use assms(1) sys_step.rpc_done [of "s\<lparr>phase := Rpc\<rparr>" "[]"] in \<open>simp_all add: stands_def\<close>)
  then obtain s2 where s2: "stands s2 Harvest b n p" by blast
  have "stands (s2\<lparr>phase := Cancel\<rparr>) Cancel b n p"
    by (rule stands_step [OF s2 sys_step.harvested]) (use s2 assms(2) in \<open>simp_all add: stands_def try_recv_def\<close>)
  then show ?thesis by blast
qed

lemma to_lost:
  assumes "stands s Cancel b n p" and "distinct ids" "set ids = dom (OUTBOUND_CANCEL_FLAGS p)"
  shows "\<exists>s. stands s (Lost ids) b n p"
proof -
  obtain tr where "check_lost sample_env sample_db ids (session s) = (Inr ids, tr)"
    using sample_lost [of ids "session s"] by (cases "ids = []") (auto simp: check_lost_def)
  from sys_step.ask_lost [OF _ assms(2) _ this]
  have "stands (s\<lparr>session := tr, phase := Lost ids\<rparr>) (Lost ids) b n p"
    by (intro stands_step [OF assms(1)]) (use assms in \<open>simp_all add: stands_def\<close>)
  then show ?thesis by blast
qed

lemma through_cancel:
  assumes "stands s Cancel b n p" and "distinct ids" "set ids = dom (OUTBOUND_CANCEL_FLAGS p)"
  shows "\<exists>s. stands s Pump b n (set_flags ids p)"
proof -
  from to_lost [OF assms] obtain s2 where s2: "stands s2 (Lost ids) b n p" by blast
  have "stands (s2\<lparr>http := set_flags ids (http s2), phase := Pump\<rparr>) Pump b n (set_flags ids p)"
    by (rule stands_step [OF s2 sys_step.set_lost]) (use s2 in \<open>simp_all add: stands_def\<close>)
  then show ?thesis by blast
qed

lemma to_claim:
  assumes "stands s Pump b n p"
  shows "\<exists>s. stands s (Claim Outbound 0) True n p"
proof -
  obtain tr where "extension_is_installed sample_db (session s) = (Inr True, tr)" using sample_installed by blast
  from sys_step.check_ready [OF _ order_refl this] assms show ?thesis
    by (intro exI [of _ "s\<lparr>session := tr, ready := True, phase := Claim Outbound 0\<rparr>"] stands_step [OF assms])
      (simp_all add: stands_def)
qed

lemma no_more_claims:
  assumes "stands s (Claim q k) True 1 p" and "q \<noteq> Outbound"
  shows "\<exists>s. stands s (after_claim q k) True 1 p"
proof -
  obtain tr where "claim_queue sample_env sample_db q (capacity - in_flight s) (session s) = (Inr (no_jobs ''calls''), tr)"
    using sample_no_claim [OF assms(2)] by blast
  from sys_step.claims [OF _ _ _ this, of k "http s" "in_flight s" k] assms(1) show ?thesis
    by (intro exI [of _ "s\<lparr>session := tr, phase := after_claim q k\<rparr>"] stands_step [OF assms(1)])
      (simp_all add: stands_def capacity_def HTTP_THREADS_def)
qed

lemma to_wait:
  assumes "stands s (Execute k) True n p"
  shows "\<exists>s. stands s Wait True n p"
proof -
  obtain m tr where "run_pumps (\<lambda>_. None) sample_env sample_db (ready s) (session s) = (Inr m, tr)"
    using sample_pumps [of "session s"] assms unfolding stands_def by metis
  from sys_step.execute [OF _ this] assms show ?thesis
    by (intro exI [of _ "schedule 0 (k + m) (s\<lparr>session := tr, phase := Wait\<rparr>)"] stands_step [OF assms])
      (fastforce simp: stands_def schedule_def)+
qed

abbreviation sample_pool :: pool where
  "sample_pool \<equiv> spawn_http_pool HTTP_THREADS (\<lambda>_. True)"

lemma sample_pool_facts: "outstanding sample_pool = {#}" "res_chan sample_pool = []" "workers sample_pool \<noteq> []"
  by (simp_all add: outstanding_def spawn_http_pool_def HTTP_THREADS_def upt_rec numeral_eq_Suc)

lemma sample_claiming:
  "\<exists>s s'. stands s (Claim Outbound 0) True 0 sample_pool \<and> sample_step s s'
    \<and> stands s' (Claim Oauth 1) True 1 (sample_pool\<lparr>job_chan := [sample_job]\<rparr>)"
proof -
  have "stands (allgres_runtime_main True (\<lambda>_. True) 0) Wait False 0 sample_pool"
    unfolding stands_def by (auto simp: allgres_runtime_main_def sample_pool_facts handed_out_def)
  from to_cancel [OF this] obtain s1 where "stands s1 Cancel False 0 sample_pool" by (auto simp: spawn_http_pool_def)
  from through_cancel [OF this, of "[]"] to_claim obtain s where s: "stands s (Claim Outbound 0) True 0 sample_pool"
    by (fastforce simp: spawn_http_pool_def)
  obtain tr where "claim_queue sample_env sample_db Outbound (capacity - in_flight s) (session s) = (Inr one_call, tr)"
    using sample_claim [of "session s"] s by (auto simp: stands_def capacity_def HTTP_THREADS_def)
  moreover have "enqueue Outbound (calls_of one_call) (http s) (in_flight s) 0 = (sample_pool\<lparr>job_chan := [sample_job]\<rparr>, 1, 1)"
    using s by (simp add: stands_def sample_calls sample_job_of send_job_def spawn_http_pool_def HTTP_THREADS_def)
  ultimately have c: "sample_step s (s\<lparr>session := tr, http := sample_pool\<lparr>job_chan := [sample_job]\<rparr>, in_flight := 1, phase := after_claim Outbound 1\<rparr>)"
    (is "sample_step s ?s")
    using s by (intro sys_step.claims) (simp_all add: stands_def capacity_def HTTP_THREADS_def)
  moreover have "stands ?s (Claim Oauth 1) True 1 (sample_pool\<lparr>job_chan := [sample_job]\<rparr>)"
    by (rule stands_step [OF s c]) (use s in \<open>simp_all add: stands_def\<close>)
  ultimately show ?thesis using s by blast
qed

lemma sample_claimed: "\<exists>s. stands s (Claim Oauth 1) True 1 (sample_pool\<lparr>job_chan := [sample_job]\<rparr>)"
  using sample_claiming by blast

text \<open>The pool once the thread has registered the call.\<close>

definition running_pool :: pool where
  "running_pool = sample_pool\<lparr>workers := (workers sample_pool)[0 := Running sample_job 0], next_cell := 1,
     cells := (cells sample_pool)(0 := False), OUTBOUND_CANCEL_FLAGS := Map.empty(sample_id \<mapsto> 0)\<rparr>"

lemma stands_thread:
  assumes "stands s ph b n p" and "pool_step sample_codec p p'" "res_chan p' = []" "\<nexists>e. ph = Crashed e"
  shows "stands (s\<lparr>http := p'\<rparr>) ph b n p'"
proof -
  from assms(1,2) have "pool_step sample_codec (http s) p'" by (simp add: stands_def)
  moreover have "workers p' \<noteq> []" using assms(1) pool_step_threads [OF assms(2)] unfolding stands_def by auto
  ultimately show ?thesis using assms(1,3,4) by (intro stands_step [OF assms(1) sys_step.thread]) (simp_all add: stands_def)
qed

lemma sample_running: "\<exists>s. stands s (Claim Oauth 1) True 1 running_pool"
proof -
  let ?p1 = "sample_pool\<lparr>job_chan := [sample_job]\<rparr>"
  let ?p2 = "set_worker 0 (Received sample_job) (?p1\<lparr>job_chan := []\<rparr>)"
  have "pool_step sample_codec ?p1 ?p2"
    by (rule pool_step.recv) (simp_all add: spawn_http_pool_def HTTP_THREADS_def upt_rec numeral_eq_Suc)
  with sample_claimed stands_thread obtain s2 where s2: "stands s2 (Claim Oauth 1) True 1 ?p2"
    by (fastforce simp: set_worker_def sample_pool_facts)
  have r: "register (job_id sample_job) ?p2 = (0, snd (register (job_id sample_job) ?p2))"
    by (simp add: register_def Let_def set_worker_def spawn_http_pool_def)
  have "pool_step sample_codec ?p2 (set_worker 0 (Running sample_job 0) (snd (register (job_id sample_job) ?p2)))"
    by (rule pool_step.start [OF _ _ r]) (simp_all add: set_worker_def spawn_http_pool_def HTTP_THREADS_def)
  also have "set_worker 0 (Running sample_job 0) (snd (register (job_id sample_job) ?p2)) = running_pool"
    by (simp add: running_pool_def set_worker_def register_def Let_def spawn_http_pool_def sample_job_def)
  finally have "stands (s2\<lparr>http := running_pool\<rparr>) (Claim Oauth 1) True 1 running_pool"
    by (intro stands_thread [OF s2]) (simp_all add: running_pool_def sample_pool_facts)
  then show ?thesis by blast
qed

text \<open>The states before the database is asked about the running call, and after its flag has been set.\<close>

lemma sample_asking: "\<exists>s. stands s Cancel True 1 running_pool"
proof -
  obtain s where "stands s (Claim Oauth 1) True 1 running_pool" using sample_running by blast
  from no_more_claims [OF this] obtain s1 where "stands s1 (Claim AgentEmbedding 1) True 1 running_pool" by auto
  from no_more_claims [OF this] obtain s2 where "stands s2 (Claim ProviderProbe 1) True 1 running_pool" by auto
  from no_more_claims [OF this] to_wait obtain s3 where "stands s3 Wait True 1 running_pool" by fastforce
  from to_cancel [OF this] show ?thesis by (auto simp: running_pool_def spawn_http_pool_def)
qed

lemma sample_reported: "\<exists>s. stands s (Lost [sample_id]) True 1 running_pool"
  using sample_asking to_lost [of _ True 1 running_pool "[sample_id]"] by (auto simp: running_pool_def)

lemma sample_cancelled: "\<exists>s. stands s Pump True 1 (set_flags [sample_id] running_pool)"
  using sample_asking through_cancel [of _ True 1 running_pool "[sample_id]"] by (auto simp: running_pool_def)

lemma running_cancelled:
  "workers (set_flags [sample_id] running_pool) ! 0 = Running sample_job 0" "0 < length (workers (set_flags [sample_id] running_pool))"
  "cells (set_flags [sample_id] running_pool) 0"
  by (simp_all add: running_pool_def spawn_http_pool_def HTTP_THREADS_def)

end
