(* ===== verification/Call_Stop.thy ===== *)
theory Call_Stop
  imports Runtime_Sample
begin

text \<open>
  Stopping a call, end to end: the flag that the runtime worker sets is the flag that the transport of
  the running call reads. The connector of a call (\<open>CancellableConnector\<close> of \<open>outbound.rs\<close>) hands
  its flag to every transport it opens, and each wait of a transport checks it between two slices.
\<close>

section \<open>The connector\<close>

text \<open>
  \<open>flag\<close> is the address of the cell that the call's \<open>CancelGuard\<close> registered; \<open>opened\<close> is what the
  client's own connector does.
\<close>

record 'i CancellableTransport =
  inner_transport :: 'i
  cancel :: nat

definition connect :: "('d \<Rightarrow> ureq_error + 'i option) \<Rightarrow> nat \<Rightarrow> 'd \<Rightarrow> ureq_error + 'i CancellableTransport option" where
  "connect opened flag details =
     (case opened details of
        Inl e \<Rightarrow> Inl e
      | Inr (Some t) \<Rightarrow> Inr (Some \<lparr>inner_transport = t, cancel = flag\<rparr>)
      | Inr None \<Rightarrow> Inr None)"

text \<open>
  A wait of the transport while the system runs: \<open>at k\<close> is the system when iteration \<open>k\<close> of the wait
  loads the flag, \<open>ticks\<close> the clock, \<open>answers\<close> what the inner transport does.
\<close>

definition waiting ::
    "'i CancellableTransport \<Rightarrow> (nat \<Rightarrow> system) \<Rightarrow> (nat \<Rightarrow> nat) \<Rightarrow> ('i \<Rightarrow> nat \<Rightarrow> nat \<Rightarrow> ureq_error + 'a) \<Rightarrow> 'a wait_env" where
  "waiting t at ticks answers =
     \<lparr>cancelled = (\<lambda>k. cells (http (at k)) (cancel t)), clock = ticks, inner = answers (inner_transport t)\<rparr>"

section \<open>A flag stays set\<close>

definition stopped_cell :: "nat \<Rightarrow> pool \<Rightarrow> bool" where
  "stopped_cell a p \<longleftrightarrow> a < next_cell p \<and> cells p a"

lemma pool_step_stopped: "pool_step c p p' \<Longrightarrow> stopped_cell a p \<Longrightarrow> stopped_cell a p'"
  by (induction rule: pool_step.induct) (auto simp: stopped_cell_def set_worker_def drop_guard_def register_def Let_def)

lemma sys_step_stopped: "sys_step c env db wall s s' \<Longrightarrow> stopped_cell a (http s) \<Longrightarrow> stopped_cell a (http s')"
proof (induction rule: sys_step.induct)
  case (thread s p)
  then show ?case by (simp add: pool_step_stopped)
next
  case (harvest s r p x tr)
  then show ?case by (auto simp: try_recv_def stopped_cell_def split: list.splits)
next
  case (set_lost s lost)
  with set_flags_only_cells [of lost "http s"] set_flags_keeps [of "http s" a lost] show ?case
    by (auto simp: stopped_cell_def)
next
  case (claims s q k claimed tr p n k')
  from enqueue_effect [OF claims(5)] have "p = (http s)\<lparr>job_chan := job_chan p\<rparr>" by blast
  then have "next_cell p = next_cell (http s)" "cells p = cells (http s)"
    by (metis pool.select_convs pool.surjective pool.update_convs(1))+
  with claims show ?case by (simp add: stopped_cell_def)
qed (auto split: sum.split)

lemma run_stopped:
  "(sys_step c env db wall)\<^sup>*\<^sup>* s s' \<Longrightarrow> stopped_cell a (http s) \<Longrightarrow> stopped_cell a (http s')"
  by (induction rule: rtranclp_induct) (auto intro: sys_step_stopped)

text \<open>The transport of a call that was reported lost finds its flag set from then on.\<close>

lemma lost_call_stopped:
  assumes "reachable c env db wall s" "once (job_id j) (handed_out (session s))"
    and "phase s = Lost lost" "sys_step c env db wall s s'" "phase s' = Pump"
    and "i < length (workers (http s'))" "workers (http s') ! i = Running j a" "job_id j \<in> set lost"
    and "connect opened a details = Inr (Some t)" "(sys_step c env db wall)\<^sup>*\<^sup>* s' s''"
  shows "cells (http s'') (cancel t)"
proof -
  have "flags_owned (http s')" by (rule sys_step_flags_owned [OF assms(4) reachable_invariants(4) [OF assms(1)]])
  from flags_ownedD(2) [OF this assms(6,7)] lost_calls_flagged [OF assms(1-8)]
  have "stopped_cell a (http s')" by (simp add: stopped_cell_def)
  moreover have "cancel t = a" using assms(9) by (auto simp: connect_def split: sum.splits option.splits)
  ultimately show ?thesis using run_stopped [OF assms(10)] by (simp add: stopped_cell_def)
qed

section \<open>Property\<close>

text \<open>
  C13. A stop reaches the network. Take a call that a thread is running when the loop has acted on an
  answer that reports it lost, a transport that its connector opened, and a wait of that transport,
  for output or for input, one of whose iterations, the \<open>n\<close>-th, loads the flag after that. If the
  database has handed out the identifier of the call only once, then the wait returns at that iteration
  at the latest, whatever the clock and the network do: with the cancellation error if it got there,
  otherwise with what an earlier iteration ended with. No slice is longer than \<open>CANCEL_POLL_INTERVAL\<close>, and
  a wait that begins after the stop returns at once. (Were an identifier handed out again while its
  call still runs, the second registration would replace the flag of the first call.)
\<close>

theorem stop_reaches_transport:
  assumes "reachable c env db wall s" "once (job_id j) (handed_out (session s))"
    and "phase s = Lost lost" "sys_step c env db wall s s'" "phase s' = Pump"
    and "i < length (workers (http s'))" "workers (http s') ! i = Running j a" "job_id j \<in> set lost"
    and "connect opened a details = Inr (Some t)" "(sys_step c env db wall)\<^sup>*\<^sup>* s' (at n)"
  shows "(\<exists>m \<le> n. await_input (waiting t at ticks reads) start after =
            Some (if m = n \<or> cells (http (at m)) a then Inl cancel_error
                  else if start + after \<le> ticks m then reads (inner_transport t) m after
                  else reads (inner_transport t) m (sliced (start + after - ticks m)))
          \<and> (m = n \<or> cells (http (at m)) a \<or> start + after \<le> ticks m
             \<or> reads (inner_transport t) m (sliced (start + after - ticks m)) \<notin> {Inl Timeout, Inr False}))
    \<and> (\<exists>m \<le> n. transmit_output (waiting t at ticks writes) start after =
            Some (if m = n \<or> cells (http (at m)) a then Inl cancel_error
                  else if start + after \<le> ticks m then writes (inner_transport t) m after
                  else writes (inner_transport t) m (sliced (start + after - ticks m)))
          \<and> (m = n \<or> cells (http (at m)) a \<or> start + after \<le> ticks m
             \<or> writes (inner_transport t) m (sliced (start + after - ticks m)) \<noteq> Inl Timeout))"
proof -
  have t: "cancel t = a" using assms(9) by (auto simp: connect_def split: sum.splits option.splits)
  from lost_call_stopped [OF assms] have n: "cancelled (waiting t at ticks f) n" for f
    by (simp add: waiting_def)
  have a: "cancelled (waiting t at ticks f) m \<longleftrightarrow> m = n \<or> cells (http (at m)) a" for f :: "_ \<Rightarrow> nat \<Rightarrow> nat \<Rightarrow> ureq_error + 'e" and m
    using n [of f] t by (auto simp: waiting_def)
  have e: "clock (waiting t at ticks f) = ticks" "inner (waiting t at ticks f) = f (inner_transport t)"
    for f :: "_ \<Rightarrow> nat \<Rightarrow> nat \<Rightarrow> ureq_error + 'e" by (simp_all add: waiting_def)
  from await.stopped [OF le0 n, of reads "start + after" after] transmit.stopped [OF le0 n, of writes "start + after" after]
  show ?thesis
    unfolding await_input_def transmit_output_def a e await_retry_iff transmit_retry_iff by (meson atLeastAtMost_iff)
qed

text \<open>A transport on which nothing ever happens, for a call that is stopped while it waits.\<close>

theorem stop_reaches_transport_witness:
  "\<exists>at :: nat \<Rightarrow> system. workers (http (at 1)) ! 0 = Running sample_job 0 \<and> \<not> cells (http (at 0)) 0
    \<and> await_input (waiting \<lparr>inner_transport = (), cancel = 0\<rparr> at (\<lambda>_. 0) (\<lambda>_ _ _. Inl Timeout)) 0 60000 = Some (Inl cancel_error)"
proof -
  obtain s where s: "stands s (Lost [sample_id]) True 1 running_pool" using sample_reported by blast
  then have r: "sample_reachable s" "phase s = Lost [sample_id]" "http s = running_pool"
    "handed_out (session s) = outstanding running_pool" by (simp_all add: stands_def)
  have "outstanding running_pool = {#job_key sample_job#}"
    by (simp add: running_pool_def outstanding_def spawn_http_pool_def HTTP_THREADS_def upt_rec numeral_eq_Suc)
  then have u: "once (job_id sample_job) (handed_out (session s))" by (simp add: r(4) once_def job_key_def)
  let ?s = "s\<lparr>http := set_flags [sample_id] (http s), phase := Pump\<rparr>"
  let ?at = "\<lambda>k :: nat. if k = 0 then s else ?s"
  let ?t = "\<lparr>inner_transport = (), cancel = 0\<rparr>"
  let ?w = "await_input (waiting ?t ?at (\<lambda>_. 0) (\<lambda>_ _ _. Inl Timeout)) 0 60000"
  have w: "workers (http ?s) ! 0 = Running sample_job 0" "0 < length (workers (http ?s))"
    using running_cancelled(1,2) by (simp_all add: r(3))
  have c: "connect (\<lambda>_. Inr (Some ())) 0 () = Inr (Some ?t)" by (simp add: connect_def)
  have p: "phase ?s = Pump" "job_id sample_job \<in> set [sample_id]" "sample_step\<^sup>*\<^sup>* ?s (?at 1)" by (simp_all add: sample_job_def)
  have f: "\<not> cells (http (?at 0)) 0" by (simp add: r(3) running_pool_def)
  note stop_reaches_transport [where at = ?at and n = 1 and ticks = "\<lambda>_. 0" and start = 0 and after = 60000
      and reads = "\<lambda>_ _ _. Inl Timeout" and writes = "\<lambda>_ _ _. Inr ()",
      OF r(1) u r(2) sys_step.set_lost [OF r(2)] p(1) w(2,1) p(2) c p(3), THEN conjunct1]
  then have "?w = Some (Inl cancel_error)" by auto
  with w(1) f show ?thesis by (intro exI [of _ ?at]) simp
qed

end
