(* ===== verification/Runtime_Invariants.thy ===== *)
theory Runtime_Invariants
  imports Runtime_Sample Runtime_Progress
begin

text \<open>
  What holds of the runtime worker in every reachable state.
\<close>

section \<open>Properties\<close>

text \<open>
  C1. The main loop with its thread pool refines the ledger: every step, of the loop or of a thread,
  whatever the database and the network answer, leaves the ledger alone, books a claim (the calls of
  the answer that carry a valid identifier, all or the first few of them taken on), or takes one
  outstanding call off, finishing it only under its own identifier and in its own queue.
\<close>

theorem runtime_refines_ledger:
  assumes "sys_step c env db wall s s'"
  shows "ledger_step (ledger_of s) (ledger_of s')"
  using assms by (rule sys_step_ledger)

theorem runtime_refines_ledger_witness:
  "\<exists>s s'. ledger_step (ledger_of s) (ledger_of s') \<and> outstanding (http s) = {#}
    \<and> outstanding (http s') = {#(sample_id, Outbound)#}"
proof -
  obtain s s' where s: "stands s (Claim Outbound 0) True 0 sample_pool"
    "stands s' (Claim Oauth 1) True 1 (sample_pool\<lparr>job_chan := [sample_job]\<rparr>)" and step: "sample_step s s'"
    using sample_claiming by blast
  have "outstanding (http s) = {#}" using s(1) sample_pool_facts(1) by (simp add: stands_def)
  moreover have "outstanding (http s') = {#(sample_id, Outbound)#}"
    using s(2) sample_pool_facts(1) by (simp add: stands_def outstanding_def job_key_def sample_job_def)
  ultimately show ?thesis using runtime_refines_ledger [OF step] by blast
qed

text \<open>
  C2. No result is invented, misfiled or recorded twice: in every reachable state, the completions
  recorded in a queue together with the calls still in the pool are among the calls claimed from that
  queue, counted with multiplicity; and the loop's \<open>in_flight\<close> is exactly the number of calls that are
  queued, running or waiting to be harvested, so the saturating decrement never saturates.
\<close>

theorem outbound_calls_accounted:
  assumes "reachable c env db wall s"
  shows "recorded (session s) + outstanding (http s) \<subseteq># handed_out (session s)
    \<and> in_flight s = size (outstanding (http s))"
  using reachable_invariants [OF assms] by (simp add: balanced_def ledger_of_def counted_def)

theorem outbound_calls_accounted_witness:
  "\<exists>s :: system. in_flight s = 1 \<and> size (outstanding (http s)) = 1
    \<and> recorded (session s) + outstanding (http s) \<subseteq># handed_out (session s)"
proof -
  obtain s where "stands s (Claim Oauth 1) True 1 (sample_pool\<lparr>job_chan := [sample_job]\<rparr>)" using sample_claimed by blast
  then have "sample_reachable s" "in_flight s = 1" by (simp_all add: stands_def)
  with outbound_calls_accounted [OF this(1)] show ?thesis by (intro exI [of _ s]) simp
qed

text \<open>
  C24. With claim functions that return no more calls than they are asked for (and at most one when asked
  for none, as their \<open>LIMIT GREATEST(1, \<dots>)\<close> has it), at most 8 calls (twice
  the number of HTTP threads) are in flight in any reachable state, over all four queues together.
\<close>

theorem in_flight_bounded:
  assumes "claims_honour_limit db" and "reachable c env db wall s"
  shows "in_flight s \<le> 8"
proof -
  have "in_flight s \<le> capacity"
    by (rule reachable_invariant [OF assms(2), of "\<lambda>s. in_flight s \<le> capacity"])
      (auto simp: allgres_runtime_main_def intro: sys_step_within_capacity [OF assms(1)])
  then show ?thesis by (simp add: capacity_def HTTP_THREADS_def)
qed

theorem in_flight_bounded_witness:
  "claims_honour_limit sample_db \<and> (\<exists>s :: system. in_flight s = 1 \<and> in_flight s \<le> 8)"
proof -
  have "claim_stmt q \<noteq> lost_stmt" for q by (cases q) (simp_all add: lost_stmt_def)
  then have h: "claims_honour_limit sample_db"
    by (auto simp: claims_honour_limit_def sample_db_def sample_calls split: if_splits)
  obtain s where "stands s (Claim Oauth 1) True 1 (sample_pool\<lparr>job_chan := [sample_job]\<rparr>)" using sample_claimed by blast
  then have "sample_reachable s" "in_flight s = 1" by (simp_all add: stands_def)
  with in_flight_bounded [OF h this(1)] h show ?thesis by blast
qed

text \<open>
  C12. Cancellation hits only what was cancelled: in every reachable state, under every interleaving of
  the loop with the threads, a running call whose flag is set is one that the database reported as
  lost; the flag of another call, or of a later call in the same thread, is never touched.
\<close>

theorem cancelled_only_when_lost:
  assumes "reachable c env db wall s"
    and "i < length (workers (http s))" "workers (http s) ! i = Running j a" "cells (http s) a"
  shows "job_id j \<in> reported_lost (session s)"
proof -
  have "cancelled_are_lost (allgres_runtime_main bound spawned now)" for bound spawned now
    by (auto simp: cancelled_are_lost_def allgres_runtime_main_def spawn_http_pool_def)
  with initial(4) have "flags_owned (http s) \<and> cancelled_are_lost s"
    by (intro reachable_invariant [OF assms(1), of "\<lambda>s. flags_owned (http s) \<and> cancelled_are_lost s"])
      (blast intro: sys_step_flags_owned sys_step_cancelled_are_lost)+
  with assms(2-4) show ?thesis unfolding cancelled_are_lost_def by blast
qed

theorem cancelled_only_when_lost_witness:
  "\<exists>s :: system. cells (http s) 0 \<and> workers (http s) ! 0 = Running sample_job 0 \<and> job_id sample_job \<in> reported_lost (session s)"
proof -
  obtain s where "stands s Pump True 1 (set_flags [sample_id] running_pool)" using sample_cancelled by blast
  then have s: "sample_reachable s" "http s = set_flags [sample_id] running_pool" unfolding stands_def by blast+
  from cancelled_only_when_lost [OF s(1), of 0 sample_job 0] running_cancelled show ?thesis
    unfolding s(2) [symmetric] by blast
qed

text \<open>
  C27. What the worker stores is PostgreSQL text: for a response body that is UTF-8, the string bound
  to each of the four completion statements is well-formed UTF-8 without NUL, of at most
  \<open>MAX_RESPONSE_BYTES\<close> bytes, whatever the server sent.
\<close>

theorem stored_body_is_text:
  assumes "utf8_valid body"
  shows "\<exists>t. result_row call_id st body = [DText call_id, DInt st, DText t]
    \<and> utf8_valid t \<and> CHR 0x00 \<notin> set t \<and> length t \<le> MAX_RESPONSE_BYTES"
proof -
  let ?b = "filter (\<lambda>c. c \<noteq> CHR 0x00) body"
  have "utf8_valid ?b" using assms by (intro utf8_valid_remove_ascii) (simp_all add: is_ascii_def)
  then show ?thesis
    using truncate_utf8_valid [of ?b MAX_RESPONSE_BYTES] truncate_utf8_length [of ?b MAX_RESPONSE_BYTES]
      truncate_utf8_set [of ?b MAX_RESPONSE_BYTES]
    unfolding result_row_def stored_body_def by auto
qed

theorem stored_body_is_text_witness:
  "\<exists>t. result_row ''c'' 200 [CHR ''a'', CHR 0x00, CHR ''b''] = [DText ''c'', DInt 200, DText t] \<and> CHR 0x00 \<notin> set t"
proof -
  have "utf8_valid [CHR ''a'', CHR 0x00, CHR ''b'']" by code_simp
  from stored_body_is_text [OF this, of "''c''" 200] show ?thesis by blast
qed

text \<open>
  C15. Every iteration of the main loop ends, whatever the database and the network answer and however the
  pool threads interleave with it. The loop is never stuck: inside an iteration some step is enabled.
  And every run reaches the end of its iteration (the loop waits for its latch again, has stopped, or
  was left by an error) unless it serves dashboard connections for ever: the loop that accepts them
  goes on as long as one is waiting, so the theorem assumes that only finitely many are served. No
  fairness of the threads is assumed.
\<close>

theorem iteration_ends:
  assumes "reachable c env db wall (run 0)"
    and "\<And>k. \<not> at_rest (run k) \<Longrightarrow> sys_step c env db wall (run k) (run (Suc k))"
    and "finite {k. serves (run k) (run (Suc k))}"
  shows "(\<exists>k. at_rest (run k)) \<and> (\<not> at_rest (run 0) \<longrightarrow> (\<exists>s'. sys_step c env db wall (run 0) s' \<and> \<not> serves (run 0) s'))"
proof
  show "\<exists>k. at_rest (run k)" using assms(2,3) by (rule run_comes_to_rest)
  show "\<not> at_rest (run 0) \<longrightarrow> (\<exists>s'. sys_step c env db wall (run 0) s' \<and> \<not> serves (run 0) s')"
    using loop_enabled [OF reachable_invariants(4) [OF assms(1)]] serves_rank unfolding at_rest_def by blast
qed

theorem iteration_ends_witness:
  "\<exists>run. phase (run 0) = Cancel \<and> sample_step (run 0) (run (Suc 0)) \<and> (\<exists>k. at_rest (run k))"
proof -
  obtain s where "stands s Cancel True 1 running_pool" using sample_asking by blast
  then have s: "sample_reachable s" "phase s = Cancel" by (simp_all add: stands_def)
  from loop_run [OF s(1)] obtain run where run: "run 0 = s"
    "\<And>k. \<not> at_rest (run k) \<Longrightarrow> sample_step (run k) (run (Suc k)) \<and> iteration_rank (run (Suc k)) < iteration_rank (run k)"
    "\<And>k. at_rest (run k) \<Longrightarrow> run (Suc k) = run k" by blast
  have "\<not> serves (run k) (run (Suc k))" for k
  proof (cases "at_rest (run k)")
    case True
    then show ?thesis by (auto simp: at_rest_def serves_def)
  next
    case False
    with run(2) serves_rank show ?thesis by blast
  qed
  then have f: "finite {k. serves (run k) (run (Suc k))}" by simp
  have "\<not> at_rest (run 0)" by (simp add: run(1) s(2) at_rest_def)
  with run(2) have "sample_step (run 0) (run (Suc 0))" by blast
  moreover have "\<exists>k. at_rest (run k)"
    using iteration_ends [OF s(1) [folded run(1)] conjunct1 [OF run(2)] f] by blast
  ultimately show ?thesis using s(2) run(1) by (intro exI [of _ run]) simp
qed

end
