(* ===== verification/Spec2Isabelle.thy ===== *)
theory Spec2Isabelle
  imports Native_Functions Host_Stats Dashboard_Path Call_Stop Runtime_Invariants
begin

text \<open>
  A verification development of the native runtime of Allgres, the Rust code under \<open>src/src\<close>.

  \<^bold>\<open>The program.\<close> Allgres is a PostgreSQL extension that runs agents inside the database. Its native
  part has two background workers. The \<^emph>\<open>web worker\<close> (\<open>web.rs\<close>) serves the dashboard over HTTP: it
  parses requests (\<open>http_protocol.rs\<close>), guards them (tokens, tickets, rate windows, origin checks) and
  forwards admitted ones over a private socket (\<open>config.rs\<close>) to the runtime worker. The \<^emph>\<open>runtime
  worker\<close> (\<open>runtime_worker.rs\<close>) owns the database session: it answers those requests (\<open>rpc.rs\<close>),
  claims queued outbound calls and hands them to a pool of HTTP threads (\<open>outbound.rs\<close>), records
  their results, and runs agent code on its own thread: validated SQL (\<open>sandbox.rs\<close>), PL/pgSQL
  functions (\<open>function_exec.rs\<close>) and procedures (\<open>procedure_exec.rs\<close>). \<open>sql_parser.rs\<close> reads
  PostgreSQL's parse trees for the SQL validator, \<open>lib.rs\<close> exports the native functions and registers
  the workers.

  \<^bold>\<open>Theories and sources.\<close>
  \<^item> \<open>Prelude\<close>: outcomes (values, panics, errors), the state-and-error type \<open>io\<close> with \<open>try_bind\<close> for the
    question-mark operator, substring search, hash maps. \<open>Rust_Str\<close>: the operations on \<open>str\<close> and \<open>u8\<close>
    the sources use, with UTF-8 as the standard library decodes it. \<open>Json\<close>: \<open>serde_json\<close> values.
  \<^item> \<open>Lib_Helpers\<close>: the constants of \<open>lib.rs\<close> and \<open>truncate_utf8\<close>. \<open>Native_Functions\<close>: the exported
    functions, the worker registrations, \<open>raw_parse_dump\<close> and the order of the SQL files. \<open>Float64\<close>: double
    precision on bit patterns (rounding to even, parsing, products and quotients), with the monotonicity
    and error bounds of rounding. \<open>Host_Stats\<close>: \<open>native_host_stats\<close> on the contents of the \<open>/proc\<close> files.
  \<^item> \<open>Sql_Parser\<close>: the readers of \<open>sql_parser.rs\<close>, slicing panics included.
  \<^item> \<open>Http_Protocol\<close>, \<open>Web_Guards\<close>, \<open>Config\<close>, \<open>Web_Server\<close>: the request reader, the guards with their
    static maps as explicit state (the locale \<open>limiter\<close> is interpreted for the general rate
    window; the lock-out, whose test and record take the mutex separately, is the step relation
    \<open>guard_step\<close> over concurrent handlers), the private socket over a map of paths, the connection handler, and the accept loop as the step
    relation \<open>web_step\<close>.
  \<^item> \<open>Outbound_Guard\<close>, \<open>Outbound_Http\<close>: the address block lists at 32 and 128 bits, the sliced waits
    (locale \<open>sliced_wait\<close>, interpreted for both directions), every kind of outbound call with a trace
    of what was dialled.
  \<^item> \<open>Spi_Session\<close>: the database session. What the code does is a trace of events; PostgreSQL is the
    argument \<open>db\<close>, which answers each statement from the history in any way and may raise at a commit. \<open>drop_privileges\<close>,
    \<open>transaction\<close>, \<open>run_in_subtransaction\<close> and \<open>with_fixed_role\<close> are here, with observers of a trace
    (open subtransactions, the timer, what a transaction commits).
  \<^item> \<open>Contracts\<close>: the locales \<open>completion\<close> (recording a result) and \<open>agent_executor\<close> (running agent
    code), interpreted for all nine completion functions and all three executors in \<open>Sandbox\<close>,
    \<open>Function_Exec\<close>, \<open>Procedure_Exec\<close> and \<open>Runtime_Trace\<close>.
  \<^item> \<open>Http_Pool\<close>, \<open>Runtime_Worker\<close>: the pool threads as a step relation with the cancellation flags in
    a store, and the main loop as the step relation \<open>sys_step\<close> in which every phase of an iteration is
    a step and threads act between any two. \<open>Runtime_Trace\<close> holds what each step leaves in the session,
    \<open>Runtime_Loop\<close> the invariants and the ledger, \<open>Runtime_Progress\<close> the order in which an iteration
    advances, \<open>Runtime_Sample\<close> a concrete run for the witnesses, \<open>Runtime_Invariants\<close> the properties.
  \<^item> \<open>Call_Stop\<close>: the connector, and a stop on its way from the database to the waits of a transport.
    \<open>Dashboard_Path\<close>: the two workers together, on one dashboard request.

  \<^bold>\<open>What is shown.\<close> Web: only admitted requests reach the runtime, tickets are minted with the bearer
  token and redeemed once, and an event stream shows the session of its ticket, rates hold in every
  window (the lock-out up to the number of concurrent attempts), requests are read back exactly and within bounds, the thread counter is sound, and how a panic wedges the worker. SQL analysis: no
  relation, qualified or not, and no function call goes unreported (function names with a double quote
  inside are misread), and no reader panics. Outbound: no blocked address is dialled,
  the status tells whether a call was dispatched, waits end. Agent code: every statement of an agent
  runs confined, no error unwinds the worker but one raised at the commit, quoting cannot be escaped,
  unguarded objects never commit; and where the code falls short: a subtransaction left open by every
  error that was not raised, a timer left running by every raised one but its own. Runtime:
  the loop refines a ledger of claimed, outstanding and finished calls, in-flight calls are counted
  exactly and bounded, cancellation reaches exactly the running calls reported lost and ends their
  waits (for calls whose identifier was handed out once), every iteration of the loop ends unless it
  serves connections for ever, what is stored is text. Both workers: a dashboard request
  meets the guards of both on its way to the database, and the answer reaches the client unchanged.
  Host metrics: the sizes are those of the kernel in whole megabytes, and the percentage is between 0 and
  100 and accurate in spite of its roundings.

  \<^bold>\<open>Bounds and termination.\<close> Loops are structural recursion or have termination proofs, without fuel,
  except the waits of the transport and the event stream, which depend on a clock: they are
  \<open>partial_function\<close>s, and that they return is a theorem. Machine integers are words where their width
  matters (addresses, the 32-bit casts, the wrapping content length, the bits of a double) and naturals
  where the values are bounded by constants or, in the host metrics, by \<open>2\<^sup>6\<^sup>4\<close>. Strings are lists of bytes.

  \<^bold>\<open>Not modelled.\<close> The SQL files and the dashboard page are not Rust; what the worker relies on of the
  former (claim functions return at most one call or as many as they are asked for, identifiers are handed out once,
  PostgreSQL raises its errors) is a named hypothesis of
  the theorems that need it. Signal handling, latches and memory contexts of the workers are
  PostgreSQL's. The HTTP client, DNS, the JSON text codec and the clock are arguments. \<open>tests.rs\<close> holds tests.
\<close>

section \<open>Agent code and the worker\<close>

text \<open>How a job ended: it returned, or the error that committing raised unwound.\<close>

definition unwinds_only_at_commit :: "db \<Rightarrow> 'a result \<times> event list \<Rightarrow> bool" where
  "unwinds_only_at_commit db r \<longleftrightarrow>
     (\<exists>v. fst r = Inr v) \<or> (\<exists>e. fst r = Inl e \<and> commit_error db (snd r) = Some e)"

text \<open>
  C26. What agent code raises while it runs is contained: whatever PostgreSQL answers, running a sandboxed
  statement, building a function or a procedure, and calling one all return to the pump, with a value
  or an error to record, except when PostgreSQL raises an error at the commit of the job's transaction;
  then, and only then, exactly that error unwinds past them. (A deferred constraint that agent code
  violated is such an error: the commit is outside the subtransaction that catches errors.)
\<close>

theorem agent_code_contained:
  "unwinds_only_at_commit db (run_sandboxed_sql agent_id sql pg_role env db tr)
   \<and> unwinds_only_at_commit db (run_function_build sql_ident b now env db tr)
   \<and> unwinds_only_at_commit db (run_procedure_build sql_ident b now env db tr)
   \<and> unwinds_only_at_commit db (run_function_call call_id sql_ident args pg_role env db tr)
   \<and> unwinds_only_at_commit db (run_procedure_call call_id sql_ident args pg_role env db tr)"
  unfolding run_function_build_def run_procedure_build_def unwinds_only_at_commit_def
  by (intro conjI sandboxed.contained fn_call.contained proc_call.contained run_guarded_build_contained)

text \<open>
  The exception is real: a function whose deferred constraint fails at the commit takes the worker with
  it, and the job is left without a result.
\<close>

definition deferring_db :: db where
  "deferring_db = obliging_db\<lparr>commit_error := (\<lambda>_. Some ''deferred constraint'')\<rparr>"

lemma commit_error_unwinds:
  "fst (run_function_call ''c'' sample_ident JNull None (\<lambda>_. None) deferring_db []) = Inl ''deferred constraint''"
proof -
  have v: "(\<not> valid_sql_ident sample_ident ''fn_'') = False" using sample_ident_valid by simp
  show ?thesis
    unfolding run_function_call_def v if_False Let_def
    by (simp add: effective_role_def transaction_def run_in_subtransaction_def try_bind_def
        spi_simps drop_privileges_def get_one_bool_def get_one_json_def spi_call_def spi_run_def exec_ok_def io_ok_def
        with_fixed_role_def deferring_db_def obliging_db_def)
qed

text \<open>
  C14. No result is recorded with the privileges of the bootstrap superuser, unless the operator opted out
  with \<open>ALLGRES_DROP_PRIVILEGES=0\<close> (then \<open>privilege_drop\<close> is empty): each of the nine completion functions
  issues its statement at most once, in a transaction of its own, and only right after the privilege
  drop landed in that transaction.
\<close>

theorem results_recorded_as_worker:
  "only_as_worker (submit_http_result call_id st b)
     (''SELECT allgres_public.fn_complete_outbound($1::uuid, $2, $3)'', result_row call_id st b)
   \<and> only_as_worker (submit_oauth_result call_id st b)
     (''SELECT allgres_public.fn_complete_oauth($1::uuid, $2, $3)'', result_row call_id st b)
   \<and> only_as_worker (submit_agent_embedding_result call_id st b)
     (''SELECT allgres_public.fn_complete_agent_embedding($1::uuid, $2, $3)'', result_row call_id st b)
   \<and> only_as_worker (submit_provider_probe_result call_id st b)
     (''SELECT allgres_public.fn_complete_provider_probe($1::uuid, $2, $3)'', result_row call_id st b)
   \<and> only_as_worker (submit_sql_result call_id outcome) (complete_sql call_id outcome)
   \<and> only_as_worker (submit_function_call_result call_id outcome)
     (''SELECT allgres_public.fn_complete_function_call($1::uuid, $2, $3, $4)'', call_row call_id outcome)
   \<and> only_as_worker (submit_procedure_call_result call_id outcome)
     (''SELECT allgres_public.fn_complete_procedure_call($1::uuid, $2, $3, $4)'', call_row call_id outcome)
   \<and> only_as_worker (submit_function_build_result call_id built)
     (''SELECT allgres_public.fn_complete_function_build($1::uuid, $2, $3)'', build_row call_id built)
   \<and> only_as_worker (submit_procedure_build_result call_id built)
     (''SELECT allgres_public.fn_complete_procedure_build($1::uuid, $2, $3)'', build_row call_id built)"
  by (intro conjI http_completion.as_worker [unfolded complete_stmt.simps]
      oauth_completion.as_worker [unfolded complete_stmt.simps]
      embedding_completion.as_worker [unfolded complete_stmt.simps]
      probe_completion.as_worker [unfolded complete_stmt.simps]
      sql_completion.as_worker fn_call_completion.as_worker proc_call_completion.as_worker
      fn_build_completion.as_worker proc_build_completion.as_worker)

text \<open>A result recorded against a database that grants everything.\<close>

lemma recorded_example:
  "submit_http_result ''c'' 200 ''ok'' (\<lambda>_. None) obliging_db [] =
     (Inr (), [] @ (StartTransaction # privilege_drop (\<lambda>_. None))
       @ Exec ''SELECT allgres_public.fn_complete_outbound($1::uuid, $2, $3)'' (result_row ''c'' 200 ''ok'') (Answer (DJson JNull))
       # [CommitTransaction])"
  by (simp add: submit_http_result_def complete_row_def transaction_def try_bind_def spi_simps drop_privileges_def
      get_one_bool_def get_one_json_def spi_call_def io_ok_def obliging_db_def privilege_drop_def)

theorem results_recorded_as_worker_witness:
  "\<exists>pre a post r. submit_http_result ''c'' 200 ''ok'' (\<lambda>_. None) obliging_db [] =
      (r, [] @ pre @ Exec ''SELECT allgres_public.fn_complete_outbound($1::uuid, $2, $3)'' (result_row ''c'' 200 ''ok'') a # post)
    \<and> pre = StartTransaction # privilege_drop (\<lambda>_. None)"
proof -
  from results_recorded_as_worker [THEN conjunct1, of "''c''" 200 "''ok''", unfolded only_as_worker_def fst_conv snd_conv]
    recorded_example
  show ?thesis by blast
qed

end
